(* ===== verification/Prelude.thy ===== *)
theory Prelude
  imports Complex_Main "HOL-Library.Word" "HOL-Library.Multiset"
begin

text \<open>
  Shared vocabulary of the development: the error values of the C code, the result type of a
  routine that may leave through one of them, the named collections the component theories
  feed, and generic facts about lists, options and 64-bit words.
\<close>

unbundle bit_operations_syntax

section \<open>Errors as values\<close>

text \<open>
  A backend routine that does not return normally leaves through \<^verbatim>\<open>elog(ERROR, msg)\<close>
  (\<open>Elog\<close> with its message), stops at a failed \<^verbatim>\<open>Assert\<close> (\<open>AssertFail\<close>), or touches
  memory outside the object it was given (\<open>BadAccess\<close>), which C leaves undefined.
\<close>

datatype pg_error = Elog string | AssertFail | BadAccess

type_synonym 'a res = "pg_error + 'a"

definition res_bind :: "'a res \<Rightarrow> ('a \<Rightarrow> 'b res) \<Rightarrow> 'b res" where
  "res_bind r f = (case r of Inl e \<Rightarrow> Inl e | Inr x \<Rightarrow> f x)"

lemma res_bind_simps [simp]:
  "res_bind (Inl e) f = Inl e"
  "res_bind (Inr x) f = f x"
  by (simp_all add: res_bind_def)

lemma res_bind_eq_Inr: "res_bind r f = Inr y \<longleftrightarrow> (\<exists>x. r = Inr x \<and> f x = Inr y)"
  by (cases r) simp_all

text \<open>A routine that may also run forever: \<open>None\<close> if it does.\<close>

definition run_bind :: "'a res option \<Rightarrow> ('a \<Rightarrow> 'b res option) \<Rightarrow> 'b res option" where
  "run_bind m f = (case m of None \<Rightarrow> None | Some (Inl e) \<Rightarrow> Some (Inl e) | Some (Inr x) \<Rightarrow> f x)"

lemma run_bind_simps [simp]:
  "run_bind None f = None"
  "run_bind (Some (Inl e)) f = Some (Inl e)"
  "run_bind (Some (Inr x)) f = f x"
  by (simp_all add: run_bind_def)

lemma run_bind_eq_Inr: "run_bind m f = Some (Inr y) \<longleftrightarrow> (\<exists>x. m = Some (Inr x) \<and> f x = Some (Inr y))"
  by (simp add: run_bind_def split: option.splits sum.splits)

section \<open>Collections\<close>

named_theorems refine_simps \<open>abstraction of an operation, as a rewrite rule\<close>
named_theorems inv_intros \<open>operations keep their component's invariant\<close>
named_theorems set_ops \<open>set-valued readings of word-level tests\<close>

section \<open>Lists\<close>

lemma nth_append_list_update:
  "i < length xs \<Longrightarrow> (xs @ ys)[i := v] = xs[i := v] @ ys"
  by (simp add: list_update_append)

lemma list_ex_map_nth: "(\<exists>x\<in>set xs. P x) \<longleftrightarrow> (\<exists>i<length xs. P (xs ! i))"
  by (metis in_set_conv_nth)

lemma sum_list_zero_iff_nat: "sum_list xs = (0::nat) \<longleftrightarrow> (\<forall>x\<in>set xs. x = 0)"
  by (induction xs) auto

text \<open>Scanning \<open>0, 1, \<dots>\<close> for the first index with a property.\<close>

lemma scan_le: "length (takeWhile P [0..<n]) \<le> n"
  using length_takeWhile_le [of P "[0..<n]"] by simp

lemma scan_before: "i < length (takeWhile P [0..<n]) \<Longrightarrow> P i"
proof -
  assume i: "i < length (takeWhile P [0..<n])"
  then have "takeWhile P [0..<n] ! i \<in> set (takeWhile P [0..<n])" by (rule nth_mem)
  then have "P (takeWhile P [0..<n] ! i)" by (blast dest: set_takeWhileD)
  moreover have "takeWhile P [0..<n] ! i = i"
    using i scan_le [of P n] by (simp add: takeWhile_nth)
  ultimately show ?thesis by simp
qed

lemma scan_stop: "length (takeWhile P [0..<n]) < n \<Longrightarrow> \<not> P (length (takeWhile P [0..<n]))"
  using nth_length_takeWhile [of P "[0..<n]"] by simp

lemma scan_found: "j < n \<Longrightarrow> \<not> P j \<Longrightarrow> length (takeWhile P [0..<n]) \<le> j"
  by (metis linorder_not_le scan_before)

section \<open>Arithmetic of word and bit positions\<close>

lemma div_mod_64: "(64 * i + j) div 64 = i \<and> (64 * i + j) mod 64 = (j::nat)" if "j < 64"
  using that by simp

lemma pos_split: obtains i j :: nat where "x = 64 * i + j" "j < 64"
  by (metis mod_less_divisor mult_div_mod_eq zero_less_numeral)

lemma word64_eqI: "(\<And>n. n < 64 \<Longrightarrow> bit a n = bit b n) \<Longrightarrow> a = b" for a b :: "64 word"
  by (rule bit_word_eqI) simp

lemma word64_zero_iff: "w = 0 \<longleftrightarrow> (\<forall>n<64. \<not> bit w n)" for w :: "64 word"
  by (auto intro: word64_eqI)

lemma word64_bit_bound: "bit w n \<Longrightarrow> n < 64" for w :: "64 word"
  using bit_imp_le_length [of w n] by simp

lemma word64_nonzero_bit: "w \<noteq> 0 \<Longrightarrow> \<exists>n<64. bit w n" for w :: "64 word"
  by (auto simp: word64_zero_iff)

section \<open>C integers\<close>

text \<open>The value of a C \<^verbatim>\<open>int\<close> expression: two's complement with 32 bits, wrapping around as under \<^verbatim>\<open>-fwrapv\<close>.\<close>

definition c_int :: "int \<Rightarrow> int" where
  "c_int x = signed_take_bit 31 x"

lemma c_int_id: "- (2 ^ 31) \<le> x \<Longrightarrow> x < 2 ^ 31 \<Longrightarrow> c_int x = x"
  by (simp add: c_int_def signed_take_bit_int_eq_self)

section \<open>Three-way comparisons\<close>

definition compare_nat :: "nat \<Rightarrow> nat \<Rightarrow> int" where
  "compare_nat m n = (if m = n then 0 else if m > n then 1 else - 1)"

lemma compare_nat_high:
  assumes "m < B" "n < B"
  shows "compare_nat (m + B * u) (n + B * v) = (if u = v then compare_nat m n else compare_nat u v)"
proof -
  have "m + B * u < n + B * v" if "u < v" "m < B" for m n u v
  proof -
    have "B * Suc u \<le> B * v" using that by (intro mult_le_mono2) simp
    then show ?thesis using that by simp
  qed
  from this [of u v m n] this [of v u n m] show ?thesis using assms
    by (cases u v rule: linorder_cases) (simp_all add: compare_nat_def)
qed

lemma compare_nat_simps [simp]:
  "compare_nat m n \<le> 0 \<longleftrightarrow> m \<le> n"
  "compare_nat m n = 0 \<longleftrightarrow> m = n"
  by (simp_all add: compare_nat_def)

lemma compare_nat_swap: "compare_nat n m = - compare_nat m n"
  by (simp add: compare_nat_def)

lemma compare_nat_range: "compare_nat m n \<in> {- 1, 0, 1}"
  by (simp add: compare_nat_def)

text \<open>
  The contract of a C comparison function: three values, antisymmetric and transitive on the values
  it is used for. Ties between different values are allowed.
\<close>

locale comparator =
  fixes ok :: "'a \<Rightarrow> bool"
    and cmp :: "'a \<Rightarrow> 'a \<Rightarrow> int"
  assumes cmp_range: "ok x \<Longrightarrow> ok y \<Longrightarrow> cmp x y \<in> {- 1, 0, 1}"
    and cmp_swap: "ok x \<Longrightarrow> ok y \<Longrightarrow> cmp y x = - cmp x y"
    and cmp_trans: "ok x \<Longrightarrow> ok y \<Longrightarrow> ok z \<Longrightarrow> cmp x y \<le> 0 \<Longrightarrow> cmp y z \<le> 0 \<Longrightarrow> cmp x z \<le> 0"
begin

lemma cmp_refl: "ok x \<Longrightarrow> cmp x x = 0"
  using cmp_swap [of x x] by simp

lemma cmp_total: "ok x \<Longrightarrow> ok y \<Longrightarrow> cmp x y \<le> 0 \<or> cmp y x \<le> 0"
  using cmp_swap [of x y] by linarith

lemma cmp_less_le_trans:
  assumes "ok x" "ok y" "ok z" "cmp x y < 0" "cmp y z \<le> 0"
  shows "cmp x z < 0"
proof (rule ccontr)
  assume "\<not> cmp x z < 0"
  then have "cmp z x \<le> 0" using cmp_swap [of x z] assms by simp
  then have "cmp y x \<le> 0" using cmp_trans [of y z x] assms by simp
  then show False using cmp_swap [of x y] assms by simp
qed

lemma cmp_le_less_trans:
  assumes "ok x" "ok y" "ok z" "cmp x y \<le> 0" "cmp y z < 0"
  shows "cmp x z < 0"
proof (rule ccontr)
  assume "\<not> cmp x z < 0"
  then have "cmp z x \<le> 0" using cmp_swap [of x z] assms by simp
  then have "cmp z y \<le> 0" using cmp_trans [of z x y] assms by simp
  then show False using cmp_swap [of y z] assms by simp
qed

end

text \<open>
  The planner's search loop for the best candidate: an eligible element replaces the best one found
  so far only when that one compares strictly worse.
\<close>

fun best_loop :: "('a \<Rightarrow> 'a \<Rightarrow> int) \<Rightarrow> ('a \<Rightarrow> bool) \<Rightarrow> 'a option \<Rightarrow> 'a list \<Rightarrow> 'a option" where
  "best_loop cmp elig best [] = best"
| "best_loop cmp elig best (x # xs) =
     best_loop cmp elig
       (if elig x \<and> (case best of None \<Rightarrow> True | Some b \<Rightarrow> 0 < cmp b x) then Some x else best) xs"

definition is_first_best :: "('a \<Rightarrow> 'a \<Rightarrow> int) \<Rightarrow> 'a list \<Rightarrow> 'a option \<Rightarrow> bool" where
  "is_first_best cmp xs r =
     (case r of
        None \<Rightarrow> xs = []
      | Some b \<Rightarrow> \<exists>us vs. xs = us @ b # vs \<and> (\<forall>u\<in>set us. 0 < cmp u b) \<and> (\<forall>v\<in>set vs. cmp b v \<le> 0))"

context comparator
begin

lemma best_loop_first:
  "\<forall>x\<in>set (us @ xs). ok x \<Longrightarrow> is_first_best cmp (filter elig us) best \<Longrightarrow>
     is_first_best cmp (filter elig (us @ xs)) (best_loop cmp elig best xs)"
proof (induction xs arbitrary: us best)
  case (Cons x xs)
  let ?best = "if elig x \<and> (case best of None \<Rightarrow> True | Some b \<Rightarrow> 0 < cmp b x) then Some x else best"
  have "is_first_best cmp (filter elig (us @ [x])) ?best"
  proof (cases "elig x")
    case True
    show ?thesis
    proof (cases best)
      case None
      with Cons.prems(2) True show ?thesis
        by (simp add: is_first_best_def) (rule exI [of _ "[]"], simp)
    next
      case (Some b)
      with Cons.prems(2) obtain vs ws where s: "filter elig us = vs @ b # ws"
        and b: "\<forall>u\<in>set vs. 0 < cmp u b" "\<forall>v\<in>set ws. cmp b v \<le> 0"
        by (auto simp: is_first_best_def)
      have "set (filter elig us) \<subseteq> {x. ok x}" using Cons.prems(1) by auto
      then have oks: "ok b" "\<forall>v\<in>set vs. ok v" "\<forall>v\<in>set ws. ok v" "ok x"
        using Cons.prems(1) unfolding s by auto
      show ?thesis
      proof (cases "0 < cmp b x")
        case True
        then have x: "cmp x b < 0" using cmp_swap [OF oks(1,4)] by simp
        have better: "0 < cmp v x" if "ok v" "cmp b v \<le> 0" for v
          using cmp_less_le_trans [OF oks(4,1) that(1) x that(2)] cmp_swap [OF that(1) oks(4)] by simp
        have "cmp b v \<le> 0" if "v \<in> set vs" for v
          using bspec [OF b(1) that] bspec [OF oks(2) that] oks(1) cmp_swap [of v b] by linarith
        then have "\<forall>v\<in>set (vs @ b # ws). 0 < cmp v x"
          using better b(2) oks(1,2,3) True by auto
        then show ?thesis using True \<open>elig x\<close> Some s
          by (simp add: is_first_best_def) (intro exI [of _ "vs @ b # ws"] exI [of _ "[]"], simp)
      next
        case False
        then show ?thesis using Some s b \<open>elig x\<close>
          by (simp add: is_first_best_def) (intro exI [of _ vs] exI [of _ "ws @ [x]"], simp)
      qed
    qed
  next
    case False
    with Cons.prems(2) show ?thesis by simp
  qed
  then show ?case using Cons.IH [of "us @ [x]" ?best] Cons.prems(1) by simp
qed simp

lemma best_loop_spec:
  assumes "\<forall>x\<in>set xs. ok x"
  shows "is_first_best cmp (filter elig xs) (best_loop cmp elig None xs)"
  using best_loop_first [of "[]" xs elig None] assms by (simp add: is_first_best_def)

lemma first_best_least:
  assumes "is_first_best cmp xs (Some b)" "\<forall>x\<in>set xs. ok x"
  shows "b \<in> set xs \<and> (\<forall>x\<in>set xs. cmp b x \<le> 0)"
proof -
  from assms(1) obtain us vs where xs: "xs = us @ b # vs"
    and b: "\<forall>u\<in>set us. 0 < cmp u b" "\<forall>v\<in>set vs. cmp b v \<le> 0"
    by (auto simp: is_first_best_def)
  have "cmp b u \<le> 0" if "u \<in> set us" for u
    using that b(1) cmp_swap [of u b] assms(2) by (force simp: xs)
  then show ?thesis using b(2) cmp_refl [of b] assms(2) by (auto simp: xs)
qed

end

end
