(* ===== verification/Bitutils.thy ===== *)
theory Bitutils
  imports Prelude
begin

text \<open>
  Bit scanning on 64-bit words: \<^verbatim>\<open>src/include/port/pg_bitutils.h\<close> and
  \<^verbatim>\<open>src/port/pg_bitutils.c\<close>. Each routine has a branch that calls a compiler builtin and a
  table-driven fallback. The builtins are modelled by their documented meaning (number of
  leading or trailing zero bits, number of one bits), the fallbacks by their loops over bytes;
  the theory proves that both branches agree, and that they meet the interface \<open>bit_scan\<close> that
  the bitmap sets rely on.
\<close>

type_synonym uint64 = "64 word"

section \<open>The compiler builtins\<close>

definition builtin_ctzl :: "uint64 \<Rightarrow> nat" where
  "builtin_ctzl w = length (takeWhile (\<lambda>i. \<not> bit w i) [0..<64])"

definition builtin_clzl :: "uint64 \<Rightarrow> nat" where
  "builtin_clzl w = length (takeWhile (\<lambda>i. \<not> bit w (63 - i)) [0..<64])"

definition builtin_popcountl :: "uint64 \<Rightarrow> nat" where
  "builtin_popcountl w = length (filter (bit w) [0..<64])"

section \<open>The byte tables\<close>

definition pg_leftmost_one_pos :: "nat list" where
  "pg_leftmost_one_pos = [
     0, 0, 1, 1, 2, 2, 2, 2, 3, 3, 3, 3, 3, 3, 3, 3, 4, 4, 4, 4, 4, 4, 4, 4, 4, 4, 4, 4, 4, 4, 4, 4,
     5, 5, 5, 5, 5, 5, 5, 5, 5, 5, 5, 5, 5, 5, 5, 5, 5, 5, 5, 5, 5, 5, 5, 5, 5, 5, 5, 5, 5, 5, 5, 5,
     6, 6, 6, 6, 6, 6, 6, 6, 6, 6, 6, 6, 6, 6, 6, 6, 6, 6, 6, 6, 6, 6, 6, 6, 6, 6, 6, 6, 6, 6, 6, 6,
     6, 6, 6, 6, 6, 6, 6, 6, 6, 6, 6, 6, 6, 6, 6, 6, 6, 6, 6, 6, 6, 6, 6, 6, 6, 6, 6, 6, 6, 6, 6, 6,
     7, 7, 7, 7, 7, 7, 7, 7, 7, 7, 7, 7, 7, 7, 7, 7, 7, 7, 7, 7, 7, 7, 7, 7, 7, 7, 7, 7, 7, 7, 7, 7,
     7, 7, 7, 7, 7, 7, 7, 7, 7, 7, 7, 7, 7, 7, 7, 7, 7, 7, 7, 7, 7, 7, 7, 7, 7, 7, 7, 7, 7, 7, 7, 7,
     7, 7, 7, 7, 7, 7, 7, 7, 7, 7, 7, 7, 7, 7, 7, 7, 7, 7, 7, 7, 7, 7, 7, 7, 7, 7, 7, 7, 7, 7, 7, 7,
     7, 7, 7, 7, 7, 7, 7, 7, 7, 7, 7, 7, 7, 7, 7, 7, 7, 7, 7, 7, 7, 7, 7, 7, 7, 7, 7, 7, 7, 7, 7, 7]"

definition pg_rightmost_one_pos :: "nat list" where
  "pg_rightmost_one_pos = [
     0, 0, 1, 0, 2, 0, 1, 0, 3, 0, 1, 0, 2, 0, 1, 0, 4, 0, 1, 0, 2, 0, 1, 0, 3, 0, 1, 0, 2, 0, 1, 0,
     5, 0, 1, 0, 2, 0, 1, 0, 3, 0, 1, 0, 2, 0, 1, 0, 4, 0, 1, 0, 2, 0, 1, 0, 3, 0, 1, 0, 2, 0, 1, 0,
     6, 0, 1, 0, 2, 0, 1, 0, 3, 0, 1, 0, 2, 0, 1, 0, 4, 0, 1, 0, 2, 0, 1, 0, 3, 0, 1, 0, 2, 0, 1, 0,
     5, 0, 1, 0, 2, 0, 1, 0, 3, 0, 1, 0, 2, 0, 1, 0, 4, 0, 1, 0, 2, 0, 1, 0, 3, 0, 1, 0, 2, 0, 1, 0,
     7, 0, 1, 0, 2, 0, 1, 0, 3, 0, 1, 0, 2, 0, 1, 0, 4, 0, 1, 0, 2, 0, 1, 0, 3, 0, 1, 0, 2, 0, 1, 0,
     5, 0, 1, 0, 2, 0, 1, 0, 3, 0, 1, 0, 2, 0, 1, 0, 4, 0, 1, 0, 2, 0, 1, 0, 3, 0, 1, 0, 2, 0, 1, 0,
     6, 0, 1, 0, 2, 0, 1, 0, 3, 0, 1, 0, 2, 0, 1, 0, 4, 0, 1, 0, 2, 0, 1, 0, 3, 0, 1, 0, 2, 0, 1, 0,
     5, 0, 1, 0, 2, 0, 1, 0, 3, 0, 1, 0, 2, 0, 1, 0, 4, 0, 1, 0, 2, 0, 1, 0, 3, 0, 1, 0, 2, 0, 1, 0]"

definition pg_number_of_ones :: "nat list" where
  "pg_number_of_ones = [
     0, 1, 1, 2, 1, 2, 2, 3, 1, 2, 2, 3, 2, 3, 3, 4, 1, 2, 2, 3, 2, 3, 3, 4, 2, 3, 3, 4, 3, 4, 4, 5,
     1, 2, 2, 3, 2, 3, 3, 4, 2, 3, 3, 4, 3, 4, 4, 5, 2, 3, 3, 4, 3, 4, 4, 5, 3, 4, 4, 5, 4, 5, 5, 6,
     1, 2, 2, 3, 2, 3, 3, 4, 2, 3, 3, 4, 3, 4, 4, 5, 2, 3, 3, 4, 3, 4, 4, 5, 3, 4, 4, 5, 4, 5, 5, 6,
     2, 3, 3, 4, 3, 4, 4, 5, 3, 4, 4, 5, 4, 5, 5, 6, 3, 4, 4, 5, 4, 5, 5, 6, 4, 5, 5, 6, 5, 6, 6, 7,
     1, 2, 2, 3, 2, 3, 3, 4, 2, 3, 3, 4, 3, 4, 4, 5, 2, 3, 3, 4, 3, 4, 4, 5, 3, 4, 4, 5, 4, 5, 5, 6,
     2, 3, 3, 4, 3, 4, 4, 5, 3, 4, 4, 5, 4, 5, 5, 6, 3, 4, 4, 5, 4, 5, 5, 6, 4, 5, 5, 6, 5, 6, 6, 7,
     2, 3, 3, 4, 3, 4, 4, 5, 3, 4, 4, 5, 4, 5, 5, 6, 3, 4, 4, 5, 4, 5, 5, 6, 4, 5, 5, 6, 5, 6, 6, 7,
     3, 4, 4, 5, 4, 5, 5, 6, 4, 5, 5, 6, 5, 6, 6, 7, 4, 5, 5, 6, 5, 6, 6, 7, 5, 6, 6, 7, 6, 7, 7, 8]"

section \<open>The routines\<close>

text \<open>Branch with the builtin; \<open>word\<close> must not be 0 (an \<^verbatim>\<open>Assert\<close> in the code).\<close>

definition pg_leftmost_one_pos64 :: "uint64 \<Rightarrow> nat" where
  "pg_leftmost_one_pos64 word = 63 - builtin_clzl word"

definition pg_rightmost_one_pos64 :: "uint64 \<Rightarrow> nat" where
  "pg_rightmost_one_pos64 word = builtin_ctzl word"

definition pg_popcount64 :: "uint64 \<Rightarrow> nat" where
  "pg_popcount64 word = builtin_popcountl word"

text \<open>
  The fallback branches. The scanning loops do not stop on 0, so they are partial: \<open>None\<close> is a
  loop that does not return.
\<close>

partial_function (option) leftmost_loop :: "uint64 \<Rightarrow> nat \<Rightarrow> nat option" where
  "leftmost_loop word shift =
     (if drop_bit shift word = 0 then leftmost_loop word (shift - 8) else Some shift)"

definition pg_leftmost_one_pos64_fallback :: "uint64 \<Rightarrow> nat option" where
  "pg_leftmost_one_pos64_fallback word =
     (case leftmost_loop word (64 - 8) of
        None \<Rightarrow> None
      | Some shift \<Rightarrow>
          Some (shift + pg_leftmost_one_pos ! unat (drop_bit shift word AND 255)))"

partial_function (option) rightmost_loop :: "uint64 \<Rightarrow> nat \<Rightarrow> (uint64 \<times> nat) option" where
  "rightmost_loop word result =
     (if word AND 255 = 0 then rightmost_loop (drop_bit 8 word) (result + 8)
      else Some (word, result))"

definition pg_rightmost_one_pos64_fallback :: "uint64 \<Rightarrow> nat option" where
  "pg_rightmost_one_pos64_fallback word =
     (case rightmost_loop word 0 of
        None \<Rightarrow> None
      | Some (word', result) \<Rightarrow>
          Some (result + pg_rightmost_one_pos ! unat (word' AND 255)))"

function popcount_loop :: "uint64 \<Rightarrow> nat \<Rightarrow> nat" where
  "popcount_loop word result =
     (if word \<noteq> 0
      then popcount_loop (drop_bit 8 word) (result + pg_number_of_ones ! unat (word AND 255))
      else result)"
  by pat_completeness auto
termination
proof (relation "measure (\<lambda>(word, result). unat word)", goal_cases)
  case 1
  show ?case by simp
next
  case (2 word result)
  then have "0 < unat word" by (simp add: unat_gt_0)
  then have "drop_bit 8 (unat word) < unat word" by (simp add: drop_bit_eq_div)
  then show ?case by (simp only: unat_drop_bit_eq in_measure split_conv)
qed

declare popcount_loop.simps [simp del]

definition pg_popcount64_slow :: "uint64 \<Rightarrow> nat" where
  "pg_popcount64_slow word = popcount_loop word 0"

section \<open>The interface the bitmap sets rely on\<close>

locale bit_scan =
  fixes rightmost leftmost popcount :: "uint64 \<Rightarrow> nat"
  assumes rightmost_bit: "w \<noteq> 0 \<Longrightarrow> bit w (rightmost w)"
    and rightmost_least: "bit w i \<Longrightarrow> rightmost w \<le> i"
    and leftmost_bit: "w \<noteq> 0 \<Longrightarrow> bit w (leftmost w)"
    and leftmost_greatest: "bit w i \<Longrightarrow> i \<le> leftmost w"
    and popcount_card: "popcount w = card {i. bit w i}"
begin

lemma rightmost_less: "w \<noteq> 0 \<Longrightarrow> rightmost w < 64"
  using rightmost_bit word64_bit_bound by blast

lemma leftmost_less: "w \<noteq> 0 \<Longrightarrow> leftmost w < 64"
  using leftmost_bit word64_bit_bound by blast

lemma rightmost_eqI: "bit w n \<Longrightarrow> (\<And>i. i < n \<Longrightarrow> \<not> bit w i) \<Longrightarrow> rightmost w = n"
  by (metis antisym_conv2 bit_0_eq bot_apply bot_bool_def rightmost_bit rightmost_least)

lemma leftmost_eqI: "bit w n \<Longrightarrow> (\<And>i. n < i \<Longrightarrow> \<not> bit w i) \<Longrightarrow> leftmost w = n"
  by (metis antisym_conv2 bit_0_eq bot_apply bot_bool_def leftmost_bit leftmost_greatest)

lemma finite_bits: "finite {i. bit w i}" for w :: uint64
  by (rule finite_subset [of _ "{..<64}"]) (auto dest: word64_bit_bound)

lemma popcount_zero_iff: "popcount w = 0 \<longleftrightarrow> w = 0"
  by (auto simp: popcount_card finite_bits dest: word64_nonzero_bit)

lemma popcount_le: "popcount w \<le> 64"
proof -
  have "card {i. bit w i} \<le> card {..<64::nat}"
    by (rule card_mono) (auto dest: word64_bit_bound)
  then show ?thesis by (simp add: popcount_card)
qed

end

section \<open>The builtins meet it\<close>

lemma builtin_ctzl_bit: "w \<noteq> 0 \<Longrightarrow> bit w (builtin_ctzl w)"
  unfolding builtin_ctzl_def
  using word64_nonzero_bit [of w] scan_found [of _ 64 "\<lambda>i. \<not> bit w i"]
    scan_stop [of "\<lambda>i. \<not> bit w i" 64] by (meson order_le_less_trans)

lemma builtin_ctzl_least: "bit w i \<Longrightarrow> builtin_ctzl w \<le> i"
  unfolding builtin_ctzl_def by (rule scan_found) (auto dest: word64_bit_bound)

lemma builtin_clzl_less: "w \<noteq> 0 \<Longrightarrow> builtin_clzl w < 64"
proof -
  assume "w \<noteq> 0"
  then obtain n where n: "n < 64" "bit w n" using word64_nonzero_bit by blast
  then have "63 - (63 - n) = n" by simp
  with n have "builtin_clzl w \<le> 63 - n"
    unfolding builtin_clzl_def by (intro scan_found) auto
  then show ?thesis by simp
qed

lemma builtin_clzl_bit: "w \<noteq> 0 \<Longrightarrow> bit w (63 - builtin_clzl w)"
  using builtin_clzl_less [of w] scan_stop [of "\<lambda>i. \<not> bit w (63 - i)" 64]
  by (simp add: builtin_clzl_def)

lemma builtin_clzl_greatest: "bit w i \<Longrightarrow> i \<le> 63 - builtin_clzl w"
proof -
  assume b: "bit w i"
  then have "i < 64" by (rule word64_bit_bound)
  then have "63 - (63 - i) = i" by simp
  with b have "builtin_clzl w \<le> 63 - i"
    unfolding builtin_clzl_def by (intro scan_found) auto
  with \<open>i < 64\<close> show ?thesis by simp
qed

lemma builtin_popcountl_card: "builtin_popcountl w = card {i. bit w i}"
proof -
  have "{i. bit w i} = set (filter (bit w) [0..<64])"
    by (auto dest: word64_bit_bound)
  also have "card \<dots> = length (filter (bit w) [0..<64])"
    by (rule distinct_card) simp
  finally show ?thesis by (simp add: builtin_popcountl_def)
qed

interpretation bscan: bit_scan pg_rightmost_one_pos64 pg_leftmost_one_pos64 pg_popcount64
  by unfold_locales
    (simp_all add: pg_rightmost_one_pos64_def pg_leftmost_one_pos64_def pg_popcount64_def
      builtin_ctzl_bit builtin_ctzl_least builtin_clzl_bit builtin_clzl_greatest
      builtin_popcountl_card)

section \<open>The fallbacks agree with the builtins\<close>

text \<open>
  The byte tables of \<^verbatim>\<open>pg_bitutils.c\<close> are the eighth member of three families that double in
  length, which gives the meaning of every entry by induction.
\<close>

lemma bit_less_exp: "bit (c::nat) i \<Longrightarrow> c < 2 ^ n \<Longrightarrow> i < n"
  by (metis bit_take_bit_iff take_bit_nat_eq_self_iff)

lemma bit_exp_add: "c < 2 ^ n \<Longrightarrow> bit (2 ^ n + c :: nat) i \<longleftrightarrow> i = n \<or> bit c i"
proof -
  assume c: "c < 2 ^ n"
  have "2 ^ n AND c = 0"
    by (rule bit_eqI) (use bit_less_exp [OF _ c] in \<open>auto simp: bit_and_iff bit_exp_iff\<close>)
  then have "2 ^ n + c = 2 ^ n OR c" by (rule disjunctive_add_eq_or)
  then show ?thesis by (auto simp: bit_or_iff bit_exp_iff)
qed

fun ones_table :: "nat \<Rightarrow> nat list" where
  "ones_table 0 = [0]"
| "ones_table (Suc n) = ones_table n @ map Suc (ones_table n)"

fun leftmost_table :: "nat \<Rightarrow> nat list" where
  "leftmost_table 0 = [0]"
| "leftmost_table (Suc n) = leftmost_table n @ replicate (2 ^ n) n"

fun rightmost_table :: "nat \<Rightarrow> nat list" where
  "rightmost_table 0 = [0]"
| "rightmost_table (Suc n) = rightmost_table n @ n # tl (rightmost_table n)"

lemma byte_tables:
  "pg_number_of_ones = ones_table 8" 
  "pg_leftmost_one_pos = leftmost_table 8"
  "pg_rightmost_one_pos = rightmost_table 8"
  by (simp_all add: pg_number_of_ones_def pg_leftmost_one_pos_def pg_rightmost_one_pos_def eval_nat_numeral)

lemma table_lengths:
  "length (ones_table n) = 2 ^ n"
  "length (leftmost_table n) = 2 ^ n"
  "length (rightmost_table n) = 2 ^ n"
  by (induction n) auto

lemma ones_table_nth: "b < 2 ^ n \<Longrightarrow> ones_table n ! b = card {i. bit b i}"
proof (induction n arbitrary: b)
  case 0
  then show ?case by simp
next
  case (Suc n)
  show ?case
  proof (cases "b < 2 ^ n")
    case True
    with Suc.IH show ?thesis by (simp add: nth_append table_lengths)
  next
    case False
    then obtain c where b: "b = 2 ^ n + c" using le_Suc_ex not_less by blast
    with Suc.prems have c: "c < 2 ^ n" by simp
    have "{i. bit b i} = insert n {i. bit c i}" "n \<notin> {i. bit c i}"
      using bit_exp_add [OF c] bit_less_exp [OF _ c] by (auto simp: b)
    moreover have "finite {i. bit c i}"
      by (rule finite_subset [of _ "{..<n}"]) (use bit_less_exp [OF _ c] in auto)
    ultimately have "card {i. bit b i} = Suc (card {i. bit c i})" by simp
    with Suc.IH [OF c] c show ?thesis by (simp add: b nth_append table_lengths)
  qed
qed

lemma leftmost_table_nth:
  "0 < b \<Longrightarrow> b < 2 ^ n \<Longrightarrow>
     bit b (leftmost_table n ! b) \<and> (\<forall>i. bit b i \<longrightarrow> i \<le> leftmost_table n ! b)"
proof (induction n arbitrary: b)
  case 0
  then show ?case by simp
next
  case (Suc n)
  show ?case
  proof (cases "b < 2 ^ n")
    case True
    with Suc show ?thesis by (simp add: nth_append table_lengths)
  next
    case False
    then obtain c where b: "b = 2 ^ n + c" using le_Suc_ex not_less by blast
    with Suc.prems have c: "c < 2 ^ n" by simp
    then have "leftmost_table (Suc n) ! b = n" by (simp add: b nth_append table_lengths)
    then show ?thesis
      using bit_exp_add [OF c] bit_less_exp [OF _ c] by (auto simp: b intro: less_imp_le)
  qed
qed

lemma rightmost_table_nth:
  "0 < b \<Longrightarrow> b < 2 ^ n \<Longrightarrow>
     bit b (rightmost_table n ! b) \<and> (\<forall>i. bit b i \<longrightarrow> rightmost_table n ! b \<le> i)"
proof (induction n arbitrary: b)
  case 0
  then show ?case by simp
next
  case (Suc n)
  show ?case
  proof (cases "b < 2 ^ n")
    case True
    with Suc show ?thesis by (simp add: nth_append table_lengths)
  next
    case False
    then obtain c where b: "b = 2 ^ n + c" using le_Suc_ex not_less by blast
    with Suc.prems have c: "c < 2 ^ n" by simp
    show ?thesis
    proof (cases "c = 0")
      case True
      then have "rightmost_table (Suc n) ! b = n" by (simp add: b nth_append table_lengths)
      then show ?thesis using bit_exp_add [OF c] True by (auto simp: b)
    next
      case False
      then have "rightmost_table (Suc n) ! b = rightmost_table n ! c"
        using c by (simp add: b nth_append table_lengths nth_Cons' nth_tl)
      moreover have "rightmost_table n ! c \<le> n"
        using Suc.IH [of c] False c bit_less_exp [OF _ c] by (meson less_imp_le neq0_conv)
      ultimately show ?thesis
        using Suc.IH [of c] False c bit_exp_add [OF c] by (auto simp: b)
    qed
  qed
qed

lemma bit_low_byte: "bit (unat (w AND 255)) i \<longleftrightarrow> i < 8 \<and> bit w i" for w :: uint64
proof -
  have "(255::uint64) = mask 8" by (simp add: mask_eq_exp_minus_1)
  then show ?thesis by (simp only: bit_unsigned_iff bit_and_iff bit_mask_iff)
      (auto dest: word64_bit_bound)
qed

lemma low_byte_less: "unat (w AND 255) < 2 ^ 8" for w :: uint64
proof -
  have "unat (w AND 255) \<le> unat (255 :: uint64)"
    by (rule word_and_le1 [THEN word_le_nat_alt [THEN iffD1]])
  then show ?thesis by simp
qed

lemma low_byte_pos: "w AND 255 \<noteq> 0 \<Longrightarrow> 0 < unat (w AND 255)" for w :: uint64
  by (simp add: unat_gt_0)

lemma low_byte_zero: "w AND 255 = 0 \<longleftrightarrow> (\<forall>i<8. \<not> bit w i)" for w :: uint64
proof -
  have "w AND 255 = 0 \<longleftrightarrow> unat (w AND 255) = 0" by (simp add: unat_eq_0)
  also have "\<dots> \<longleftrightarrow> (\<forall>i. \<not> bit (unat (w AND 255)) i)"
    by (auto intro: bit_eqI)
  finally show ?thesis by (auto simp: bit_low_byte)
qed

lemma rightmost_loop_spec:
  "w \<noteq> 0 \<Longrightarrow> \<exists>k. rightmost_loop w r = Some (drop_bit (8 * k) w, r + 8 * k) \<and>
     drop_bit (8 * k) w AND 255 \<noteq> 0 \<and> (\<forall>i<8 * k. \<not> bit w i)"
proof (induction "unat w" arbitrary: w r rule: less_induct)
  case less
  show ?case
  proof (cases "w AND 255 = 0")
    case False
    then show ?thesis by (intro exI [of _ 0]) (simp add: rightmost_loop.simps [of w r])
  next
    case True
    let ?v = "drop_bit 8 w"
    obtain n where n: "bit w n" "\<not> n < 8"
      using less.prems True word64_nonzero_bit low_byte_zero by blast
    then have "bit ?v (n - 8)" by (simp add: bit_drop_bit_eq)
    then have v: "?v \<noteq> 0" by auto
    have "0 < unat w" using less.prems by (simp add: unat_gt_0)
    then have "drop_bit 8 (unat w) < unat w" by (simp add: drop_bit_eq_div)
    then have "unat ?v < unat w" by (simp only: unat_drop_bit_eq)
    then obtain k where k: "rightmost_loop ?v (r + 8) = Some (drop_bit (8 * k) ?v, r + 8 + 8 * k)"
      "drop_bit (8 * k) ?v AND 255 \<noteq> 0" "\<forall>i<8 * k. \<not> bit ?v i"
      using less.hyps [of ?v "r + 8"] v by blast
    have "\<not> bit w i" if "i < 8 * Suc k" for i
      using that k(3) [rule_format, of "i - 8"] True low_byte_zero [of w]
      by (cases "i < 8") (auto simp: bit_drop_bit_eq)
    with k True show ?thesis
      by (intro exI [of _ "Suc k"]) (simp add: rightmost_loop.simps [of w r] algebra_simps)
  qed
qed


lemma rightmost_fallback_eq:
  assumes "w \<noteq> 0"
  shows "pg_rightmost_one_pos64_fallback w = Some (pg_rightmost_one_pos64 w)"
proof -
  obtain k where k: "rightmost_loop w 0 = Some (drop_bit (8 * k) w, 8 * k)"
    "drop_bit (8 * k) w AND 255 \<noteq> 0" "\<forall>i<8 * k. \<not> bit w i"
    using rightmost_loop_spec [OF assms, of 0] by auto
  let ?b = "unat (drop_bit (8 * k) w AND 255)" and ?t = "rightmost_table 8"
  have t: "bit ?b (?t ! ?b)" "\<And>i. bit ?b i \<Longrightarrow> ?t ! ?b \<le> i"
    using rightmost_table_nth [OF low_byte_pos [OF k(2)] low_byte_less] by auto
  have "bit w (8 * k + ?t ! ?b)"
    using t(1) by (simp add: bit_low_byte bit_drop_bit_eq)
  moreover have "\<not> bit w i" if i: "i < 8 * k + ?t ! ?b" for i
  proof (cases "i < 8 * k")
    case True
    with k(3) show ?thesis by blast
  next
    case False
    with i t(1) have "\<not> bit ?b (i - 8 * k)" "i - 8 * k < 8"
      using t(2) [of "i - 8 * k"] by (auto simp: bit_low_byte)
    with False show ?thesis by (simp add: bit_low_byte bit_drop_bit_eq)
  qed
  ultimately have "pg_rightmost_one_pos64 w = 8 * k + ?t ! ?b"
    by (rule bscan.rightmost_eqI)
  with k(1) show ?thesis by (simp add: pg_rightmost_one_pos64_fallback_def byte_tables)
qed

text \<open>The left-to-right scan stops at the highest nonzero byte.\<close>

lemma leftmost_loop_spec:
  "w \<noteq> 0 \<Longrightarrow> (\<forall>i\<ge>8 * Suc n. \<not> bit w i) \<Longrightarrow>
     \<exists>k. leftmost_loop w (8 * n) = Some (8 * k) \<and> drop_bit (8 * k) w \<noteq> 0 \<and>
       (\<forall>i\<ge>8 * Suc k. \<not> bit w i)"
proof (induction n)
  case 0
  then show ?case by (intro exI [of _ 0]) (simp add: leftmost_loop.simps [of w 0])
next
  case (Suc n)
  show ?case
  proof (cases "drop_bit (8 * Suc n) w = 0")
    case False
    with Suc.prems show ?thesis
      by (intro exI [of _ "Suc n"])
        (simp only: leftmost_loop.simps [of w "8 * Suc n"] if_False simp_thms)
  next
    case True
    have "\<not> bit w i" if "8 * Suc n \<le> i" for i
    proof -
      have "bit (drop_bit (8 * Suc n) w) (i - 8 * Suc n) = bit w i"
        using that by (simp only: bit_drop_bit_eq) simp
      with True show ?thesis by simp
    qed
    moreover have "leftmost_loop w (8 * Suc n) = leftmost_loop w (8 * n)"
      using True by (subst leftmost_loop.simps) simp
    ultimately show ?thesis using Suc by simp
  qed
qed

lemma leftmost_fallback_eq:
  assumes "w \<noteq> 0"
  shows "pg_leftmost_one_pos64_fallback w = Some (pg_leftmost_one_pos64 w)"
proof -
  obtain k where k: "leftmost_loop w 56 = Some (8 * k)" "drop_bit (8 * k) w \<noteq> 0"
    "\<forall>i\<ge>8 * Suc k. \<not> bit w i"
    using leftmost_loop_spec [OF assms, of 7] word64_bit_bound [of w] by fastforce
  let ?b = "unat (drop_bit (8 * k) w AND 255)" and ?t = "leftmost_table 8"
  obtain n where "bit (drop_bit (8 * k) w) n" using k(2) word64_nonzero_bit by blast
  then have "n < 8" "bit (drop_bit (8 * k) w) n"
    using k(3) [rule_format, of "8 * k + n"] by (auto simp: bit_drop_bit_eq not_less [symmetric])
  then have "drop_bit (8 * k) w AND 255 \<noteq> 0" using low_byte_zero by blast
  then have t: "bit ?b (?t ! ?b)" "\<And>i. bit ?b i \<Longrightarrow> i \<le> ?t ! ?b"
    using leftmost_table_nth [OF low_byte_pos low_byte_less] by auto
  have "bit w (8 * k + ?t ! ?b)"
    using t(1) by (simp add: bit_low_byte bit_drop_bit_eq)
  moreover have "\<not> bit w i" if i: "8 * k + ?t ! ?b < i" for i
  proof (cases "8 * Suc k \<le> i")
    case True
    with k(3) show ?thesis by blast
  next
    case False
    with i have "\<not> bit ?b (i - 8 * k)" "i - 8 * k < 8"
      using t(2) [of "i - 8 * k"] by auto
    with i show ?thesis by (simp add: bit_low_byte bit_drop_bit_eq)
  qed
  ultimately have "pg_leftmost_one_pos64 w = 8 * k + ?t ! ?b"
    by (rule bscan.leftmost_eqI)
  with k(1) show ?thesis by (simp add: pg_leftmost_one_pos64_fallback_def byte_tables)
qed

lemma popcount_byte_split:
  "pg_popcount64 w = card {i. bit (unat (w AND 255)) i} + pg_popcount64 (drop_bit 8 w)"
proof -
  have *: "{i. bit w i} = {i. bit (unat (w AND 255)) i} \<union> (+) 8 ` {i. bit (drop_bit 8 w) i}"
    by (auto simp: bit_low_byte bit_drop_bit_eq image_iff) (metis le_add_diff_inverse not_less)
  have "card {i. bit w i} = card {i. bit (unat (w AND 255)) i} +
      card ((+) 8 ` {i. bit (drop_bit 8 w) i})"
    unfolding * by (rule card_Un_disjoint)
      (auto simp: bscan.finite_bits bit_low_byte intro: finite_subset [of _ "{..<8}"])
  then show ?thesis by (simp add: bscan.popcount_card card_image)
qed

lemma popcount_loop_eq: "popcount_loop w r = r + pg_popcount64 w"
proof (induction w r rule: popcount_loop.induct)
  case (1 w r)
  show ?case
  proof (cases "w = 0")
    case True
    then show ?thesis by (simp add: popcount_loop.simps [of 0] bscan.popcount_zero_iff)
  next
    case False
    with "1" show ?thesis
      using popcount_byte_split [of w] ones_table_nth [OF low_byte_less, of w]
      by (simp add: popcount_loop.simps [of w r] byte_tables)
  qed
qed

text \<open>
  On every nonzero word both branches of the bit-scanning routines return, and the
  table-driven loops compute what the compiler builtins compute.
\<close>

theorem bitutils_fallbacks_agree:
  assumes "w \<noteq> 0"
  shows "pg_rightmost_one_pos64_fallback w = Some (pg_rightmost_one_pos64 w) \<and>
    pg_leftmost_one_pos64_fallback w = Some (pg_leftmost_one_pos64 w) \<and>
    pg_popcount64_slow w = pg_popcount64 w"
  using assms
  by (simp add: rightmost_fallback_eq leftmost_fallback_eq pg_popcount64_slow_def popcount_loop_eq)

theorem bitutils_fallbacks_agree_witness:
  "(40 :: uint64) \<noteq> 0 \<and>
    pg_rightmost_one_pos64_fallback 40 = Some 3 \<and> pg_leftmost_one_pos64_fallback 40 = Some 5 \<and>
    pg_popcount64_slow 40 = 2"
proof -
  have "pg_rightmost_one_pos64 40 = 3" "pg_leftmost_one_pos64 40 = 5" "pg_popcount64 40 = 2"
    by code_simp+
  then show ?thesis using bitutils_fallbacks_agree [of 40] by simp
qed

end
