(* ===== verification/Bitmapset.thy ===== *)
theory Bitmapset
  imports Bitutils
begin

text \<open>
  Bitmap sets: \<^verbatim>\<open>src/backend/nodes/bitmapset.c\<close> with its header
  \<^verbatim>\<open>src/include/nodes/bitmapset.h\<close>, on the 64-bit layout. A pointer to a set is an
  option (\<^verbatim>\<open>NULL\<close> is \<open>None\<close>), the flexible array is a list of words and \<^verbatim>\<open>nwords\<close> its
  length. Storage management (\<^verbatim>\<open>palloc\<close>, \<^verbatim>\<open>repalloc\<close>, \<^verbatim>\<open>pfree\<close>) leaves no trace in
  the values, so the recycling operations return the set they leave behind. Member numbers are C
  \<^verbatim>\<open>int\<close>s, modelled as unbounded integers; the code rejects negative ones.
\<close>

section \<open>Data\<close>

type_synonym bitmapword = uint64

record Bitmapset =
  words :: "bitmapword list"

type_synonym Relids = "Bitmapset option"

datatype BMS_Comparison = BMS_EQUAL | BMS_SUBSET1 | BMS_SUBSET2 | BMS_DIFFERENT

datatype BMS_Membership = BMS_EMPTY_SET | BMS_SINGLETON | BMS_MULTIPLE

definition nwords :: "Bitmapset \<Rightarrow> nat" where
  "nwords a = length (words a)"

definition BITS_PER_BITMAPWORD :: nat where
  "BITS_PER_BITMAPWORD = 64"

definition WORDNUM :: "int \<Rightarrow> nat" where
  "WORDNUM x = nat x div BITS_PER_BITMAPWORD"

definition BITNUM :: "int \<Rightarrow> nat" where
  "BITNUM x = nat x mod BITS_PER_BITMAPWORD"

definition RIGHTMOST_ONE :: "bitmapword \<Rightarrow> bitmapword" where
  "RIGHTMOST_ONE x = x AND (- x)"

definition HAS_MULTIPLE_ONES :: "bitmapword \<Rightarrow> bool" where
  "HAS_MULTIPLE_ONES x \<longleftrightarrow> RIGHTMOST_ONE x \<noteq> x"

definition mk_bms :: "bitmapword list \<Rightarrow> Relids" where
  "mk_bms ws = Some \<lparr>words = ws\<rparr>"

definition negative_member :: pg_error where
  "negative_member = Elog ''negative bitmapset member not allowed''"

section \<open>Word loops\<close>

text \<open>The loops over the word arrays, one recursion step per word.\<close>

fun words_zero :: "bitmapword list \<Rightarrow> bool" where
  "words_zero [] = True"
| "words_zero (w # ws) = (if w \<noteq> 0 then False else words_zero ws)"

fun words_equal :: "bitmapword list \<Rightarrow> bitmapword list \<Rightarrow> bool" where
  "words_equal [] longer = words_zero longer"
| "words_equal (x # xs) [] = words_zero (x # xs)"
| "words_equal (x # xs) (y # ys) = (if x \<noteq> y then False else words_equal xs ys)"

fun words_compare_down :: "bitmapword list \<Rightarrow> bitmapword list \<Rightarrow> nat \<Rightarrow> int" where
  "words_compare_down as bs 0 = 0"
| "words_compare_down as bs (Suc i) =
     (let aw = as ! i; bw = bs ! i in
      if aw \<noteq> bw then (if aw > bw then 1 else - 1) else words_compare_down as bs i)"

fun words_or_into :: "bitmapword list \<Rightarrow> bitmapword list \<Rightarrow> bitmapword list" where
  "words_or_into res [] = res"
| "words_or_into [] (y # ys) = []"
| "words_or_into (x # xs) (y # ys) = (x OR y) # words_or_into xs ys"

fun words_and_into :: "bitmapword list \<Rightarrow> bitmapword list \<Rightarrow> bitmapword list" where
  "words_and_into [] other = []"
| "words_and_into (x # xs) [] = x # xs"
| "words_and_into (x # xs) (y # ys) = (x AND y) # words_and_into xs ys"

fun words_int_into :: "bitmapword list \<Rightarrow> bitmapword list \<Rightarrow> bitmapword list" where
  "words_int_into [] other = []"
| "words_int_into (x # xs) [] = 0 # words_int_into xs []"
| "words_int_into (x # xs) (y # ys) = (x AND y) # words_int_into xs ys"

fun words_andnot_into :: "bitmapword list \<Rightarrow> bitmapword list \<Rightarrow> bitmapword list" where
  "words_andnot_into res [] = res"
| "words_andnot_into [] (y # ys) = []"
| "words_andnot_into (x # xs) (y # ys) = (x AND NOT y) # words_andnot_into xs ys"

fun words_subset :: "bitmapword list \<Rightarrow> bitmapword list \<Rightarrow> bool" where
  "words_subset [] bs = True"
| "words_subset as [] = words_zero as"
| "words_subset (x # xs) (y # ys) = (if x AND NOT y \<noteq> 0 then False else words_subset xs ys)"

fun words_overlap :: "bitmapword list \<Rightarrow> bitmapword list \<Rightarrow> bool" where
  "words_overlap [] bs = False"
| "words_overlap as [] = False"
| "words_overlap (x # xs) (y # ys) = (if x AND y \<noteq> 0 then True else words_overlap xs ys)"

fun words_subset_compare ::
  "BMS_Comparison \<Rightarrow> bitmapword list \<Rightarrow> bitmapword list \<Rightarrow> BMS_Comparison" where
  "words_subset_compare result [] [] = result"
| "words_subset_compare result (x # xs) [] =
     (if x \<noteq> 0
      then (if result = BMS_SUBSET1 then BMS_DIFFERENT else words_subset_compare BMS_SUBSET2 xs [])
      else words_subset_compare result xs [])"
| "words_subset_compare result [] (y # ys) =
     (if y \<noteq> 0
      then (if result = BMS_SUBSET2 then BMS_DIFFERENT else words_subset_compare BMS_SUBSET1 [] ys)
      else words_subset_compare result [] ys)"
| "words_subset_compare result (x # xs) (y # ys) =
     (if x AND NOT y \<noteq> 0 \<and> result = BMS_SUBSET1 then BMS_DIFFERENT
      else let result' = (if x AND NOT y \<noteq> 0 then BMS_SUBSET2 else result) in
        if y AND NOT x \<noteq> 0
        then (if result' = BMS_SUBSET2 then BMS_DIFFERENT
              else words_subset_compare BMS_SUBSET1 xs ys)
        else words_subset_compare result' xs ys)"

fun words_popcount :: "bitmapword list \<Rightarrow> nat \<Rightarrow> nat" where
  "words_popcount [] result = result"
| "words_popcount (w # ws) result =
     words_popcount ws (if w \<noteq> 0 then result + pg_popcount64 w else result)"

text \<open>
  The scan for a sole member: \<open>None\<close> when a second member is found, otherwise the last value of
  \<^verbatim>\<open>result\<close>, which stays \<open>-1\<close> on an empty set.
\<close>

fun singleton_loop :: "bitmapword list \<Rightarrow> nat \<Rightarrow> int \<Rightarrow> int option" where
  "singleton_loop [] wordnum result = Some result"
| "singleton_loop (w # ws) wordnum result =
     (if w \<noteq> 0
      then (if result \<ge> 0 \<or> HAS_MULTIPLE_ONES w then None
            else singleton_loop ws (Suc wordnum)
                   (int (wordnum * BITS_PER_BITMAPWORD + pg_rightmost_one_pos64 w)))
      else singleton_loop ws (Suc wordnum) result)"

fun membership_loop :: "bitmapword list \<Rightarrow> BMS_Membership \<Rightarrow> BMS_Membership" where
  "membership_loop [] result = result"
| "membership_loop (w # ws) result =
     (if w \<noteq> 0
      then (if result \<noteq> BMS_EMPTY_SET \<or> HAS_MULTIPLE_ONES w then BMS_MULTIPLE
            else membership_loop ws BMS_SINGLETON)
      else membership_loop ws result)"

fun next_member_loop :: "bitmapword list \<Rightarrow> nat \<Rightarrow> bitmapword \<Rightarrow> int" where
  "next_member_loop [] wordnum msk = - 2"
| "next_member_loop (w # ws) wordnum msk =
     (let w' = w AND msk in
      if w' \<noteq> 0 then int (wordnum * BITS_PER_BITMAPWORD + pg_rightmost_one_pos64 w')
      else next_member_loop ws (Suc wordnum) (NOT 0))"

text \<open>The downward scan; \<open>n\<close> is one more than \<^verbatim>\<open>wordnum\<close>, so 0 ends the loop.\<close>

fun prev_member_loop :: "bitmapword list \<Rightarrow> nat \<Rightarrow> bitmapword \<Rightarrow> int" where
  "prev_member_loop ws 0 msk = - 2"
| "prev_member_loop ws (Suc wordnum) msk =
     (let w' = ws ! wordnum AND msk in
      if w' \<noteq> 0 then int (wordnum * BITS_PER_BITMAPWORD + pg_leftmost_one_pos64 w')
      else prev_member_loop ws wordnum (NOT 0))"

fun fill_loop :: "bitmapword list \<Rightarrow> nat \<Rightarrow> nat \<Rightarrow> bitmapword list" where
  "fill_loop ws wordnum 0 = ws"
| "fill_loop ws wordnum (Suc k) = fill_loop (ws[wordnum := NOT 0]) (Suc wordnum) k"

section \<open>Operations that leave their inputs untouched\<close>

definition bms_copy :: "Relids \<Rightarrow> Relids" where
  "bms_copy a = (case a of None \<Rightarrow> None | Some a' \<Rightarrow> Some \<lparr>words = words a'\<rparr>)"

definition bms_equal :: "Relids \<Rightarrow> Relids \<Rightarrow> bool" where
  "bms_equal a b =
     (case (a, b) of
        (None, None) \<Rightarrow> True
      | (None, Some _) \<Rightarrow> False
      | (Some _, None) \<Rightarrow> False
      | (Some a', Some b') \<Rightarrow>
          if nwords a' \<le> nwords b' then words_equal (words a') (words b')
          else words_equal (words b') (words a'))"

definition bms_compare :: "Relids \<Rightarrow> Relids \<Rightarrow> int" where
  "bms_compare a b =
     (case (a, b) of
        (None, None) \<Rightarrow> 0
      | (None, Some _) \<Rightarrow> - 1
      | (Some _, None) \<Rightarrow> 1
      | (Some a', Some b') \<Rightarrow>
          (let shortlen = min (nwords a') (nwords b') in
           if \<not> words_zero (drop shortlen (words a')) then 1
           else if \<not> words_zero (drop shortlen (words b')) then - 1
           else words_compare_down (words a') (words b') shortlen))"

definition bms_make_singleton :: "int \<Rightarrow> Relids res" where
  "bms_make_singleton x =
     (if x < 0 then Inl negative_member
      else Inr (mk_bms ((replicate (WORDNUM x + 1) 0)[WORDNUM x := push_bit (BITNUM x) 1])))"

definition bms_union :: "Relids \<Rightarrow> Relids \<Rightarrow> Relids" where
  "bms_union a b =
     (case (a, b) of
        (None, _) \<Rightarrow> bms_copy b
      | (Some _, None) \<Rightarrow> bms_copy a
      | (Some a', Some b') \<Rightarrow>
          if nwords a' \<le> nwords b' then mk_bms (words_or_into (words b') (words a'))
          else mk_bms (words_or_into (words a') (words b')))"

definition bms_is_empty_internal :: "Bitmapset \<Rightarrow> bool" where
  "bms_is_empty_internal a = words_zero (words a)"

text \<open>The shared tail of the operations that may empty a set: an empty result is \<^verbatim>\<open>NULL\<close>.\<close>

definition null_if_empty :: "bitmapword list \<Rightarrow> Relids" where
  "null_if_empty ws =
     (if bms_is_empty_internal \<lparr>words = ws\<rparr> then None else Some \<lparr>words = ws\<rparr>)"

definition bms_intersect :: "Relids \<Rightarrow> Relids \<Rightarrow> Relids" where
  "bms_intersect a b =
     (case (a, b) of
        (Some a', Some b') \<Rightarrow>
          null_if_empty
            (if nwords a' \<le> nwords b' then words_and_into (words a') (words b')
             else words_and_into (words b') (words a'))
      | _ \<Rightarrow> None)"

definition bms_nonempty_difference :: "Relids \<Rightarrow> Relids \<Rightarrow> bool" where
  "bms_nonempty_difference a b =
     (case (a, b) of
        (None, _) \<Rightarrow> False
      | (Some _, None) \<Rightarrow> True
      | (Some a', Some b') \<Rightarrow> \<not> words_subset (words a') (words b'))"

definition bms_difference :: "Relids \<Rightarrow> Relids \<Rightarrow> Relids" where
  "bms_difference a b =
     (case (a, b) of
        (None, _) \<Rightarrow> None
      | (Some _, None) \<Rightarrow> bms_copy a
      | (Some a', Some b') \<Rightarrow>
          if \<not> bms_nonempty_difference a b then None
          else mk_bms (words_andnot_into (words a') (words b')))"

definition bms_is_subset :: "Relids \<Rightarrow> Relids \<Rightarrow> bool" where
  "bms_is_subset a b =
     (case (a, b) of
        (None, _) \<Rightarrow> True
      | (Some _, None) \<Rightarrow> False
      | (Some a', Some b') \<Rightarrow> words_subset (words a') (words b'))"

definition bms_subset_compare :: "Relids \<Rightarrow> Relids \<Rightarrow> BMS_Comparison" where
  "bms_subset_compare a b =
     (case (a, b) of
        (None, None) \<Rightarrow> BMS_EQUAL
      | (None, Some _) \<Rightarrow> BMS_SUBSET1
      | (Some _, None) \<Rightarrow> BMS_SUBSET2
      | (Some a', Some b') \<Rightarrow> words_subset_compare BMS_EQUAL (words a') (words b'))"

definition bms_is_member :: "int \<Rightarrow> Relids \<Rightarrow> bool res" where
  "bms_is_member x a =
     (if x < 0 then Inl negative_member
      else case a of
        None \<Rightarrow> Inr False
      | Some a' \<Rightarrow>
          if WORDNUM x \<ge> nwords a' then Inr False
          else Inr (words a' ! WORDNUM x AND push_bit (BITNUM x) 1 \<noteq> 0))"

definition bms_member_index :: "Relids \<Rightarrow> int \<Rightarrow> int res" where
  "bms_member_index a x =
     res_bind (bms_is_member x a) (\<lambda>mem.
       case a of
         None \<Rightarrow> Inr (- 1)
       | Some a' \<Rightarrow>
           if \<not> mem then Inr (- 1)
           else let msk = push_bit (BITNUM x) 1 - 1 in
             Inr (int (words_popcount (take (WORDNUM x) (words a')) 0 +
                       pg_popcount64 (words a' ! WORDNUM x AND msk))))"

definition bms_overlap :: "Relids \<Rightarrow> Relids \<Rightarrow> bool" where
  "bms_overlap a b =
     (case (a, b) of
        (Some a', Some b') \<Rightarrow> words_overlap (words a') (words b')
      | _ \<Rightarrow> False)"

fun overlap_list_loop :: "bitmapword list \<Rightarrow> int list \<Rightarrow> bool res" where
  "overlap_list_loop ws [] = Inr False"
| "overlap_list_loop ws (x # xs) =
     (if x < 0 then Inl negative_member
      else if WORDNUM x < length ws \<and> ws ! WORDNUM x AND push_bit (BITNUM x) 1 \<noteq> 0
      then Inr True
      else overlap_list_loop ws xs)"

definition bms_overlap_list :: "Relids \<Rightarrow> int list \<Rightarrow> bool res" where
  "bms_overlap_list a b =
     (case a of
        None \<Rightarrow> Inr False
      | Some a' \<Rightarrow> if b = [] then Inr False else overlap_list_loop (words a') b)"

definition bms_singleton_member :: "Relids \<Rightarrow> int res" where
  "bms_singleton_member a =
     (case a of
        None \<Rightarrow> Inl (Elog ''bitmapset is empty'')
      | Some a' \<Rightarrow>
          (case singleton_loop (words a') 0 (- 1) of
             None \<Rightarrow> Inl (Elog ''bitmapset has multiple members'')
           | Some result \<Rightarrow>
               if result < 0 then Inl (Elog ''bitmapset is empty'') else Inr result))"

text \<open>The boolean result of the code is \<open>True\<close> exactly when \<^verbatim>\<open>*member\<close> is set.\<close>

definition bms_get_singleton_member :: "Relids \<Rightarrow> int option" where
  "bms_get_singleton_member a =
     (case a of
        None \<Rightarrow> None
      | Some a' \<Rightarrow>
          (case singleton_loop (words a') 0 (- 1) of
             None \<Rightarrow> None
           | Some result \<Rightarrow> if result < 0 then None else Some result))"

definition bms_num_members :: "Relids \<Rightarrow> nat" where
  "bms_num_members a = (case a of None \<Rightarrow> 0 | Some a' \<Rightarrow> words_popcount (words a') 0)"

definition bms_membership :: "Relids \<Rightarrow> BMS_Membership" where
  "bms_membership a =
     (case a of None \<Rightarrow> BMS_EMPTY_SET | Some a' \<Rightarrow> membership_loop (words a') BMS_EMPTY_SET)"

definition bms_is_empty :: "Relids \<Rightarrow> bool" where
  "bms_is_empty a = (a = None)"

section \<open>Operations that recycle their inputs\<close>

text \<open>Enlarging the array to \<open>n\<close> words and zeroing the new part.\<close>

definition enlarge_words :: "bitmapword list \<Rightarrow> nat \<Rightarrow> bitmapword list" where
  "enlarge_words ws n = ws @ replicate (n - length ws) 0"

definition bms_add_member :: "Relids \<Rightarrow> int \<Rightarrow> Relids res" where
  "bms_add_member a x =
     (if x < 0 then Inl negative_member
      else case a of
        None \<Rightarrow> bms_make_singleton x
      | Some a' \<Rightarrow>
          (let ws = (if WORDNUM x \<ge> nwords a' then enlarge_words (words a') (WORDNUM x + 1)
                     else words a')
           in Inr (mk_bms (ws[WORDNUM x := ws ! WORDNUM x OR push_bit (BITNUM x) 1]))))"

definition bms_del_member :: "Relids \<Rightarrow> int \<Rightarrow> Relids res" where
  "bms_del_member a x =
     (if x < 0 then Inl negative_member
      else case a of
        None \<Rightarrow> Inr None
      | Some a' \<Rightarrow>
          Inr (null_if_empty
            (if WORDNUM x < nwords a'
             then (words a')[WORDNUM x := words a' ! WORDNUM x AND NOT (push_bit (BITNUM x) 1)]
             else words a')))"

definition bms_add_members :: "Relids \<Rightarrow> Relids \<Rightarrow> Relids" where
  "bms_add_members a b =
     (case (a, b) of
        (None, _) \<Rightarrow> bms_copy b
      | (Some _, None) \<Rightarrow> a
      | (Some a', Some b') \<Rightarrow>
          if nwords a' < nwords b' then mk_bms (words_or_into (words b') (words a'))
          else mk_bms (words_or_into (words a') (words b')))"

text \<open>The array of \<open>a\<close>, allocated or enlarged so that it holds word \<open>uwordnum\<close>.\<close>

definition range_words :: "Relids \<Rightarrow> nat \<Rightarrow> bitmapword list" where
  "range_words a uwordnum =
     (case a of
        None \<Rightarrow> replicate (uwordnum + 1) 0
      | Some a' \<Rightarrow>
          if uwordnum \<ge> nwords a' then enlarge_words (words a') (uwordnum + 1) else words a')"

definition bms_add_range :: "Relids \<Rightarrow> int \<Rightarrow> int \<Rightarrow> Relids res" where
  "bms_add_range a lower upper =
     (if upper < lower then Inr a
      else if lower < 0 then Inl negative_member
      else
        (let uwordnum = WORDNUM upper;
             ws = range_words a uwordnum;
             lwordnum = WORDNUM lower;
             lbitnum = BITNUM lower;
             ushiftbits = BITS_PER_BITMAPWORD - (BITNUM upper + 1);
             lmask = NOT (push_bit lbitnum 1 - 1);
             umask = drop_bit ushiftbits (NOT 0)
         in
           if lwordnum = uwordnum
           then Inr (mk_bms (ws[lwordnum := ws ! lwordnum OR (lmask AND umask)]))
           else
             (let ws1 = ws[lwordnum := ws ! lwordnum OR lmask];
                  ws2 = fill_loop ws1 (lwordnum + 1) (uwordnum - (lwordnum + 1))
              in Inr (mk_bms (ws2[uwordnum := ws2 ! uwordnum OR umask])))))"

definition bms_int_members :: "Relids \<Rightarrow> Relids \<Rightarrow> Relids" where
  "bms_int_members a b =
     (case (a, b) of
        (None, _) \<Rightarrow> None
      | (Some _, None) \<Rightarrow> None
      | (Some a', Some b') \<Rightarrow> null_if_empty (words_int_into (words a') (words b')))"

definition bms_del_members :: "Relids \<Rightarrow> Relids \<Rightarrow> Relids" where
  "bms_del_members a b =
     (case (a, b) of
        (None, _) \<Rightarrow> None
      | (Some _, None) \<Rightarrow> a
      | (Some a', Some b') \<Rightarrow> null_if_empty (words_andnot_into (words a') (words b')))"

definition bms_join :: "Relids \<Rightarrow> Relids \<Rightarrow> Relids" where
  "bms_join a b =
     (case (a, b) of
        (None, _) \<Rightarrow> b
      | (Some _, None) \<Rightarrow> a
      | (Some a', Some b') \<Rightarrow>
          if nwords a' < nwords b' then mk_bms (words_or_into (words b') (words a'))
          else mk_bms (words_or_into (words a') (words b')))"

section \<open>Iteration and hashing\<close>

text \<open>
  Bit numbers are C integers and wrap around, written \<open>c_int\<close>. A negative bit number, which
  \<^verbatim>\<open>prevbit++\<close> gives at the largest integer, makes the scan start before the array.
\<close>

definition bms_next_member :: "Relids \<Rightarrow> int \<Rightarrow> int res" where
  "bms_next_member a prevbit =
     (case a of
        None \<Rightarrow> Inr (- 2)
      | Some a' \<Rightarrow>
          (let prevbit' = c_int (prevbit + 1);
               msk = push_bit (BITNUM prevbit') (NOT 0)
           in if prevbit' < 0 then Inl BadAccess
              else Inr (c_int (next_member_loop (drop (WORDNUM prevbit') (words a')) (WORDNUM prevbit') msk))))"

text \<open>The scan reads \<^verbatim>\<open>words[WORDNUM(prevbit)]\<close> first, which must lie inside the array.\<close>

definition bms_prev_member :: "Relids \<Rightarrow> int \<Rightarrow> int res" where
  "bms_prev_member a prevbit =
     (case a of
        None \<Rightarrow> Inr (- 2)
      | Some a' \<Rightarrow>
          if prevbit = 0 then Inr (- 2)
          else
            (let prevbit' = (if prevbit = - 1 then c_int (int (nwords a' * BITS_PER_BITMAPWORD) - 1)
                             else c_int (prevbit - 1));
                 ushiftbits = BITS_PER_BITMAPWORD - (BITNUM prevbit' + 1);
                 msk = drop_bit ushiftbits (NOT 0)
             in if prevbit' < 0 \<or> WORDNUM prevbit' \<ge> nwords a' then Inl BadAccess
                else Inr (c_int (prev_member_loop (words a') (Suc (WORDNUM prevbit')) msk))))"

text \<open>
  \<open>hash_any\<close> (\<^verbatim>\<open>src/common/hashfn.c\<close>) is a parameter: any function of the words up to the last
  nonzero one.
\<close>

fun last_nonzero :: "bitmapword list \<Rightarrow> nat \<Rightarrow> nat" where
  "last_nonzero ws 0 = 0"
| "last_nonzero ws (Suc lastword) =
     (if ws ! lastword \<noteq> 0 then Suc lastword else last_nonzero ws lastword)"

definition bms_hash_value :: "(bitmapword list \<Rightarrow> 32 word) \<Rightarrow> Relids \<Rightarrow> 32 word" where
  "bms_hash_value hash_any a =
     (case a of
        None \<Rightarrow> 0
      | Some a' \<Rightarrow>
          (let n = last_nonzero (words a') (nwords a') in
           if n = 0 then 0 else hash_any (take n (words a'))))"

definition bitmap_hash :: "(bitmapword list \<Rightarrow> 32 word) \<Rightarrow> Relids \<Rightarrow> 32 word" where
  "bitmap_hash hash_any key = bms_hash_value hash_any key"

definition bitmap_match :: "Relids \<Rightarrow> Relids \<Rightarrow> int" where
  "bitmap_match key1 key2 = (if bms_equal key1 key2 then 0 else 1)"

section \<open>Abstraction to sets\<close>

text \<open>
  The value of word \<open>i\<close>, reading words beyond the array as zero, and the set of member numbers a
  word array stands for.
\<close>

definition wnth :: "bitmapword list \<Rightarrow> nat \<Rightarrow> bitmapword" where
  "wnth ws i = (if i < length ws then ws ! i else 0)"

definition words_set :: "bitmapword list \<Rightarrow> nat set" where
  "words_set ws = {x. bit (wnth ws (x div 64)) (x mod 64)}"

definition bms_set :: "Relids \<Rightarrow> nat set" where
  "bms_set a = (case a of None \<Rightarrow> {} | Some a' \<Rightarrow> words_set (words a'))"

text \<open>The representation invariant: the empty set is always \<^verbatim>\<open>NULL\<close>.\<close>

definition bms_wf :: "Relids \<Rightarrow> bool" where
  "bms_wf a = (case a of None \<Rightarrow> True | Some a' \<Rightarrow> \<not> words_zero (words a'))"

lemma wnth_Nil [simp]: "wnth [] i = 0"
  by (simp add: wnth_def)

lemma wnth_Cons [simp]: "wnth (w # ws) 0 = w" "wnth (w # ws) (Suc i) = wnth ws i"
  by (simp_all add: wnth_def)

lemma all_nat_iff: "(\<forall>i. P i) \<longleftrightarrow> P 0 \<and> (\<forall>i. P (Suc i))"
  by (metis not0_implies_Suc)

lemma ex_nat_iff: "(\<exists>i. P i) \<longleftrightarrow> P 0 \<or> (\<exists>i. P (Suc i))"
  by (metis not0_implies_Suc)

lemma words_zero_iff: "words_zero ws \<longleftrightarrow> (\<forall>i. wnth ws i = 0)"
  by (induction ws) (simp_all add: all_nat_iff [of "\<lambda>i. wnth (_ # _) i = 0"])

lemma length_words_or_into [simp]: "length (words_or_into xs ys) = length xs"
  by (induction xs ys rule: words_or_into.induct) auto

lemma wnth_or_into:
  "length ys \<le> length xs \<Longrightarrow> wnth (words_or_into xs ys) i = wnth xs i OR wnth ys i"
proof (induction xs ys arbitrary: i rule: words_or_into.induct)
  case (3 x xs y ys)
  then show ?case by (cases i) simp_all
qed simp_all

lemma wnth_and_into:
  "length xs \<le> length ys \<Longrightarrow> wnth (words_and_into xs ys) i = wnth xs i AND wnth ys i"
proof (induction xs ys arbitrary: i rule: words_and_into.induct)
  case (3 x xs y ys)
  then show ?case by (cases i) simp_all
qed simp_all

lemma wnth_int_into: "wnth (words_int_into xs ys) i = wnth xs i AND wnth ys i"
proof (induction xs ys arbitrary: i rule: words_int_into.induct)
  case (2 x xs)
  then show ?case by (cases i) simp_all
next
  case (3 x xs y ys)
  then show ?case by (cases i) simp_all
qed simp

lemma wnth_andnot_into: "wnth (words_andnot_into xs ys) i = wnth xs i AND NOT (wnth ys i)"
proof (induction xs ys arbitrary: i rule: words_andnot_into.induct)
  case (3 x xs y ys)
  then show ?case by (cases i) simp_all
qed simp_all

lemma words_equal_iff: "words_equal xs ys \<longleftrightarrow> (\<forall>i. wnth xs i = wnth ys i)"
proof (induction xs ys rule: words_equal.induct)
  case (3 x xs y ys)
  then show ?case by (simp add: all_nat_iff [of "\<lambda>i. wnth (x # xs) i = _ i"])
qed (auto simp: words_zero_iff)

lemma words_subset_iff: "words_subset xs ys \<longleftrightarrow> (\<forall>i. wnth xs i AND NOT (wnth ys i) = 0)"
proof (induction xs ys rule: words_subset.induct)
  case (3 x xs y ys)
  then show ?case by (simp add: all_nat_iff [of "\<lambda>i. wnth (x # xs) i AND _ i = 0"])
qed (auto simp: words_zero_iff)

lemma words_overlap_iff: "words_overlap xs ys \<longleftrightarrow> (\<exists>i. wnth xs i AND wnth ys i \<noteq> 0)"
proof (induction xs ys rule: words_overlap.induct)
  case (3 x xs y ys)
  then show ?case by (simp add: ex_nat_iff [of "\<lambda>i. wnth (x # xs) i AND _ i \<noteq> 0"])
qed auto

text \<open>Membership in a word array, by word and bit position.\<close>

lemma words_set_mem: "j < 64 \<Longrightarrow> 64 * i + j \<in> words_set ws \<longleftrightarrow> bit (wnth ws i) j"
  by (simp add: words_set_def)

lemma words_set_all:
  "(\<forall>x. x \<in> words_set xs \<longrightarrow> x \<in> words_set ys) \<longleftrightarrow>
     (\<forall>i j. j < 64 \<longrightarrow> bit (wnth xs i) j \<longrightarrow> bit (wnth ys i) j)"
  by (metis pos_split words_set_mem)

lemma word_andnot_zero: "a AND NOT b = 0 \<longleftrightarrow> (\<forall>j<64. bit a j \<longrightarrow> bit b j)" for a b :: uint64
  by (auto simp: word64_zero_iff bit_and_iff bit_not_iff)

lemma words_set_subset: "words_set xs \<subseteq> words_set ys \<longleftrightarrow> words_subset xs ys"
  by (simp add: subset_iff words_set_all words_subset_iff word_andnot_zero)

lemma words_set_eq: "words_set xs = words_set ys \<longleftrightarrow> words_equal xs ys"
proof -
  have "words_set xs = words_set ys \<longleftrightarrow> words_subset xs ys \<and> words_subset ys xs"
    by (auto simp flip: words_set_subset)
  also have "\<dots> \<longleftrightarrow> words_equal xs ys"
    by (auto simp: words_subset_iff words_equal_iff word_andnot_zero intro: word64_eqI)
  finally show ?thesis .
qed

lemma words_set_empty: "words_set ws = {} \<longleftrightarrow> words_zero ws"
  using words_set_eq [of ws "[]"]
  by (simp add: words_set_def words_equal_iff words_zero_iff)

lemma words_set_or_into:
  "length ys \<le> length xs \<Longrightarrow> words_set (words_or_into xs ys) = words_set xs \<union> words_set ys"
  by (auto simp: words_set_def wnth_or_into bit_or_iff)

lemma words_set_and_into:
  "length xs \<le> length ys \<Longrightarrow> words_set (words_and_into xs ys) = words_set xs \<inter> words_set ys"
  by (auto simp: words_set_def wnth_and_into bit_and_iff)

lemma words_set_int_into: "words_set (words_int_into xs ys) = words_set xs \<inter> words_set ys"
  by (auto simp: words_set_def wnth_int_into bit_and_iff)

lemma words_set_andnot_into: "words_set (words_andnot_into xs ys) = words_set xs - words_set ys"
  by (auto simp: words_set_def wnth_andnot_into bit_and_iff bit_not_iff)

lemma words_set_disjoint: "words_set xs \<inter> words_set ys = {} \<longleftrightarrow> \<not> words_overlap xs ys"
  by (simp add: words_set_int_into [symmetric] words_set_empty words_zero_iff wnth_int_into
      words_overlap_iff)

text \<open>The two-way subset test accumulates what each word shows about either direction.\<close>

fun comparison_of :: "bool \<Rightarrow> bool \<Rightarrow> BMS_Comparison" where
  "comparison_of True True = BMS_EQUAL"
| "comparison_of True False = BMS_SUBSET1"
| "comparison_of False True = BMS_SUBSET2"
| "comparison_of False False = BMS_DIFFERENT"

lemma words_subset_compare_eq:
  "r \<noteq> BMS_DIFFERENT \<Longrightarrow> words_subset_compare r xs ys =
     comparison_of (r \<noteq> BMS_SUBSET2 \<and> words_subset xs ys) (r \<noteq> BMS_SUBSET1 \<and> words_subset ys xs)"
proof (induction r xs ys rule: words_subset_compare.induct)
  case (1 r)
  then show ?case by (cases r) simp_all
next
  case (2 r x xs)
  then show ?case by (cases r; cases xs) auto
next
  case (3 r y ys)
  then show ?case by (cases r; cases ys) auto
next
  case (4 r x xs y ys)
  define p q where "p = (x AND NOT y \<noteq> 0)" and "q = (y AND NOT x \<noteq> 0)"
  have "words_subset (x # xs) (y # ys) = (\<not> p \<and> words_subset xs ys)"
    "words_subset (y # ys) (x # xs) = (\<not> q \<and> words_subset ys xs)"
    by (simp_all add: p_def q_def)
  moreover note "4.IH" [folded p_def q_def] "4.prems"
  ultimately show ?case
    unfolding words_subset_compare.simps p_def [symmetric] q_def [symmetric]
    by (cases p; cases q; cases r) (simp_all add: Let_def)
qed

section \<open>The operations compute on sets\<close>

lemma bms_set_simps [simp]:
  "bms_set None = {}"
  "bms_set (Some a') = words_set (words a')"
  "bms_set (mk_bms ws) = words_set ws"
  by (simp_all add: bms_set_def mk_bms_def)

lemma bms_wf_simps [simp]:
  "bms_wf None"
  "bms_wf (Some a') \<longleftrightarrow> words_set (words a') \<noteq> {}"
  "bms_wf (mk_bms ws) \<longleftrightarrow> words_set ws \<noteq> {}"
  by (simp_all add: bms_wf_def mk_bms_def words_set_empty)

lemma bms_wf_None_iff: "bms_wf a \<Longrightarrow> bms_set a = {} \<longleftrightarrow> a = None"
  by (cases a) auto

lemma null_if_empty_refines [refine_simps]: "bms_set (null_if_empty ws) = words_set ws"
  by (auto simp: null_if_empty_def bms_is_empty_internal_def simp flip: words_set_empty)

lemma null_if_empty_wf [inv_intros]: "bms_wf (null_if_empty ws)"
  by (auto simp: null_if_empty_def bms_is_empty_internal_def simp flip: words_set_empty)

lemma words_equal_sym: "words_equal xs ys = words_equal ys xs"
  by (auto simp: words_equal_iff)

lemma bms_copy_refines [simp]: "bms_copy a = a"
  by (cases a) (auto simp: bms_copy_def)

lemma bms_equal_refines: "bms_wf a \<Longrightarrow> bms_wf b \<Longrightarrow> bms_equal a b \<longleftrightarrow> bms_set a = bms_set b"
  by (cases a; cases b) (auto simp: bms_equal_def words_set_eq words_equal_sym)

lemma bms_union_refines [refine_simps]: "bms_set (bms_union a b) = bms_set a \<union> bms_set b"
  by (cases a; cases b) (auto simp: bms_union_def words_set_or_into nwords_def)

lemma bms_union_wf [inv_intros]: "bms_wf a \<Longrightarrow> bms_wf b \<Longrightarrow> bms_wf (bms_union a b)"
  by (cases a; cases b) (auto simp: bms_union_def words_set_or_into nwords_def)

lemma bms_add_members_refines [refine_simps]:
  "bms_set (bms_add_members a b) = bms_set a \<union> bms_set b"
  by (cases a; cases b) (auto simp: bms_add_members_def words_set_or_into nwords_def)

lemma bms_add_members_wf [inv_intros]:
  "bms_wf a \<Longrightarrow> bms_wf b \<Longrightarrow> bms_wf (bms_add_members a b)"
  by (cases a; cases b) (auto simp: bms_add_members_def words_set_or_into nwords_def)

lemma bms_join_refines [refine_simps]: "bms_set (bms_join a b) = bms_set a \<union> bms_set b"
  by (cases a; cases b) (auto simp: bms_join_def words_set_or_into nwords_def)

lemma bms_join_wf [inv_intros]: "bms_wf a \<Longrightarrow> bms_wf b \<Longrightarrow> bms_wf (bms_join a b)"
  by (cases a; cases b) (auto simp: bms_join_def words_set_or_into nwords_def)

lemma bms_intersect_refines [refine_simps]:
  "bms_set (bms_intersect a b) = bms_set a \<inter> bms_set b"
  by (cases a; cases b)
    (auto simp: bms_intersect_def null_if_empty_refines words_set_and_into nwords_def)

lemma bms_intersect_wf [inv_intros]: "bms_wf (bms_intersect a b)"
  by (cases a; cases b) (simp_all add: bms_intersect_def null_if_empty_wf)

lemma bms_int_members_refines [refine_simps]:
  "bms_set (bms_int_members a b) = bms_set a \<inter> bms_set b"
  by (cases a; cases b) (simp_all add: bms_int_members_def null_if_empty_refines words_set_int_into)

lemma bms_int_members_wf [inv_intros]: "bms_wf (bms_int_members a b)"
  by (cases a; cases b) (simp_all add: bms_int_members_def null_if_empty_wf)

lemma bms_nonempty_difference_refines:
  "bms_wf a \<Longrightarrow> bms_nonempty_difference a b \<longleftrightarrow> bms_set a - bms_set b \<noteq> {}"
  by (cases a; cases b) (auto simp: bms_nonempty_difference_def simp flip: words_set_subset)

lemma bms_difference_refines [refine_simps]:
  "bms_set (bms_difference a b) = bms_set a - bms_set b"
  by (cases a; cases b)
    (auto simp: bms_difference_def bms_nonempty_difference_def words_set_andnot_into
      simp flip: words_set_subset)

lemma bms_difference_wf [inv_intros]: "bms_wf a \<Longrightarrow> bms_wf (bms_difference a b)"
  by (cases a; cases b)
    (auto simp: bms_difference_def bms_nonempty_difference_def words_set_andnot_into
      simp flip: words_set_subset)

lemma bms_del_members_refines [refine_simps]:
  "bms_set (bms_del_members a b) = bms_set a - bms_set b"
  by (cases a; cases b)
    (simp_all add: bms_del_members_def null_if_empty_refines words_set_andnot_into)

lemma bms_del_members_wf [inv_intros]: "bms_wf a \<Longrightarrow> bms_wf (bms_del_members a b)"
  by (cases a; cases b) (simp_all add: bms_del_members_def null_if_empty_wf)

lemma bms_is_subset_refines: "bms_wf a \<Longrightarrow> bms_is_subset a b \<longleftrightarrow> bms_set a \<subseteq> bms_set b"
  by (cases a; cases b) (auto simp: bms_is_subset_def simp flip: words_set_subset)

lemma bms_overlap_refines: "bms_overlap a b \<longleftrightarrow> bms_set a \<inter> bms_set b \<noteq> {}"
  by (cases a; cases b) (simp_all add: bms_overlap_def words_set_disjoint)

lemma bms_subset_compare_refines:
  "bms_wf a \<Longrightarrow> bms_wf b \<Longrightarrow>
     bms_subset_compare a b = comparison_of (bms_set a \<subseteq> bms_set b) (bms_set b \<subseteq> bms_set a)"
  by (cases a; cases b)
    (simp_all add: bms_subset_compare_def words_subset_compare_eq words_set_subset)

subsection \<open>Single members\<close>

lemma position_nat: "WORDNUM x * 64 + BITNUM x = nat x" "BITNUM x < 64"
  by (simp_all add: WORDNUM_def BITNUM_def BITS_PER_BITMAPWORD_def)

lemma bit_single: "n < 64 \<Longrightarrow> bit (2 ^ n :: bitmapword) j \<longleftrightarrow> j = n"
  by (auto simp: bit_exp_iff)

lemma test_bit_single:
  "n < 64 \<Longrightarrow> w AND 2 ^ n = 0 \<longleftrightarrow> \<not> bit w n" for w :: bitmapword
  by (auto simp: word64_zero_iff bit_and_iff bit_single)

lemma wnth_update:
  "k < length ws \<Longrightarrow> wnth (ws[k := v]) i = (if i = k then v else wnth ws i)"
  by (auto simp: wnth_def)

lemma wnth_enlarge: "wnth (enlarge_words ws n) i = wnth ws i"
  by (auto simp: wnth_def enlarge_words_def nth_append)

lemma words_set_enlarge [simp]: "words_set (enlarge_words ws n) = words_set ws"
  by (simp add: words_set_def wnth_enlarge)

lemma length_enlarge: "length (enlarge_words ws n) = max n (length ws)"
  by (simp add: enlarge_words_def)

lemma words_set_zeros [simp]: "words_set (replicate n 0) = {}"
  by (auto simp: words_set_def wnth_def)

lemma bms_is_member_refines:
  "0 \<le> x \<Longrightarrow> bms_is_member x a = Inr (nat x \<in> bms_set a)"
  by (cases a) (auto simp: bms_is_member_def words_set_def wnth_def nwords_def test_bit_single
      WORDNUM_def BITNUM_def BITS_PER_BITMAPWORD_def)

lemma words_set_or_bit:
  assumes "WORDNUM x < length ws"
  shows "words_set (ws[WORDNUM x := ws ! WORDNUM x OR push_bit (BITNUM x) 1]) =
    insert (nat x) (words_set ws)" (is "words_set ?ws = _")
proof -
  have "y \<in> words_set ?ws \<longleftrightarrow> y = nat x \<or> y \<in> words_set ws" for y
  proof -
    have "y = nat x \<longleftrightarrow> y div 64 = WORDNUM x \<and> y mod 64 = BITNUM x"
      using position_nat [of x] by (metis div_mult_mod_eq WORDNUM_def BITNUM_def BITS_PER_BITMAPWORD_def)
    then show ?thesis
      using assms by (auto simp: words_set_def wnth_update bit_or_iff bit_single position_nat)
        (simp_all add: wnth_def)
  qed
  then show ?thesis by auto
qed

lemma words_set_clear_bit:
  assumes "WORDNUM x < length ws"
  shows "words_set (ws[WORDNUM x := ws ! WORDNUM x AND NOT (push_bit (BITNUM x) 1)]) =
    words_set ws - {nat x}" (is "words_set ?ws = _")
proof -
  have "y \<in> words_set ?ws \<longleftrightarrow> y \<noteq> nat x \<and> y \<in> words_set ws" for y
  proof -
    have "y = nat x \<longleftrightarrow> y div 64 = WORDNUM x \<and> y mod 64 = BITNUM x"
      using position_nat [of x] by (metis div_mult_mod_eq WORDNUM_def BITNUM_def BITS_PER_BITMAPWORD_def)
    then show ?thesis
      using assms
      by (auto simp: words_set_def wnth_update bit_and_iff bit_not_iff bit_single position_nat)
        (simp_all add: wnth_def)
  qed
  then show ?thesis by auto
qed

lemma bms_make_singleton_refines:
  assumes "0 \<le> x"
  shows "\<exists>r. bms_make_singleton x = Inr r \<and> bms_set r = {nat x} \<and> bms_wf r"
  using assms words_set_or_bit [of x "replicate (WORDNUM x + 1) 0"]
  by (simp add: bms_make_singleton_def del: replicate_Suc)

lemma bms_add_member_refines:
  assumes "0 \<le> x"
  shows "\<exists>r. bms_add_member a x = Inr r \<and> bms_set r = insert (nat x) (bms_set a) \<and> bms_wf r"
proof (cases a)
  case None
  with assms bms_make_singleton_refines [of x] show ?thesis by (simp add: bms_add_member_def)
next
  case (Some a')
  let ?ws = "if WORDNUM x \<ge> nwords a' then enlarge_words (words a') (WORDNUM x + 1) else words a'"
  have "WORDNUM x < length ?ws" by (auto simp: length_enlarge nwords_def)
  from words_set_or_bit [OF this] assms show ?thesis
    by (simp add: bms_add_member_def Some Let_def split: if_splits)
qed

lemma bms_del_member_refines:
  assumes "0 \<le> x" and "bms_wf a"
  shows "\<exists>r. bms_del_member a x = Inr r \<and> bms_set r = bms_set a - {nat x} \<and> bms_wf r"
proof (cases a)
  case None
  with assms show ?thesis by (simp add: bms_del_member_def)
next
  case (Some a')
  have "nat x \<notin> words_set (words a')" if "\<not> WORDNUM x < length (words a')"
    using that by (simp add: words_set_def wnth_def WORDNUM_def BITS_PER_BITMAPWORD_def)
  with Some assms words_set_clear_bit [of x "words a'"] show ?thesis
    by (auto simp: bms_del_member_def nwords_def null_if_empty_refines null_if_empty_wf)
qed

subsection \<open>Ranges\<close>

lemma shifted_bits_mem:
  "y \<in> (+) (64 * k) ` {j. bit m j} \<longleftrightarrow> y div 64 = k \<and> bit m (y mod 64)" for m :: bitmapword
proof
  assume "y \<in> (+) (64 * k) ` {j. bit m j}"
  then obtain j where j: "bit m j" "y = 64 * k + j" by blast
  with word64_bit_bound [of m j] show "y div 64 = k \<and> bit m (y mod 64)" by simp
next
  assume R: "y div 64 = k \<and> bit m (y mod 64)"
  then have "64 * k + y mod 64 = y" using mult_div_mod_eq [of 64 y] by simp
  with R show "y \<in> (+) (64 * k) ` {j. bit m j}" by (intro image_eqI [of _ _ "y mod 64"]) simp_all
qed

lemma words_set_or_word:
  assumes "k < length ws"
  shows "words_set (ws[k := ws ! k OR m]) = words_set ws \<union> (+) (64 * k) ` {j. bit m j}"
proof (rule set_eqI)
  fix y
  have "y \<in> words_set (ws[k := ws ! k OR m]) \<longleftrightarrow> y \<in> words_set ws \<or> y div 64 = k \<and> bit m (y mod 64)"
    using assms by (simp add: words_set_def wnth_update bit_or_iff) (simp add: wnth_def)
  then show "y \<in> words_set (ws[k := ws ! k OR m]) \<longleftrightarrow>
      y \<in> words_set ws \<union> (+) (64 * k) ` {j. bit m j}"
    by (simp only: shifted_bits_mem Un_iff)
qed

lemma length_fill_loop [simp]: "length (fill_loop ws w k) = length ws"
  by (induction ws w k rule: fill_loop.induct) auto

lemma words_set_fill_loop:
  "w + k \<le> length ws \<Longrightarrow> words_set (fill_loop ws w k) = words_set ws \<union> {64 * w..<64 * (w + k)}"
proof (induction ws w k rule: fill_loop.induct)
  case (1 ws w)
  then show ?case by simp
next
  case (2 ws w k)
  have "ws[w := NOT 0] = ws[w := ws ! w OR NOT 0]" by simp
  then have "words_set (ws[w := NOT 0]) = words_set ws \<union> (+) (64 * w) ` {j. bit (NOT 0 :: bitmapword) j}"
    using words_set_or_word [of w ws "NOT 0"] "2.prems" by simp
  also have "{j. bit (NOT 0 :: bitmapword) j} = {0..<64}"
    by (auto simp: bit_not_iff dest: word64_bit_bound)
  also have "(+) (64 * w) ` {0..<64} = {64 * w..<64 * w + 64}"
    by (simp add: image_add_atLeastLessThan add.commute)
  finally have "words_set (ws[w := NOT 0]) = words_set ws \<union> {64 * w..<64 * w + 64}" .
  moreover have "{64 * w..<64 * w + 64} \<union> {64 * Suc w..<64 * (Suc w + k)} = {64 * w..<64 * (w + Suc k)}"
    by auto
  ultimately show ?case using "2" by (simp add: Un_assoc)
qed

lemma low_mask_bits: "l < 64 \<Longrightarrow> {j. bit (NOT (2 ^ l - 1) :: bitmapword) j} = {l..<64}"
  by (auto simp: bit_not_iff mask_eq_exp_minus_1 [symmetric] bit_mask_iff dest: word64_bit_bound)

lemma high_mask_bits: "u < 64 \<Longrightarrow> {j. bit (drop_bit (64 - (u + 1)) (NOT 0) :: bitmapword) j} = {0..u}"
  by (auto simp: bit_drop_bit_eq bit_not_iff bit_mask_iff dest: word64_bit_bound)

lemma range_words_len: "n < length (range_words a n)"
  by (auto simp: range_words_def nwords_def length_enlarge split: option.splits)

lemma range_words_set: "words_set (range_words a n) = bms_set a"
  by (auto simp: range_words_def simp del: replicate_Suc split: option.splits)

lemma range_pieces:
  "l < A + 64 \<Longrightarrow> A + 64 \<le> B \<Longrightarrow> B \<le> u \<Longrightarrow> {l..<A + 64} \<union> {A + 64..<B} \<union> {B..u} = {l..u}"
  for l u A B :: nat
  by auto

lemma range_one_word:
  assumes "l \<le> u" "l div 64 = u div 64" "u div 64 < length ws"
  shows "words_set (ws[u div 64 := ws ! (u div 64) OR
      (NOT (2 ^ (l mod 64) - 1) AND drop_bit (64 - (u mod 64 + 1)) (NOT 0))]) = words_set ws \<union> {l..u}"
    (is "words_set (ws[_ := _ OR (?lm AND ?um)]) = _")
proof -
  have "{j. bit (?lm AND ?um) j} = {j. bit ?lm j} \<inter> {j. bit ?um j}"
    by (simp only: bit_and_iff Collect_conj_eq)
  also have "\<dots> = {l mod 64..<64} \<inter> {0..u mod 64}"
    by (simp only: low_mask_bits [of "l mod 64"] high_mask_bits [of "u mod 64"]
        mod_less_divisor zero_less_numeral)
  also have "\<dots> = {l mod 64..u mod 64}"
    by (auto intro: le_less_trans [OF _ mod_less_divisor])
  finally have bits: "{j. bit (?lm AND ?um) j} = {l mod 64..u mod 64}" .
  have "l mod 64 + 64 * (u div 64) = l" "u mod 64 + 64 * (u div 64) = u"
    using assms(2) mod_mult_div_eq [of l 64] mod_mult_div_eq [of u 64] by simp_all
  then have "(+) (64 * (u div 64)) ` {l mod 64..u mod 64} = {l..u}"
    by (simp only: image_add_atLeastAtMost)
  with words_set_or_word [OF assms(3), of "?lm AND ?um"] show ?thesis by (simp only: bits)
qed

lemma range_many_words:
  assumes "l div 64 < u div 64" "u div 64 < length ws"
    and ws1: "ws1 = ws[l div 64 := ws ! (l div 64) OR NOT (2 ^ (l mod 64) - 1)]"
    and ws2: "ws2 = fill_loop ws1 (l div 64 + 1) (u div 64 - (l div 64 + 1))"
  shows "words_set (ws2[u div 64 := ws2 ! (u div 64) OR drop_bit (64 - (u mod 64 + 1)) (NOT 0)]) =
    words_set ws \<union> {l..u}" (is "words_set ?ws3 = _")
proof -
  define A B where "A = 64 * (l div 64)" and "B = 64 * (u div 64)"
  have l: "A + l mod 64 = l" and u: "B + u mod 64 = u" by (simp_all add: A_def B_def)
  have "64 * (l div 64 + 1) \<le> 64 * (u div 64)" using assms(1) by (intro mult_le_mono2) simp
  then have AB: "A + 64 \<le> B" by (simp add: A_def B_def)
  have "words_set ws1 = words_set ws \<union> (+) A ` {l mod 64..<64}"
    using words_set_or_word [of "l div 64" ws] assms(1,2) low_mask_bits [of "l mod 64"]
    by (simp add: ws1 A_def)
  also have "(+) A ` {l mod 64..<64} = {l..<A + 64}"
    using l by (simp add: image_add_atLeastLessThan add.commute)
  finally have 1: "words_set ws1 = words_set ws \<union> {l..<A + 64}" .
  have 2: "words_set ws2 = words_set ws1 \<union> {A + 64..<B}"
    using words_set_fill_loop [of "l div 64 + 1" "u div 64 - (l div 64 + 1)" ws1] assms(1,2)
    by (simp add: ws2 ws1 A_def B_def add.commute)
  have "u div 64 < length ws2" using assms(2) by (simp add: ws2 ws1)
  then have "words_set ?ws3 =
      words_set ws2 \<union> (+) B ` {j. bit (drop_bit (64 - (u mod 64 + 1)) (NOT 0) :: bitmapword) j}"
    unfolding B_def by (rule words_set_or_word)
  also have "{j. bit (drop_bit (64 - (u mod 64 + 1)) (NOT 0) :: bitmapword) j} = {0..u mod 64}"
    by (rule high_mask_bits) simp
  also have "(+) B ` {0..u mod 64} = {B..u}"
    using u by (simp add: image_add_atLeastAtMost add.commute)
  finally have 3: "words_set ?ws3 = words_set ws2 \<union> {B..u}" .
  have "l < A + 64" "B \<le> u" using l u by simp_all
  from range_pieces [OF this(1) AB this(2)] show ?thesis by (simp only: 3 2 1 Un_assoc)
qed

lemma bms_add_range_refines:
  assumes "0 \<le> lower" and "lower \<le> upper"
  shows "\<exists>r. bms_add_range a lower upper = Inr r \<and>
    bms_set r = bms_set a \<union> {nat lower..nat upper} \<and> bms_wf r"
proof -
  define l u where "l = nat lower" and "u = nat upper"
  define ws where "ws = range_words a (u div 64)"
  have lu: "l \<le> u" and len: "u div 64 < length ws" and set_ws: "words_set ws = bms_set a"
    using assms by (simp_all add: l_def u_def ws_def range_words_len range_words_set)
  define W where "W = (if l div 64 = u div 64
      then ws[u div 64 := ws ! (u div 64) OR
        (NOT (2 ^ (l mod 64) - 1) AND drop_bit (64 - (u mod 64 + 1)) (NOT 0))]
      else let ws1 = ws[l div 64 := ws ! (l div 64) OR NOT (2 ^ (l mod 64) - 1)];
               ws2 = fill_loop ws1 (l div 64 + 1) (u div 64 - (l div 64 + 1))
        in ws2[u div 64 := ws2 ! (u div 64) OR drop_bit (64 - (u mod 64 + 1)) (NOT 0)])"
  have c: "(upper < lower) = False" "(lower < 0) = False" using assms by auto
  have eq: "bms_add_range a lower upper = Inr (mk_bms W)"
    unfolding bms_add_range_def Let_def BITS_PER_BITMAPWORD_def WORDNUM_def BITNUM_def
      push_bit_of_1 W_def ws_def l_def u_def
    by (cases "nat lower div 64 = nat upper div 64")
      (simp_all only: c if_True if_False simp_thms)
  have "words_set W = words_set ws \<union> {l..u}"
  proof (cases "l div 64 = u div 64")
    case True
    from range_one_word [OF lu True len] True show ?thesis by (simp only: W_def if_True simp_thms)
  next
    case False
    with div_le_mono [OF lu, of 64] have "l div 64 < u div 64" by simp
    from range_many_words [OF this len refl refl] False show ?thesis
      by (simp only: W_def if_False simp_thms Let_def)
  qed
  with set_ws lu have "words_set W = bms_set a \<union> {l..u}" "words_set W \<noteq> {}" by auto
  with eq show ?thesis by (simp add: l_def u_def)
qed

subsection \<open>Counting\<close>

lemma words_set_Cons: "words_set (w # ws) = {j. bit w j} \<union> (+) 64 ` words_set ws"
proof -
  have "y \<in> words_set (w # ws) \<longleftrightarrow> y \<in> {j. bit w j} \<union> (+) 64 ` words_set ws" for y
  proof (cases "y < 64")
    case True
    then show ?thesis by (auto simp: words_set_def)
  next
    case False
    then obtain z where y: "y = 64 + z" using le_Suc_ex not_less by blast
    then have "y div 64 = Suc (z div 64)" "y mod 64 = z mod 64" by simp_all
    with False show ?thesis by (auto simp: words_set_def y image_iff dest: word64_bit_bound)
  qed
  then show ?thesis by blast
qed

lemma words_set_Nil [simp]: "words_set [] = {}"
  by (simp add: words_set_def)

lemma finite_words_set [simp]: "finite (words_set ws)"
  by (induction ws) (simp_all add: words_set_Cons bscan.finite_bits)

lemma card_words_set_Cons: "card (words_set (w # ws)) = pg_popcount64 w + card (words_set ws)"
proof -
  have "card (words_set (w # ws)) = card {j. bit w j} + card ((+) 64 ` words_set ws)"
    unfolding words_set_Cons
    by (rule card_Un_disjoint) (auto simp: bscan.finite_bits dest: word64_bit_bound)
  then show ?thesis by (simp add: bscan.popcount_card card_image)
qed

lemma words_popcount_card: "words_popcount ws r = r + card (words_set ws)"
proof (induction ws arbitrary: r)
  case (Cons w ws)
  then show ?case
    by (simp add: card_words_set_Cons bscan.popcount_zero_iff)
qed simp

lemma finite_bms_set [simp]: "finite (bms_set a)"
  by (cases a) auto

lemma bms_num_members_refines: "bms_num_members a = card (bms_set a)"
  by (cases a) (auto simp: bms_num_members_def words_popcount_card)

lemma words_set_take: "words_set (take k ws) = {x \<in> words_set ws. x < 64 * k}"
  by (auto simp: words_set_def wnth_def split: if_splits)

lemma bms_member_index_refines:
  assumes "0 \<le> x"
  shows "bms_member_index a x =
    Inr (if nat x \<in> bms_set a then int (card {y \<in> bms_set a. y < nat x}) else - 1)"
proof (cases "nat x \<in> bms_set a")
  case False
  with assms show ?thesis
    by (auto simp: bms_member_index_def bms_is_member_refines split: option.splits)
next
  case True
  then obtain a' where a: "a = Some a'" by (cases a) auto
  let ?ws = "words a'" and ?k = "WORDNUM x" and ?b = "BITNUM x"
  have k: "?k < length ?ws"
    using True a by (auto simp: words_set_def wnth_def WORDNUM_def BITS_PER_BITMAPWORD_def split: if_splits)
  have "{y \<in> words_set ?ws. y < nat x} =
      words_set (take ?k ?ws) \<union> (+) (64 * ?k) ` {j. bit (?ws ! ?k AND (2 ^ ?b - 1)) j}"
    (is "?L = ?A \<union> ?B")
  proof -
    have "y \<in> ?L \<longleftrightarrow> y \<in> ?A \<union> ?B" for y
    proof (cases "y < 64 * ?k")
      case True
      moreover have "64 * ?k \<le> nat x" using position_nat [of x] by linarith
      ultimately show ?thesis by (auto simp: words_set_take)
    next
      case False
      then obtain j where y: "y = 64 * ?k + j" using le_Suc_ex not_less by blast
      have "y \<in> ?B \<longleftrightarrow> bit (?ws ! ?k) j \<and> j < ?b"
        by (auto simp: y bit_and_iff mask_eq_exp_minus_1 [symmetric] bit_mask_iff dest: word64_bit_bound)
      moreover have "y \<in> ?L \<longleftrightarrow> bit (?ws ! ?k) j \<and> j < ?b"
      proof (cases "j < 64")
        case True
        then show ?thesis using k position_nat [of x] by (auto simp: y words_set_mem wnth_def)
      next
        case False
        then show ?thesis using position_nat [of x] by (auto simp: y dest: word64_bit_bound)
      qed
      ultimately show ?thesis using False by (simp add: words_set_take)
    qed
    then show ?thesis by blast
  qed
  moreover have "?A \<inter> ?B = {}" by (auto simp: words_set_take)
  ultimately have "card ?L = card ?A + pg_popcount64 (?ws ! ?k AND (2 ^ ?b - 1))"
    by (simp add: card_Un_disjoint bscan.finite_bits card_image bscan.popcount_card)
  with True assms a show ?thesis
    by (simp add: bms_member_index_def bms_is_member_refines words_popcount_card Let_def)
qed

subsection \<open>Sole members\<close>

lemma rightmost_one_power:
  assumes "w \<noteq> 0"
  shows "RIGHTMOST_ONE w = 2 ^ pg_rightmost_one_pos64 w"
proof -
  define r where "r = pg_rightmost_one_pos64 w"
  define y where "y = w AND NOT (2 ^ r)"
  have r: "bit w r" "\<And>i. bit w i \<Longrightarrow> r \<le> i" "r < 64"
    using bscan.rightmost_bit bscan.rightmost_least bscan.rightmost_less assms by (auto simp: r_def)
  have y: "bit y i \<longleftrightarrow> bit w i \<and> i \<noteq> r" for i
    using r(3) by (auto simp: y_def bit_and_iff bit_not_iff bit_exp_iff dest: word64_bit_bound)
  have "2 ^ r AND y = 0" "mask r AND y = 0"
    using r by (auto simp: word64_zero_iff bit_and_iff bit_exp_iff bit_mask_iff y dest: leD)
  then have "2 ^ r + y = 2 ^ r OR y" "mask r + y = mask r OR y"
    by (simp_all add: disjunctive_add_eq_or)
  moreover have "2 ^ r OR y = w"
    using r by (intro word64_eqI) (auto simp: bit_or_iff bit_exp_iff y)
  ultimately have "mask r OR y = 2 ^ r - 1 + y" "2 ^ r + y = w"
    by (simp_all add: mask_eq_exp_minus_1)
  then have w1: "w - 1 = mask r OR y" by (metis add_diff_eq add.commute)
  have "bit (- w) i \<longleftrightarrow> i < 64 \<and> \<not> i < r \<and> \<not> bit y i" for i
    unfolding bit_minus_iff w1 by (auto simp: bit_or_iff bit_mask_iff)
  then show ?thesis
    using r by (intro word64_eqI) (auto simp: RIGHTMOST_ONE_def bit_and_iff bit_exp_iff y r_def [symmetric])
qed

lemma popcount_one_iff:
  assumes "w \<noteq> 0"
  shows "pg_popcount64 w = 1 \<longleftrightarrow> {j. bit w j} = {pg_rightmost_one_pos64 w}"
proof
  assume "pg_popcount64 w = 1"
  then obtain x where x: "{j. bit w j} = {x}"
    unfolding bscan.popcount_card by (rule card_1_singletonE)
  moreover have "pg_rightmost_one_pos64 w \<in> {j. bit w j}"
    using bscan.rightmost_bit [OF assms] by simp
  ultimately show "{j. bit w j} = {pg_rightmost_one_pos64 w}" by simp
next
  assume "{j. bit w j} = {pg_rightmost_one_pos64 w}"
  then show "pg_popcount64 w = 1" by (simp add: bscan.popcount_card)
qed

lemma has_multiple_ones_iff:
  assumes "w \<noteq> 0"
  shows "HAS_MULTIPLE_ONES w \<longleftrightarrow> pg_popcount64 w \<noteq> 1"
proof -
  define r where "r = pg_rightmost_one_pos64 w"
  have "r < 64" using assms by (simp add: r_def bscan.rightmost_less)
  then have p: "bit (2 ^ r :: bitmapword) j \<longleftrightarrow> j = r" for j by (rule bit_single)
  have "2 ^ r = w \<longleftrightarrow> {j. bit w j} = {r}"
  proof
    assume "2 ^ r = w"
    then have "bit w j \<longleftrightarrow> j = r" for j using p by blast
    then show "{j. bit w j} = {r}" by blast
  next
    assume "{j. bit w j} = {r}"
    then have "bit w j \<longleftrightarrow> j = r" for j by blast
    then show "2 ^ r = w" by (intro word64_eqI) (simp only: p)
  qed
  then show ?thesis
    unfolding HAS_MULTIPLE_ONES_def rightmost_one_power [OF assms] popcount_one_iff [OF assms]
    by (simp only: r_def)
qed

lemma words_set_Cons_nonzero:
  assumes "w \<noteq> 0"
  shows "words_set (w # ws) \<noteq> {}"
    and "card (words_set (w # ws)) = 1 \<longleftrightarrow> pg_popcount64 w = 1 \<and> words_set ws = {}"
proof -
  have pos: "0 < pg_popcount64 w" using assms bscan.popcount_zero_iff by blast
  then have "0 < card (words_set (w # ws))" by (simp add: card_words_set_Cons)
  then show "words_set (w # ws) \<noteq> {}" by (metis card.empty less_irrefl)
  have "words_set ws = {} \<longleftrightarrow> card (words_set ws) = 0" by simp
  with pos show "card (words_set (w # ws)) = 1 \<longleftrightarrow> pg_popcount64 w = 1 \<and> words_set ws = {}"
    unfolding card_words_set_Cons by arith
qed

lemma singleton_loop_found:
  "0 \<le> r \<Longrightarrow> singleton_loop ws n r = (if words_set ws = {} then Some r else None)"
  by (induction ws arbitrary: n) (auto simp: words_set_Cons word64_zero_iff dest: word64_bit_bound)

lemma singleton_loop_search:
  "r < 0 \<Longrightarrow> singleton_loop ws n r =
     (if words_set ws = {} then Some r
      else if card (words_set ws) = 1 then Some (int (64 * n + the_elem (words_set ws)))
      else None)"
proof (induction ws arbitrary: n)
  case Nil
  then show ?case by simp
next
  case (Cons w ws)
  show ?case
  proof (cases "w = 0")
    case True
    then have S: "words_set (w # ws) = (+) 64 ` words_set ws" by (simp add: words_set_Cons)
    then have "card (words_set (w # ws)) = card (words_set ws)" by (simp add: card_image)
    moreover have "the_elem (words_set (w # ws)) = 64 + the_elem (words_set ws)"
      if "card (words_set ws) = 1"
      using that by (auto simp: S card_1_singleton_iff)
    ultimately show ?thesis using Cons True S by (simp add: algebra_simps)
  next
    case False
    have "the_elem (words_set (w # ws)) = pg_rightmost_one_pos64 w"
      if "pg_popcount64 w = 1" "words_set ws = {}"
      using that popcount_one_iff [OF False] by (simp add: words_set_Cons)
    then show ?thesis
      using False Cons.prems words_set_Cons_nonzero [OF False, of ws]
      by (simp add: has_multiple_ones_iff singleton_loop_found BITS_PER_BITMAPWORD_def algebra_simps)
  qed
qed

lemma bms_get_singleton_member_refines:
  "bms_get_singleton_member a =
     (if card (bms_set a) = 1 then Some (int (the_elem (bms_set a))) else None)"
  by (cases a) (auto simp: bms_get_singleton_member_def singleton_loop_search)

lemma bms_singleton_member_refines:
  "bms_singleton_member a =
     (if bms_set a = {} then Inl (Elog ''bitmapset is empty'')
      else if card (bms_set a) = 1 then Inr (int (the_elem (bms_set a)))
      else Inl (Elog ''bitmapset has multiple members''))"
  by (cases a) (auto simp: bms_singleton_member_def singleton_loop_search)

lemma membership_loop_found:
  "membership_loop ws BMS_SINGLETON = (if words_set ws = {} then BMS_SINGLETON else BMS_MULTIPLE)"
  by (induction ws) (auto simp: words_set_Cons word64_zero_iff dest: word64_bit_bound)

lemma membership_loop_search:
  "membership_loop ws BMS_EMPTY_SET =
     (if words_set ws = {} then BMS_EMPTY_SET
      else if card (words_set ws) = 1 then BMS_SINGLETON else BMS_MULTIPLE)"
proof (induction ws)
  case (Cons w ws)
  show ?case
  proof (cases "w = 0")
    case True
    with Cons show ?thesis by (simp add: words_set_Cons card_image)
  next
    case False
    with words_set_Cons_nonzero [OF False, of ws] show ?thesis
      by (simp add: has_multiple_ones_iff membership_loop_found)
  qed
qed simp

lemma bms_membership_refines:
  "bms_membership a =
     (if bms_set a = {} then BMS_EMPTY_SET
      else if card (bms_set a) = 1 then BMS_SINGLETON else BMS_MULTIPLE)"
  by (cases a) (auto simp: bms_membership_def membership_loop_search)

lemma overlap_list_loop_nonneg:
  "(\<forall>x\<in>set xs. 0 \<le> x) \<Longrightarrow>
     overlap_list_loop ws xs = Inr (\<exists>x\<in>set xs. nat x \<in> words_set ws)"
proof (induction xs)
  case (Cons x xs)
  then have "0 \<le> x" by simp
  then have "(WORDNUM x < length ws \<and> ws ! WORDNUM x AND 2 ^ BITNUM x \<noteq> 0) = (nat x \<in> words_set ws)"
    using bms_is_member_refines [of x "Some \<lparr>words = ws\<rparr>"]
    by (simp add: bms_is_member_def nwords_def split: if_splits)
  then have "overlap_list_loop ws (x # xs) =
      (if x < 0 then Inl negative_member else if nat x \<in> words_set ws then Inr True
       else overlap_list_loop ws xs)"
    by (simp only: overlap_list_loop.simps push_bit_of_1)
  with Cons show ?case by simp
qed simp

lemma bms_overlap_list_refines:
  "(\<forall>x\<in>set xs. 0 \<le> x) \<Longrightarrow> bms_overlap_list a xs = Inr (\<exists>x\<in>set xs. nat x \<in> bms_set a)"
  by (cases a) (auto simp: bms_overlap_list_def overlap_list_loop_nonneg)

subsection \<open>Iteration\<close>

definition min_or_none :: "nat set \<Rightarrow> int" where
  "min_or_none M = (if M = {} then - 2 else int (Min M))"

definition max_or_none :: "nat set \<Rightarrow> int" where
  "max_or_none M = (if M = {} then - 2 else int (Max M))"

lemma min_or_none_eqI: "finite M \<Longrightarrow> m \<in> M \<Longrightarrow> (\<And>x. x \<in> M \<Longrightarrow> m \<le> x) \<Longrightarrow> min_or_none M = int m"
  by (auto simp: min_or_none_def intro: Min_eqI)

lemma max_or_none_eqI: "finite M \<Longrightarrow> m \<in> M \<Longrightarrow> (\<And>x. x \<in> M \<Longrightarrow> x \<le> m) \<Longrightarrow> max_or_none M = int m"
  by (auto simp: max_or_none_def intro: Max_eqI)

lemma next_member_loop_min:
  "next_member_loop ws n msk =
     min_or_none ((+) (64 * n) ` {y \<in> words_set ws. y < 64 \<longrightarrow> bit msk y})"
proof (induction ws arbitrary: n msk)
  case Nil
  then show ?case by (simp add: min_or_none_def)
next
  case (Cons w ws)
  let ?v = "w AND msk"
  have M: "(+) (64 * n) ` {y \<in> words_set (w # ws). y < 64 \<longrightarrow> bit msk y} =
      (+) (64 * n) ` {j. bit ?v j} \<union> (+) (64 * Suc n) ` words_set ws" (is "?M = ?A \<union> ?B")
  proof -
    have "{y \<in> words_set (w # ws). y < 64 \<longrightarrow> bit msk y} = {j. bit ?v j} \<union> (+) 64 ` words_set ws"
      by (auto simp: words_set_Cons bit_and_iff dest: word64_bit_bound)
    then show ?thesis by (simp add: image_Un image_image add.assoc [symmetric] add.commute)
  qed
  show ?case
  proof (cases "?v = 0")
    case True
    then have "?A = {}" by simp
    moreover have "{y \<in> words_set ws. y < 64 \<longrightarrow> bit (NOT 0 :: bitmapword) y} = words_set ws"
      by (auto simp: bit_not_iff)
    ultimately show ?thesis using Cons [of "Suc n" "NOT 0"] True by (simp add: M)
  next
    case False
    let ?r = "pg_rightmost_one_pos64 ?v"
    have "min_or_none ?M = int (64 * n + ?r)"
    proof (rule min_or_none_eqI)
      show "finite ?M" unfolding M by (simp add: bscan.finite_bits)
      show "64 * n + ?r \<in> ?M" unfolding M using bscan.rightmost_bit [OF False] by blast
      show "64 * n + ?r \<le> x" if "x \<in> ?M" for x
        using that bscan.rightmost_least [of ?v] bscan.rightmost_less [OF False] unfolding M by auto
    qed
    with False show ?thesis by (simp add: BITS_PER_BITMAPWORD_def mult.commute)
  qed
qed

lemma words_set_drop: "words_set (drop k ws) = {y. 64 * k + y \<in> words_set ws}"
  by (auto simp: words_set_def wnth_def)

lemma words_from:
  "(+) (64 * (p div 64)) ` {y \<in> words_set (drop (p div 64) ws).
     y < 64 \<longrightarrow> bit (push_bit (p mod 64) (NOT 0) :: bitmapword) y} = {x \<in> words_set ws. p \<le> x}"
    (is "?f ` ?Y = ?R")
proof (rule set_eqI)
  fix x
  have mask: "bit (push_bit (p mod 64) (NOT 0) :: bitmapword) y \<longleftrightarrow> p mod 64 \<le> y \<and> y < 64" for y
    by (auto simp: bit_push_bit_iff bit_not_iff simp del: push_bit_minus_one_eq_not_mask)
  have p: "64 * (p div 64) + p mod 64 = p" by simp
  show "x \<in> ?f ` ?Y \<longleftrightarrow> x \<in> ?R"
  proof
    assume "x \<in> ?f ` ?Y"
    then obtain y where y: "y \<in> ?Y" "x = 64 * (p div 64) + y" by blast
    then have "x \<in> words_set ws" by (simp add: words_set_drop)
    moreover have "p mod 64 \<le> y" using y(1) mask [of y] by (cases "y < 64") (auto intro: less_imp_le less_le_trans [OF mod_less_divisor])
    moreover from this have "p \<le> x" using y(2) p by linarith
    ultimately show "x \<in> ?R" by simp
  next
    assume x: "x \<in> ?R"
    then obtain y where y: "x = p + y" using le_Suc_ex by blast
    then have "x = 64 * (p div 64) + (p mod 64 + y)" using p by simp
    moreover from this x have "p mod 64 + y \<in> ?Y" using mask [of "p mod 64 + y"] by (simp add: words_set_drop)
    ultimately show "x \<in> ?f ` ?Y" by blast
  qed
qed

lemma c_int_min: "\<forall>x\<in>M. x < 2 ^ 31 \<Longrightarrow> finite M \<Longrightarrow> c_int (min_or_none M) = min_or_none M"
  using Min_in [of M] by (intro c_int_id) (auto simp: min_or_none_def)

lemma c_int_max: "\<forall>x\<in>M. x < 2 ^ 31 \<Longrightarrow> finite M \<Longrightarrow> c_int (max_or_none M) = max_or_none M"
  using Max_in [of M] by (intro c_int_id) (auto simp: max_or_none_def)

lemma bms_next_member_refines:
  assumes "- 1 \<le> prevbit" "prevbit < 2 ^ 31 - 1" and small: "\<forall>x\<in>bms_set a. x < 2 ^ 31"
  shows "bms_next_member a prevbit = Inr (min_or_none {x \<in> bms_set a. prevbit < int x})"
proof (cases a)
  case None
  then show ?thesis by (simp add: bms_next_member_def min_or_none_def)
next
  case (Some a')
  let ?p = "nat (prevbit + 1)"
  have p: "c_int (prevbit + 1) = prevbit + 1" using assms(1,2) by (intro c_int_id) simp_all
  have "bms_next_member a prevbit = Inr (c_int (min_or_none {x \<in> words_set (words a'). ?p \<le> x}))"
    using assms(1) unfolding words_from [symmetric] Some
    by (simp add: bms_next_member_def next_member_loop_min WORDNUM_def BITNUM_def
        BITS_PER_BITMAPWORD_def Let_def p)
  moreover have "?p \<le> x \<longleftrightarrow> prevbit < int x" for x using assms by linarith
  ultimately show ?thesis using small by (simp add: Some c_int_min)
qed

text \<open>At the largest integer \<^verbatim>\<open>prevbit++\<close> wraps around.\<close>

lemma bms_next_member_wraps: "a \<noteq> None \<Longrightarrow> bms_next_member a (2 ^ 31 - 1) = Inl BadAccess"
  by (auto simp: bms_next_member_def c_int_def)

lemma prev_member_loop_max:
  "n \<le> length ws \<Longrightarrow> prev_member_loop ws n msk =
     max_or_none {x \<in> words_set ws. x < 64 * n \<and> (x div 64 = n - 1 \<longrightarrow> bit msk (x mod 64))}"
proof (induction n arbitrary: msk)
  case 0
  then show ?case by (simp add: max_or_none_def)
next
  case (Suc k)
  let ?v = "ws ! k AND msk"
  have k: "k < length ws" using Suc.prems by simp
  have M: "{x \<in> words_set ws. x < 64 * Suc k \<and> (x div 64 = Suc k - 1 \<longrightarrow> bit msk (x mod 64))} =
      {x \<in> words_set ws. x < 64 * k} \<union> (+) (64 * k) ` {j. bit ?v j}" (is "?M = ?A \<union> ?B")
  proof (rule set_eqI)
    fix x
    have "x < 64 * Suc k \<longleftrightarrow> x < 64 * k \<or> x div 64 = k" "x < 64 * k \<Longrightarrow> x div 64 \<noteq> k"
      by auto
    moreover have "x \<in> ?B \<longleftrightarrow> x div 64 = k \<and> x \<in> words_set ws \<and> bit msk (x mod 64)"
      unfolding shifted_bits_mem using k by (auto simp: words_set_def wnth_def bit_and_iff)
    ultimately show "x \<in> ?M \<longleftrightarrow> x \<in> ?A \<union> ?B" by auto
  qed
  show ?case
  proof (cases "?v = 0")
    case True
    have "{x \<in> words_set ws. x < 64 * k \<and> (x div 64 = k - 1 \<longrightarrow> bit (NOT 0 :: bitmapword) (x mod 64))} = ?A"
      by (auto simp: bit_not_iff)
    then have "prev_member_loop ws (Suc k) msk = max_or_none ?A"
      using Suc.IH [of "NOT 0"] Suc.prems True by simp
    moreover have "?B = {}" using True by simp
    ultimately show ?thesis by (simp only: M Un_empty_right)
  next
    case False
    let ?r = "pg_leftmost_one_pos64 ?v"
    have "max_or_none ?M = int (64 * k + ?r)"
    proof (rule max_or_none_eqI)
      show "finite ?M" by simp
      show "64 * k + ?r \<in> ?M" unfolding M using bscan.leftmost_bit [OF False] by blast
      show "x \<le> 64 * k + ?r" if "x \<in> ?M" for x
        using that bscan.leftmost_greatest [of ?v] unfolding M by auto
    qed
    with False show ?thesis by (simp add: BITS_PER_BITMAPWORD_def mult.commute)
  qed
qed

lemma min_or_none_nonneg: "0 \<le> min_or_none M \<longleftrightarrow> M \<noteq> {}"
  by (simp add: min_or_none_def)

lemma position_le:
  fixes X P a b :: nat
  assumes "a < 64" "b < 64"
  shows "64 * X + a \<le> 64 * P + b \<longleftrightarrow> X < P \<or> X = P \<and> a \<le> b"
proof (cases X P rule: linorder_cases)
  case less
  then have "64 * Suc X \<le> 64 * P" by (intro mult_le_mono2) simp
  with less assms show ?thesis by simp
next
  case greater
  then have "64 * Suc P \<le> 64 * X" by (intro mult_le_mono2) simp
  with greater assms show ?thesis by simp
qed simp

lemma words_upto:
  "x < 64 * Suc (p div 64) \<and> (x div 64 = p div 64 \<longrightarrow> x mod 64 \<le> p mod 64) \<longleftrightarrow> x \<le> p" for x p :: nat
proof -
  have "x \<le> p \<longleftrightarrow> x div 64 < p div 64 \<or> x div 64 = p div 64 \<and> x mod 64 \<le> p mod 64"
    using position_le [of "x mod 64" "p mod 64" "x div 64" "p div 64"]
    by (simp only: mult_div_mod_eq mod_less_divisor zero_less_numeral)
  moreover have "x < 64 * Suc (p div 64) \<longleftrightarrow> x div 64 < Suc (p div 64)"
    by (simp only: div_less_iff_less_mult zero_less_numeral mult.commute [of 64])
  ultimately show ?thesis by (cases "x div 64 = p div 64") (simp_all only: less_Suc_eq less_irrefl simp_thms)
qed

lemma prev_scan:
  assumes "p div 64 < length ws"
  shows "prev_member_loop ws (Suc (p div 64)) (drop_bit (64 - (p mod 64 + 1)) (NOT 0)) =
    max_or_none {x \<in> words_set ws. x \<le> p}"
proof -
  have "bit (drop_bit (64 - (p mod 64 + 1)) (NOT 0) :: bitmapword) j \<longleftrightarrow> j \<le> p mod 64" for j
    using high_mask_bits [of "p mod 64"] by (simp add: set_eq_iff)
  then show ?thesis
    using assms by (simp only: prev_member_loop_max Suc_leI diff_Suc_1 words_upto)
qed

lemma bms_prev_member_refines:
  assumes "bms_wf a" and "- 1 \<le> prevbit"
    and "\<And>a'. a = Some a' \<Longrightarrow> prevbit \<le> 64 * int (nwords a') \<and> nwords a' \<le> 2 ^ 25"
  shows "bms_prev_member a prevbit =
    Inr (max_or_none {x \<in> bms_set a. prevbit = - 1 \<or> int x < prevbit})"
proof (cases "\<exists>a'. a = Some a' \<and> prevbit \<noteq> 0")
  case False
  then show ?thesis by (auto simp: bms_prev_member_def max_or_none_def split: option.splits)
next
  case True
  then obtain a' where a: "a = Some a'" and nz: "prevbit \<noteq> 0" by blast
  let ?ws = "words a'"
  have len: "0 < nwords a'" using assms(1) by (auto simp: a nwords_def)
  define q where "q = (if prevbit = - 1 then int (length ?ws * 64) - 1 else prevbit - 1)"
  have q: "0 \<le> q" "q < int (64 * nwords a')"
    using nz assms(2) assms(3) [OF a] len by (auto simp: q_def nwords_def)
  have size: "int (64 * nwords a') \<le> 2 ^ 31" using assms(3) [OF a] by simp
  have wrap: "(if prevbit = - 1 then c_int (int (length ?ws * 64) - 1) else c_int (prevbit - 1)) = q"
    using q size c_int_id [of q] by (auto simp: q_def)
  from q have "nat q < 64 * nwords a'" by linarith
  then have "nat q div 64 < length ?ws" by (simp add: nwords_def less_mult_imp_div_less mult.commute)
  moreover from this have "bms_prev_member a prevbit =
      Inr (c_int (prev_member_loop ?ws (Suc (nat q div 64)) (drop_bit (64 - (nat q mod 64 + 1)) (NOT 0))))"
    unfolding bms_prev_member_def a Let_def WORDNUM_def BITNUM_def BITS_PER_BITMAPWORD_def
      nwords_def option.case wrap
    using nz q(1) by (simp only: if_False not_le [symmetric] simp_thms)
  ultimately have run: "bms_prev_member a prevbit = Inr (c_int (max_or_none {x \<in> words_set ?ws. x \<le> nat q}))"
    by (simp only: prev_scan)
  have "nat q < 2 ^ 31" using q size by (simp add: nat_less_iff)
  then have "\<forall>x\<in>{x \<in> words_set ?ws. x \<le> nat q}. x < 2 ^ 31" by auto
  then have "bms_prev_member a prevbit = Inr (max_or_none {x \<in> words_set ?ws. x \<le> nat q})"
    unfolding run by (subst c_int_max) simp_all
  moreover have "x \<le> nat q \<longleftrightarrow> prevbit = - 1 \<or> int x < prevbit" if "x \<in> words_set ?ws" for x
  proof -
    have "x div 64 < length ?ws" using that by (auto simp: words_set_def wnth_def split: if_splits)
    then have "x < 64 * nwords a'" by (simp add: nwords_def)
    then show ?thesis using q by (auto simp: q_def nwords_def split: if_splits)
  qed
  ultimately show ?thesis by (simp add: a cong: conj_cong)
qed

text \<open>The iteration idiom \<^verbatim>\<open>while ((x = bms_next_member(a, x)) >= 0)\<close>: the members visited from \<open>x\<close> on.\<close>

partial_function (option) bms_members_from :: "Relids \<Rightarrow> int \<Rightarrow> nat list res option" where
  "bms_members_from a x =
     (case bms_next_member a x of
        Inl e \<Rightarrow> Some (Inl e)
      | Inr y \<Rightarrow>
          if y \<ge> 0 then Option.bind (bms_members_from a y) (\<lambda>r. Some (map_sum id ((#) (nat y)) r))
          else Some (Inr []))"

lemma bms_members_from_eq:
  assumes "- 1 \<le> x" "x < 2 ^ 31 - 1" "\<forall>y\<in>bms_set a. y < 2 ^ 31 - 1"
  shows "bms_members_from a x = Some (Inr (sorted_list_of_set {y \<in> bms_set a. x < int y}))"
  using assms(1,2)
proof (induction "card {y \<in> bms_set a. x < int y}" arbitrary: x rule: less_induct)
  case less
  let ?M = "{y \<in> bms_set a. x < int y}"
  have fin: "finite ?M" by simp
  have nxt: "bms_next_member a x = Inr (min_or_none ?M)"
    using less.prems assms(3) by (intro bms_next_member_refines) auto
  show ?case
  proof (cases "?M = {}")
    case True
    have "bms_members_from a x = Some (Inr [])"
      using nxt unfolding True min_or_none_def by (subst bms_members_from.simps) simp
    then show ?thesis unfolding True by simp
  next
    case False
    then have m: "min_or_none ?M = int (Min ?M)" unfolding min_or_none_def by (rule if_not_P)
    have mem: "Min ?M \<in> ?M" by (rule Min_in [OF fin False])
    have rest: "{y \<in> bms_set a. int (Min ?M) < int y} = ?M - {Min ?M}"
      using mem Min_le [OF fin] by fastforce
    have "card (?M - {Min ?M}) < card ?M" by (rule card_Diff1_less [OF fin mem])
    moreover have "int (Min ?M) < 2 ^ 31 - 1" using mem assms(3) by (auto simp: nat_less_iff)
    ultimately have "bms_members_from a (int (Min ?M)) = Some (Inr (sorted_list_of_set (?M - {Min ?M})))"
      using less.hyps [of "int (Min ?M)"] unfolding rest by simp
    then have "bms_members_from a x = Some (Inr (Min ?M # sorted_list_of_set (?M - {Min ?M})))"
      using nxt m by (subst bms_members_from.simps) simp
    then show ?thesis using sorted_list_of_set_nonempty [OF fin False] by simp
  qed
qed

text \<open>A set that holds the largest integer: the loop visits the members up to it and then leaves the array.\<close>

lemma largest_member_breaks_iteration:
  assumes "2 ^ 31 - 1 \<in> bms_set a" "\<forall>y\<in>bms_set a. y < 2 ^ 31" "- 1 \<le> x" "x < 2 ^ 31"
  shows "bms_members_from a x = Some (Inl BadAccess)"
  using assms(3,4)
proof (induction "card {y \<in> bms_set a. x < int y}" arbitrary: x rule: less_induct)
  case less
  let ?M = "{y \<in> bms_set a. x < int y}"
  have ne: "a \<noteq> None" using assms(1) by (cases a) auto
  show ?case
  proof (cases "x = 2 ^ 31 - 1")
    case True
    then show ?thesis using bms_next_member_wraps [OF ne] by (subst bms_members_from.simps) simp
  next
    case False
    have fin: "finite ?M" by simp
    have "2 ^ 31 - 1 \<in> ?M" using assms(1) less.prems False by simp
    then have n: "?M \<noteq> {}" by blast
    then have m: "min_or_none ?M = int (Min ?M)" unfolding min_or_none_def by (rule if_not_P)
    have nxt: "bms_next_member a x = Inr (int (Min ?M))"
      unfolding m [symmetric] using less.prems False assms(2) by (intro bms_next_member_refines) auto
    have mem: "Min ?M \<in> ?M" by (rule Min_in [OF fin n])
    have "{y \<in> bms_set a. int (Min ?M) < int y} \<subset> ?M" using mem by auto
    then have "card {y \<in> bms_set a. int (Min ?M) < int y} < card ?M" by (intro psubset_card_mono fin)
    moreover have "int (Min ?M) < 2 ^ 31" using mem assms(2) by (auto simp: nat_less_iff)
    ultimately have "bms_members_from a (int (Min ?M)) = Some (Inl BadAccess)" using less.hyps by simp
    then show ?thesis using nxt by (subst bms_members_from.simps) simp
  qed
qed

subsection \<open>Hashing\<close>

lemma last_nonzero_spec:
  "n \<le> length ws \<Longrightarrow> (\<forall>i\<ge>n. wnth ws i = 0) \<Longrightarrow>
     last_nonzero ws n \<le> n \<and> (\<forall>i\<ge>last_nonzero ws n. wnth ws i = 0) \<and>
     (last_nonzero ws n = 0 \<or> wnth ws (last_nonzero ws n - 1) \<noteq> 0)"
proof (induction n)
  case (Suc n)
  show ?case
  proof (cases "ws ! n = 0")
    case True
    with Suc.prems have "\<forall>i\<ge>n. wnth ws i = 0" by (metis Suc_leI le_neq_implies_less wnth_def)
    with Suc True show ?thesis by auto
  next
    case False
    with Suc.prems show ?thesis by (simp add: wnth_def)
  qed
qed simp

lemma wnth_beyond: "length ws \<le> i \<Longrightarrow> wnth ws i = 0"
  by (simp add: wnth_def)

lemma last_nonzero_full:
  "last_nonzero ws (length ws) \<le> length ws"
  "last_nonzero ws (length ws) \<le> i \<Longrightarrow> wnth ws i = 0"
  "last_nonzero ws (length ws) \<noteq> 0 \<Longrightarrow> wnth ws (last_nonzero ws (length ws) - 1) \<noteq> 0"
proof -
  have "\<forall>i\<ge>length ws. wnth ws i = 0" by (simp add: wnth_beyond)
  note spec = last_nonzero_spec [OF le_refl this]
  show "last_nonzero ws (length ws) \<le> length ws" using spec by (rule conjunct1)
  show "wnth ws i = 0" if "last_nonzero ws (length ws) \<le> i"
    using spec that by (simp only: simp_thms)
  show "wnth ws (last_nonzero ws (length ws) - 1) \<noteq> 0" if "last_nonzero ws (length ws) \<noteq> 0"
    using spec that by (simp only: simp_thms)
qed

lemma last_nonzero_mono:
  assumes "\<And>i. wnth xs i = wnth ys i"
  shows "last_nonzero xs (length xs) \<le> last_nonzero ys (length ys)"
proof (rule ccontr)
  let ?m = "last_nonzero xs (length xs)" and ?n = "last_nonzero ys (length ys)"
  assume "\<not> ?m \<le> ?n"
  then have "?m \<noteq> 0" and n: "?n \<le> ?m - 1" by linarith+
  then have "wnth xs (?m - 1) \<noteq> 0" by (intro last_nonzero_full)
  moreover have "wnth ys (?m - 1) = 0" by (rule last_nonzero_full(2) [OF n])
  ultimately show False using assms [of "?m - 1"] by (simp only:)
qed

lemma last_nonzero_equal:
  assumes "words_equal xs ys"
  shows "take (last_nonzero xs (length xs)) xs = take (last_nonzero ys (length ys)) ys"
proof -
  let ?m = "last_nonzero xs (length xs)" and ?n = "last_nonzero ys (length ys)"
  have eq: "wnth xs i = wnth ys i" for i using assms by (simp add: words_equal_iff)
  have mn: "?m = ?n" using eq by (intro antisym last_nonzero_mono) simp_all
  have le: "?n \<le> length xs" "?n \<le> length ys" using last_nonzero_full(1) mn by metis+
  then have "xs ! i = ys ! i" if "i < ?n" for i
    using that eq [of i] by (simp add: wnth_def)
  then have "take ?n xs = take ?n ys" using le by (intro nth_take_lemma) auto
  then show ?thesis by (simp only: mn)
qed

lemma last_nonzero_zero:
  assumes "words_zero ws"
  shows "last_nonzero ws (length ws) = 0"
proof -
  have "wnth ws i = wnth [] i" for i using assms by (simp only: words_zero_iff wnth_Nil)
  then have "last_nonzero ws (length ws) \<le> last_nonzero [] (length ([] :: bitmapword list))" by (intro last_nonzero_mono)
  then show ?thesis by simp
qed

lemma bms_hash_value_set:
  assumes "bms_set a = bms_set b"
  shows "bms_hash_value h a = bms_hash_value h b"
proof -
  have zero: "bms_hash_value h (Some c) = 0" if "words_set (words c) = {}" for c
    using that last_nonzero_zero by (simp add: words_set_empty bms_hash_value_def nwords_def Let_def)
  have some: "bms_hash_value h (Some c) = bms_hash_value h (Some d)"
    if "words_set (words c) = words_set (words d)" for c d
  proof -
    have t: "take (last_nonzero (words c) (length (words c))) (words c) =
        take (last_nonzero (words d) (length (words d))) (words d)"
      using that by (intro last_nonzero_equal) (simp add: words_set_eq)
    have "last_nonzero (words c) (length (words c)) = last_nonzero (words d) (length (words d))"
      using arg_cong [OF t, of length] by (simp add: min_absorb2 last_nonzero_full(1))
    with t show ?thesis by (simp add: bms_hash_value_def nwords_def Let_def)
  qed
  have none: "bms_hash_value h None = 0" by (simp add: bms_hash_value_def)
  show ?thesis
  proof (cases a)
    case None
    then show ?thesis using assms by (cases b) (simp_all add: none zero)
  next
    case (Some c)
    show ?thesis
    proof (cases b)
      case None
      then show ?thesis using assms Some by (simp add: none zero)
    next
      case (Some d)
      show ?thesis unfolding \<open>a = Some c\<close> Some
        by (rule some) (use assms \<open>a = Some c\<close> Some in simp)
    qed
  qed
qed

subsection \<open>Ordering\<close>

text \<open>
  The number a word array spells in base \<open>2 ^ 64\<close>; \<^verbatim>\<open>bms_compare\<close> orders the sets by it.
\<close>

primrec words_val :: "bitmapword list \<Rightarrow> nat" where
  "words_val [] = 0"
| "words_val (w # ws) = unat w + 2 ^ 64 * words_val ws"

lemma unat_bound64: "unat w < 2 ^ 64" for w :: bitmapword
  using unsigned_less [of w] by simp

lemma words_val_bound: "words_val ws < 2 ^ (64 * length ws)"
proof (induction ws)
  case (Cons w ws)
  have "2 ^ 64 * Suc (words_val ws) \<le> 2 ^ 64 * 2 ^ (64 * length ws)"
    using Cons.IH by (intro mult_le_mono2) simp
  then show ?case using unat_bound64 [of w] by (simp add: power_add)
qed simp

lemma words_val_append: "words_val (xs @ ys) = words_val xs + 2 ^ (64 * length xs) * words_val ys"
  by (induction xs) (simp_all add: power_add algebra_simps)

lemma words_val_zero_iff: "words_val ws = 0 \<longleftrightarrow> words_zero ws"
  by (induction ws) (auto simp: unat_eq_0)

lemma words_val_high:
  assumes "\<not> words_zero (drop n ws)" "n \<le> length ws"
  shows "2 ^ (64 * n) \<le> words_val ws"
proof -
  have "words_val ws = words_val (take n ws) + 2 ^ (64 * n) * words_val (drop n ws)"
    using words_val_append [of "take n ws" "drop n ws"] assms(2) by (simp add: min_absorb2)
  moreover have "2 ^ (64 * n) * 1 \<le> 2 ^ (64 * n) * words_val (drop n ws)"
    using assms(1) words_val_zero_iff [of "drop n ws"] by (intro mult_le_mono2) linarith
  ultimately show ?thesis by linarith
qed

lemma words_val_low:
  assumes "words_zero (drop n ws)"
  shows "words_val ws = words_val (take n ws)"
  using words_val_append [of "take n ws" "drop n ws"] assms words_val_zero_iff [of "drop n ws"]
  by simp

lemma words_compare_down_val:
  "n \<le> length xs \<Longrightarrow> n \<le> length ys \<Longrightarrow>
     words_compare_down xs ys n = compare_nat (words_val (take n xs)) (words_val (take n ys))"
proof (induction n)
  case (Suc i)
  have split: "words_val (take (Suc i) zs) = words_val (take i zs) + 2 ^ (64 * i) * unat (zs ! i)"
    if "Suc i \<le> length zs" for zs
    using that by (simp add: take_Suc_conv_app_nth words_val_append min_absorb2)
  have low: "words_val (take i zs) < 2 ^ (64 * i)" if "Suc i \<le> length zs" for zs
    using words_val_bound [of "take i zs"] that by (simp add: min_absorb2)
  show ?case
    unfolding split [OF Suc.prems(1)] split [OF Suc.prems(2)]
      compare_nat_high [OF low [OF Suc.prems(1)] low [OF Suc.prems(2)]]
    using Suc by (auto simp: Let_def compare_nat_def word_less_nat_alt word_unat_eq_iff)
qed (simp add: compare_nat_def)


text \<open>The number a word array spells is the sum of the powers of two of its members.\<close>

lemma unat_bits: "unat w = (\<Sum>j | bit w j. 2 ^ j)" for w :: bitmapword
proof -
  have "unat w = take_bit 64 (unat w)"
    using unat_bound64 [of w] by (simp add: take_bit_nat_eq_self)
  also have "\<dots> = (\<Sum>j = 0..<64. if bit w j then 2 ^ j else 0)"
    unfolding take_bit_sum
    by (intro sum.cong) (simp_all add: push_bit_eq_mult bit_unsigned_iff)
  also have "\<dots> = (\<Sum>j \<in> {j \<in> {0..<64}. bit w j}. 2 ^ j)"
    by (intro sum.inter_filter [symmetric]) simp
  also have "{j \<in> {0..<64}. bit w j} = {j. bit w j}" by (auto dest: word64_bit_bound)
  finally show ?thesis .
qed

lemma words_val_set: "words_val ws = (\<Sum>x \<in> words_set ws. 2 ^ x)"
proof (induction ws)
  case (Cons w ws)
  have "(\<Sum>x \<in> words_set (w # ws). 2 ^ x :: nat) =
      (\<Sum>j | bit w j. 2 ^ j) + (\<Sum>x \<in> (+) 64 ` words_set ws. 2 ^ x)"
    unfolding words_set_Cons
    by (rule sum.union_disjoint) (auto simp: bscan.finite_bits dest: word64_bit_bound)
  also have "(\<Sum>x \<in> (+) 64 ` words_set ws. 2 ^ x :: nat) = 2 ^ 64 * words_val ws"
    unfolding Cons by (simp add: sum.reindex power_add sum_distrib_left)
  finally show ?case by (simp add: unat_bits)
qed simp

definition bms_val :: "Relids \<Rightarrow> nat" where
  "bms_val a = (\<Sum>x \<in> bms_set a. 2 ^ x)"

lemma bms_val_simps: "bms_val None = 0" "bms_val (Some a') = words_val (words a')"
  by (simp_all add: bms_val_def words_val_set)

lemma bms_val_pos: "bms_wf (Some a') \<Longrightarrow> 0 < bms_val (Some a')"
  using words_val_zero_iff [of "words a'"] by (simp add: bms_val_simps bms_wf_def)

lemma bms_compare_val:
  assumes "bms_wf a" "bms_wf b"
  shows "bms_compare a b = compare_nat (bms_val a) (bms_val b)"
proof (cases "\<exists>a' b'. a = Some a' \<and> b = Some b'")
  case False
  then show ?thesis using assms bms_val_pos
    by (cases a; cases b) (simp_all add: bms_compare_def compare_nat_def bms_val_simps(1) del: bms_wf_simps(2))
next
  case True
  then obtain a' b' where ab: "a = Some a'" "b = Some b'" by blast
  define n where "n = min (nwords a') (nwords b')"
  have n: "n \<le> length (words a')" "n \<le> length (words b')"
    and n': "length (words a') = n \<or> length (words b') = n" by (auto simp: n_def nwords_def)
  have small: "words_val ws < 2 ^ (64 * n)" if "length ws = n \<or> words_zero (drop n ws)" "n \<le> length ws" for ws
    using that words_val_bound [of ws] words_val_bound [of "take n ws"] words_val_low [of n ws]
    by (auto simp: min_absorb2)
  note high = words_val_high [OF _ n(1)] words_val_high [OF _ n(2)]
  have "bms_compare a b = (if \<not> words_zero (drop n (words a')) then 1
      else if \<not> words_zero (drop n (words b')) then - 1
      else compare_nat (words_val (words a')) (words_val (words b')))"
    using n words_compare_down_val [OF n] words_val_low [of n "words a'"] words_val_low [of n "words b'"]
    by (simp add: bms_compare_def ab n_def [symmetric] Let_def)
  also have "\<dots> = compare_nat (words_val (words a')) (words_val (words b'))"
    using high small [of "words a'"] small [of "words b'"] n n'
    by (auto simp: compare_nat_def dest: le_less_trans less_le_trans)
  finally show ?thesis by (simp add: ab bms_val_simps)
qed

lemma words_val_eq_iff: "words_val xs = words_val ys \<longleftrightarrow> words_equal xs ys"
proof (induction xs ys rule: words_equal.induct)
  case (1 longer)
  show ?case using words_val_zero_iff [of longer] by auto
next
  case (2 x xs)
  show ?case using words_val_zero_iff [of "x # xs"] by simp
next
  case (3 x xs y ys)
  have "compare_nat (words_val (x # xs)) (words_val (y # ys)) = 0 \<longleftrightarrow> x = y \<and> words_val xs = words_val ys"
    using compare_nat_high [OF unat_bound64 [of x] unat_bound64 [of y], of "words_val xs" "words_val ys"]
    by (auto simp: compare_nat_def word_unat_eq_iff split: if_splits)
  moreover have "compare_nat m n = 0 \<longleftrightarrow> m = n" for m n by (simp add: compare_nat_def)
  ultimately show ?case using 3 by (auto simp del: words_val.simps)
qed

lemma bms_val_eq_iff: "bms_val a = bms_val b \<longleftrightarrow> bms_set a = bms_set b"
proof -
  have "bms_val c = words_val (case c of None \<Rightarrow> [] | Some c' \<Rightarrow> words c') \<and>
      bms_set c = words_set (case c of None \<Rightarrow> [] | Some c' \<Rightarrow> words c')" for c
    by (cases c) (simp_all add: bms_val_simps)
  then show ?thesis by (simp add: words_val_eq_iff words_set_eq)
qed

interpretation bms_order: comparator bms_wf bms_compare
proof (unfold_locales, goal_cases)
  case (1 x y)
  then show ?case by (simp only: bms_compare_val compare_nat_range)
next
  case (2 x y)
  then show ?case by (simp only: bms_compare_val) (rule compare_nat_swap)
next
  case (3 x y z)
  then show ?case by (simp only: bms_compare_val compare_nat_simps)
qed

section \<open>The interface of relation sets\<close>

text \<open>
  What the planner relies on when it handles \<^verbatim>\<open>Relids\<close>: the operations behave as those of finite
  sets of member numbers on well-formed values. The clients' lemmas are proved from these laws alone.
\<close>

lemma comparison_of_iff:
  "comparison_of p q \<in> {BMS_EQUAL, BMS_SUBSET1} \<longleftrightarrow> p"
  "comparison_of p q \<in> {BMS_EQUAL, BMS_SUBSET2} \<longleftrightarrow> q"
  "comparison_of p q = BMS_EQUAL \<longleftrightarrow> p \<and> q"
  by (cases p; cases q; simp)+

locale relid_sets =
  fixes setof :: "'r \<Rightarrow> nat set"
    and ok :: "'r \<Rightarrow> bool"
    and un :: "'r \<Rightarrow> 'r \<Rightarrow> 'r"
    and same :: "'r \<Rightarrow> 'r \<Rightarrow> bool"
    and sub :: "'r \<Rightarrow> 'r \<Rightarrow> bool"
    and meets :: "'r \<Rightarrow> 'r \<Rightarrow> bool"
    and scmp :: "'r \<Rightarrow> 'r \<Rightarrow> BMS_Comparison"
  assumes un_set: "setof (un a b) = setof a \<union> setof b"
    and un_ok: "ok a \<Longrightarrow> ok b \<Longrightarrow> ok (un a b)"
    and same_iff: "ok a \<Longrightarrow> ok b \<Longrightarrow> same a b \<longleftrightarrow> setof a = setof b"
    and sub_iff: "ok a \<Longrightarrow> ok b \<Longrightarrow> sub a b \<longleftrightarrow> setof a \<subseteq> setof b"
    and meets_iff: "ok a \<Longrightarrow> ok b \<Longrightarrow> meets a b \<longleftrightarrow> setof a \<inter> setof b \<noteq> {}"
    and scmp_iff: "ok a \<Longrightarrow> ok b \<Longrightarrow> scmp a b = comparison_of (setof a \<subseteq> setof b) (setof b \<subseteq> setof a)"
begin

lemma scmp_sub:
  assumes "ok a" "ok b"
  shows "scmp a b \<in> {BMS_EQUAL, BMS_SUBSET1} \<longleftrightarrow> sub a b"
    and "scmp a b \<in> {BMS_EQUAL, BMS_SUBSET2} \<longleftrightarrow> sub b a"
    and "scmp a b = BMS_EQUAL \<longleftrightarrow> same a b"
  using assms unfolding scmp_iff [OF assms] comparison_of_iff sub_iff [OF assms]
    sub_iff [OF assms(2,1)] same_iff [OF assms] by auto

lemma sub_refl: "ok a \<Longrightarrow> sub a a"
  by (simp add: sub_iff)

lemma sub_trans: "ok a \<Longrightarrow> ok b \<Longrightarrow> ok c \<Longrightarrow> sub a b \<Longrightarrow> sub b c \<Longrightarrow> sub a c"
  by (auto simp: sub_iff)

lemma sub_un: "ok a \<Longrightarrow> ok b \<Longrightarrow> ok c \<Longrightarrow> sub (un a b) c \<longleftrightarrow> sub a c \<and> sub b c"
  by (simp add: sub_iff un_set un_ok)

lemma meets_un: "ok a \<Longrightarrow> ok b \<Longrightarrow> ok c \<Longrightarrow> meets (un a b) c \<longleftrightarrow> meets a c \<or> meets b c"
  by (auto simp: meets_iff un_set un_ok)

lemma un_laws:
  assumes "ok a" "ok b" "ok c"
  shows "same (un a b) (un b a)" "same (un (un a b) c) (un a (un b c))" "same (un a a) a"
  using assms by (auto simp: same_iff un_set un_ok)

end

interpretation bms: relid_sets bms_set bms_wf bms_union bms_equal bms_is_subset bms_overlap
  bms_subset_compare
  by unfold_locales
    (auto simp: bms_union_refines bms_union_wf bms_equal_refines bms_is_subset_refines
      bms_overlap_refines bms_subset_compare_refines)

section \<open>Correctness\<close>

lemma wf_examples: "bms_wf (mk_bms [5, 1])" "bms_wf (mk_bms [4])"
  by (simp_all add: bms_wf_def mk_bms_def)

text \<open>C11. Set algebra: union, intersection and difference, in their copying and their recycling
  forms, compute the corresponding operation on the sets of members, and a well-formed input (the
  empty set is \<^verbatim>\<open>NULL\<close>) gives a well-formed result.\<close>

theorem bms_set_algebra:
  assumes "bms_wf a" and "bms_wf b"
  shows "bms_set (bms_union a b) = bms_set a \<union> bms_set b \<and> bms_wf (bms_union a b) \<and>
    bms_set (bms_add_members a b) = bms_set a \<union> bms_set b \<and> bms_wf (bms_add_members a b) \<and>
    bms_set (bms_join a b) = bms_set a \<union> bms_set b \<and> bms_wf (bms_join a b) \<and>
    bms_set (bms_intersect a b) = bms_set a \<inter> bms_set b \<and> bms_wf (bms_intersect a b) \<and>
    bms_set (bms_int_members a b) = bms_set a \<inter> bms_set b \<and> bms_wf (bms_int_members a b) \<and>
    bms_set (bms_difference a b) = bms_set a - bms_set b \<and> bms_wf (bms_difference a b) \<and>
    bms_set (bms_del_members a b) = bms_set a - bms_set b \<and> bms_wf (bms_del_members a b)"
  by (intro conjI refine_simps inv_intros assms)

theorem bms_set_algebra_witness:
  "bms_wf (mk_bms [5, 1]) \<and> bms_wf (mk_bms [4]) \<and>
   bms_set (bms_union (mk_bms [5, 1]) (mk_bms [4])) = bms_set (mk_bms [5, 1]) \<union> bms_set (mk_bms [4])"
  using bms_set_algebra [OF wf_examples] wf_examples by (simp only: simp_thms)

text \<open>C32. Tests: equality, inclusion, overlap, the two-way inclusion test and the emptiness tests
  decide what their names say about the sets of members.\<close>

theorem bms_tests:
  assumes "bms_wf a" and "bms_wf b"
  shows "(bms_equal a b \<longleftrightarrow> bms_set a = bms_set b) \<and>
    (bms_is_subset a b \<longleftrightarrow> bms_set a \<subseteq> bms_set b) \<and>
    (bms_overlap a b \<longleftrightarrow> bms_set a \<inter> bms_set b \<noteq> {}) \<and>
    (bms_nonempty_difference a b \<longleftrightarrow> bms_set a - bms_set b \<noteq> {}) \<and>
    (bms_subset_compare a b \<in> {BMS_EQUAL, BMS_SUBSET1} \<longleftrightarrow> bms_set a \<subseteq> bms_set b) \<and>
    (bms_subset_compare a b \<in> {BMS_EQUAL, BMS_SUBSET2} \<longleftrightarrow> bms_set b \<subseteq> bms_set a) \<and>
    (bms_is_empty a \<longleftrightarrow> bms_set a = {})"
  unfolding bms.scmp_sub(1,2) [OF assms] bms_is_empty_def bms_wf_None_iff [OF assms(1)]
  by (intro conjI refl bms_equal_refines bms_is_subset_refines bms_overlap_refines
      bms_nonempty_difference_refines assms)

theorem bms_tests_witness:
  "bms_wf (mk_bms [5, 1]) \<and> bms_wf (mk_bms [4]) \<and> bms_set (mk_bms [4]) \<subseteq> bms_set (mk_bms [5, 1])"
proof -
  have "bms_is_subset (mk_bms [4]) (mk_bms [5, 1])" by (simp add: bms_is_subset_def mk_bms_def)
  then show ?thesis using bms_tests [OF wf_examples(2,1)] wf_examples by (simp only: simp_thms)
qed

definition member_step_ok :: "Relids res \<Rightarrow> nat set \<Rightarrow> bool" where
  "member_step_ok r S = (case r of Inl _ \<Rightarrow> False | Inr r' \<Rightarrow> bms_set r' = S \<and> bms_wf r')"

lemma member_step_okI: "\<exists>r'. r = Inr r' \<and> bms_set r' = S \<and> bms_wf r' \<Longrightarrow> member_step_ok r S"
  by (auto simp: member_step_ok_def)

text \<open>C31. Single members: a non-negative member is found, inserted and removed exactly, a range of
  members is added as a whole, and every operation but an empty range rejects a negative
  member with the same error.\<close>

theorem bms_member_operations:
  assumes "bms_wf a"
  shows "if x < 0
    then bms_is_member x a = Inl negative_member \<and> bms_make_singleton x = Inl negative_member \<and>
      bms_add_member a x = Inl negative_member \<and> bms_del_member a x = Inl negative_member \<and>
      (\<forall>y. bms_add_range a x y = (if y < x then Inr a else Inl negative_member))
    else bms_is_member x a = Inr (nat x \<in> bms_set a) \<and>
      member_step_ok (bms_make_singleton x) {nat x} \<and>
      member_step_ok (bms_add_member a x) (insert (nat x) (bms_set a)) \<and>
      member_step_ok (bms_del_member a x) (bms_set a - {nat x}) \<and>
      (\<forall>y. if y < x then bms_add_range a x y = Inr a
           else member_step_ok (bms_add_range a x y) (bms_set a \<union> {nat x..nat y}))"
proof (cases "x < 0")
  case True
  then show ?thesis
    by (simp add: bms_is_member_def bms_make_singleton_def bms_add_member_def bms_del_member_def
        bms_add_range_def)
next
  case False
  then have x: "0 \<le> x" by simp
  have range: "if y < x then bms_add_range a x y = Inr a
      else member_step_ok (bms_add_range a x y) (bms_set a \<union> {nat x..nat y})" for y
    using bms_add_range_refines [OF x, of y a]
    by (cases "y < x") (simp_all add: bms_add_range_def [of a x y] member_step_okI)
  from False show ?thesis
    by (simp only: if_False)
      (intro conjI allI range member_step_okI bms_is_member_refines bms_make_singleton_refines
        bms_add_member_refines bms_del_member_refines x assms)
qed

theorem bms_member_operations_witness:
  "bms_wf (mk_bms [4]) \<and> bms_is_member 70 (mk_bms [4]) = Inr (70 \<in> bms_set (mk_bms [4]))"
  using bms_member_operations [OF wf_examples(2), of 70] wf_examples by simp

lemma word_bits: "{j. bit w j} = set (filter (bit w) [0..<64])" for w :: bitmapword
  by (auto dest: word64_bit_bound)

lemma words_set_single: "words_set [w] = set (filter (bit w) [0..<64])"
  by (simp only: words_set_Cons word_bits) simp

text \<open>C33. Iteration: for a set whose members lie below the largest C integer, the loop that calls
  \<^verbatim>\<open>bms_next_member\<close> from \<open>-1\<close> until it returns a negative number ends, after visiting every member once, in
  ascending order, without reading outside the array.\<close>

theorem bms_iteration:
  assumes "\<forall>y\<in>bms_set a. y < 2 ^ 31 - 1"
  shows "bms_members_from a (- 1) = Some (Inr (sorted_list_of_set (bms_set a)))"
  using bms_members_from_eq [of "- 1" a] assms by simp

theorem bms_iteration_witness:
  "bms_members_from (mk_bms [5, 2]) (- 1) = Some (Inr [0, 2, 65])"
proof -
  have "words_set [5, 2] = set (filter (bit (5 :: bitmapword)) [0..<64]) \<union> (+) 64 ` set (filter (bit (2 :: bitmapword)) [0..<64])"
    by (simp only: words_set_Cons [of 5] words_set_single word_bits)
  also have "\<dots> = {0, 2, 65}" by code_simp
  finally have m: "bms_set (mk_bms [5, 2]) = {0, 2, 65}" by (simp add: mk_bms_def)
  then have "\<forall>y\<in>bms_set (mk_bms [5, 2]). y < 2 ^ 31 - 1" by simp
  from bms_iteration [OF this] m show ?thesis by simp
qed

text \<open>Counting: the number of members, the classification by size, the sole member and the
  index of a member agree with the cardinalities of the sets.\<close>

theorem bms_counting:
  "bms_num_members a = card (bms_set a) \<and>
   bms_membership a =
     (if bms_set a = {} then BMS_EMPTY_SET
      else if card (bms_set a) = 1 then BMS_SINGLETON else BMS_MULTIPLE) \<and>
   bms_get_singleton_member a =
     (if card (bms_set a) = 1 then Some (int (the_elem (bms_set a))) else None) \<and>
   bms_singleton_member a =
     (if bms_set a = {} then Inl (Elog ''bitmapset is empty'')
      else if card (bms_set a) = 1 then Inr (int (the_elem (bms_set a)))
      else Inl (Elog ''bitmapset has multiple members'')) \<and>
   bms_member_index a (int x) =
     Inr (if x \<in> bms_set a then int (card {y \<in> bms_set a. y < x}) else - 1)"
  using bms_member_index_refines [of "int x" a]
  by (intro conjI bms_num_members_refines bms_membership_refines bms_get_singleton_member_refines
      bms_singleton_member_refines) simp

text \<open>C34. Ordering: \<^verbatim>\<open>bms_compare\<close> compares the sets as binary numbers, so it is a total order on
  well-formed sets that is zero exactly on the pairs \<^verbatim>\<open>bms_equal\<close> accepts.\<close>

theorem bms_compare_order:
  assumes "bms_wf a" and "bms_wf b" and "bms_wf c"
  shows "bms_compare a b = compare_nat (\<Sum>x \<in> bms_set a. 2 ^ x) (\<Sum>x \<in> bms_set b. 2 ^ x) \<and>
    (bms_compare a b = 0 \<longleftrightarrow> bms_equal a b) \<and>
    bms_compare b a = - bms_compare a b \<and>
    (bms_compare a b \<le> 0 \<and> bms_compare b c \<le> 0 \<longrightarrow> bms_compare a c \<le> 0)"
proof (intro conjI impI)
  show "bms_compare a b = compare_nat (\<Sum>x \<in> bms_set a. 2 ^ x) (\<Sum>x \<in> bms_set b. 2 ^ x)"
    unfolding bms_compare_val [OF assms(1,2)] bms_val_def ..
  show "bms_compare a b = 0 \<longleftrightarrow> bms_equal a b"
    unfolding bms_compare_val [OF assms(1,2)] bms_equal_refines [OF assms(1,2)]
    by (simp only: compare_nat_simps bms_val_eq_iff)
  show "bms_compare b a = - bms_compare a b" by (rule bms_order.cmp_swap [OF assms(1,2)])
  show "bms_compare a c \<le> 0" if "bms_compare a b \<le> 0 \<and> bms_compare b c \<le> 0"
    using bms_order.cmp_trans [OF assms] that by (simp only: simp_thms)
qed

theorem bms_compare_order_witness:
  "bms_wf (mk_bms [5, 1]) \<and> bms_wf (mk_bms [4]) \<and>
   bms_compare (mk_bms [4]) (mk_bms [5, 1]) = - bms_compare (mk_bms [5, 1]) (mk_bms [4])"
  using bms_compare_order [OF wf_examples wf_examples(1)] wf_examples by (simp only: simp_thms)

lemma bms_equal_sets: "bms_equal a b \<Longrightarrow> bms_set a = bms_set b"
  by (cases a; cases b) (auto simp: bms_equal_def words_set_eq words_equal_sym split: if_splits)

text \<open>Hashing: two sets that \<^verbatim>\<open>bitmap_match\<close> declares equal have the same \<^verbatim>\<open>bitmap_hash\<close>,
  whatever the number of trailing zero words, for every hash function on the words.\<close>

theorem bitmap_hash_consistent:
  assumes "bitmap_match a b = 0"
  shows "bitmap_hash hash_any a = bitmap_hash hash_any b"
  unfolding bitmap_hash_def
  by (rule bms_hash_value_set, rule bms_equal_sets) (use assms in \<open>simp add: bitmap_match_def split: if_splits\<close>)

theorem bitmap_hash_consistent_witness:
  "bitmap_match (mk_bms [5]) (mk_bms [5, 0]) = 0 \<and>
   bitmap_hash (\<lambda>ws. of_nat (length ws)) (mk_bms [5]) = bitmap_hash (\<lambda>ws. of_nat (length ws)) (mk_bms [5, 0])"
proof -
  have "bitmap_match (mk_bms [5]) (mk_bms [5, 0]) = 0"
    by (simp add: bitmap_match_def bms_equal_def mk_bms_def nwords_def)
  then show ?thesis using bitmap_hash_consistent by (intro conjI)
qed

end
