(* ===== verification/Pathdata.thy ===== *)
theory Pathdata
  imports Bitmapset
begin

text \<open>
  The planner's data: the fields of \<^verbatim>\<open>src/include/nodes/pathnodes.h\<close> that the modelled code reads
  or writes. Costs and row counts are real numbers. An equivalence class is an address in the heap
  of the planner state. A path key never changes once made, so a pointer to one is the record with
  the address \<open>pk_addr\<close>, and pointers are compared by it.
\<close>

type_synonym Cost = real

type_synonym Cardinality = real

type_synonym Oid = nat

datatype CostSelector = STARTUP_COST | TOTAL_COST

section \<open>Equivalence classes, sort keys and merge clauses\<close>

type_synonym ec_ptr = nat

record EquivalenceMember =
  em_relids :: Relids
  em_is_const :: bool
  em_is_child :: bool

record EquivalenceClass =
  ec_opfamilies :: "Oid list"
  ec_members :: "EquivalenceMember list"
  ec_relids :: Relids
  ec_has_const :: bool
  ec_merged :: "ec_ptr option"

record PathKey =
  pk_addr :: nat
  pk_eclass :: ec_ptr
  pk_opfamily :: Oid
  pk_strategy :: int
  pk_nulls_first :: bool

datatype PathKeysComparison =
  PATHKEYS_EQUAL | PATHKEYS_BETTER1 | PATHKEYS_BETTER2 | PATHKEYS_DIFFERENT

text \<open>
  The links \<^verbatim>\<open>left_ec\<close> and \<^verbatim>\<open>right_ec\<close> are set before a merge clause reaches this code. Of the clause
  itself only constants are told apart (\<open>ConstClause None\<close> is a null constant). Clause nodes are
  linked from several lists; \<open>rinfo_addr\<close> is the address that pointer comparisons read.
\<close>

datatype clause_node = ConstClause "bool option" | OtherClause

record RestrictInfo =
  is_pushed_down :: bool
  required_relids :: Relids
  mergeopfamilies :: "Oid list"
  left_ec :: ec_ptr
  right_ec :: ec_ptr
  outer_is_left :: bool
  rinfo_addr :: nat
  rinfo_clause :: clause_node
  has_clone :: bool
  is_clone :: bool
  incompatible_relids :: Relids

datatype JoinType =
  JOIN_INNER | JOIN_LEFT | JOIN_FULL | JOIN_RIGHT | JOIN_SEMI | JOIN_ANTI | JOIN_RIGHT_ANTI
| JOIN_UNIQUE_OUTER | JOIN_UNIQUE_INNER

record SpecialJoinInfo =
  min_lefthand :: Relids
  min_righthand :: Relids
  syn_righthand :: Relids
  jointype :: JoinType
  ojrelid :: nat
  commute_above_l :: Relids
  commute_below_l :: Relids
  lhs_strict :: bool

record PlaceHolderInfo =
  ph_eval_at :: Relids

text \<open>The planner state; \<open>rtable_alias\<close> lists \<^verbatim>\<open>eref->aliasname\<close> of \<^verbatim>\<open>parse->rtable\<close>.\<close>

record PlannerInfo =
  rtable_alias :: "string list"
  all_baserels :: Relids
  all_query_rels :: Relids
  placeholder_list :: "PlaceHolderInfo list"
  hasLateralRTEs :: bool
  tuple_fraction :: real
  join_info_list :: "SpecialJoinInfo list"
  ec_merging_done :: bool
  ec_heap :: "ec_ptr \<Rightarrow> EquivalenceClass"
  canon_pathkeys :: "PathKey list"
  query_pathkeys :: "PathKey list"

section \<open>Paths and relations\<close>

text \<open>
  Node tags: \<^verbatim>\<open>path->type\<close> tells the C struct, \<^verbatim>\<open>path->pathtype\<close> the plan node it stands for.
\<close>

datatype path_tag =
  T_Path | T_IndexPath | T_BitmapHeapPath | T_NestPath | T_MergePath | T_HashPath | T_MaterialPath
| T_SortPath | T_IncrementalSortPath | T_AggPath | T_GroupingSetsPath | T_GatherPath
| T_GatherMergePath | T_MemoizePath | T_ProjectionPath | T_ProjectSetPath | T_LimitPath | T_OtherPath

datatype plan_tag =
  T_SeqScan | T_IndexScan | T_IndexOnlyScan | T_BitmapHeapScan | T_HashJoin | T_MergeJoin
| T_NestLoop | T_Material | T_Sort | T_Agg | T_Gather | T_GatherMerge | T_Memoize | T_Result
| T_SampleScan | T_TidScan | T_SubqueryScan | T_FunctionScan | T_TableFuncScan | T_ValuesScan
| T_CteScan | T_WorkTableScan | T_NamedTuplestoreScan | T_ForeignScan | T_CustomScan | T_Append
| T_MergeAppend | T_ProjectSet | T_Unique | T_IncrementalSort | T_Group | T_WindowAgg
| T_RecursiveUnion | T_LockRows | T_ModifyTable | T_Limit | T_TidRangeScan | T_SetOp

text \<open>What a path reads of its parent relation.\<close>

record path_parent =
  relid :: nat
  consider_startup :: bool
  consider_param_startup :: bool

text \<open>\<open>param_info\<close> is \<^verbatim>\<open>NULL\<close> or a node whose only field read is \<^verbatim>\<open>ppi_req_outer\<close>.\<close>

record path_info =
  path_type :: path_tag
  pathtype :: plan_tag
  parent :: path_parent
  param_info :: "Relids option"
  parallel_safe :: bool
  rows :: Cardinality
  startup_cost :: Cost
  total_cost :: Cost
  pathkeys :: "PathKey list"

text \<open>
  A path with its children: none, \<^verbatim>\<open>subpath\<close>, or \<^verbatim>\<open>outerjoinpath\<close> and \<^verbatim>\<open>innerjoinpath\<close>.
\<close>

datatype path =
  BasePath (info: path_info)
| SubPath (info: path_info) (subpath: path)
| JoinPath (info: path_info) (outerjoinpath: path) (innerjoinpath: path)

definition PATH_REQ_OUTER :: "path \<Rightarrow> Relids" where
  "PATH_REQ_OUTER p = (case param_info (info p) of None \<Rightarrow> None | Some req \<Rightarrow> req)"

datatype RelOptKind =
  RELOPT_BASEREL | RELOPT_JOINREL | RELOPT_OTHER_MEMBER_REL | RELOPT_OTHER_JOINREL
| RELOPT_UPPER_REL | RELOPT_OTHER_UPPER_REL

record RelOptInfo =
  reloptkind :: RelOptKind
  relids :: Relids
  rel_rows :: Cardinality
  rel_consider_startup :: bool
  rel_consider_param_startup :: bool
  consider_parallel :: bool
  pathlist :: "path list"
  partial_pathlist :: "path list"
  cheapest_startup_path :: "path option"
  cheapest_total_path :: "path option"
  cheapest_unique_path :: "path option"
  cheapest_parameterized_paths :: "path list"
  direct_lateral_relids :: Relids
  lateral_relids :: Relids
  lateral_referencers :: Relids
  joininfo :: "RestrictInfo list"
  has_eclass_joins :: bool
  top_parent_relids :: Relids

definition RINFO_IS_PUSHED_DOWN :: "RestrictInfo \<Rightarrow> Relids \<Rightarrow> bool" where
  "RINFO_IS_PUSHED_DOWN rinfo joinrelids =
     (is_pushed_down rinfo \<or> \<not> bms_is_subset (required_relids rinfo) joinrelids)"

definition IS_OUTER_JOIN :: "JoinType \<Rightarrow> bool" where
  "IS_OUTER_JOIN jt = (jt \<in> {JOIN_LEFT, JOIN_FULL, JOIN_RIGHT, JOIN_ANTI, JOIN_RIGHT_ANTI})"

definition IS_OTHER_REL :: "RelOptInfo \<Rightarrow> bool" where
  "IS_OTHER_REL rel =
     (reloptkind rel \<in> {RELOPT_OTHER_MEMBER_REL, RELOPT_OTHER_JOINREL, RELOPT_OTHER_UPPER_REL})"

end
