(* ===== verification/Pathkeys.thy ===== *)
theory Pathkeys
  imports Pathdata "HOL-Library.Sublist"
begin

text \<open>
  Sort orders: \<^verbatim>\<open>src/backend/optimizer/path/pathkeys.c\<close> from the canonical path keys and their
  comparison to the choice of merge clauses and the usefulness tests, with
  \<^verbatim>\<open>eclass_useful_for_merging\<close> of \<^verbatim>\<open>equivclass.c\<close>. A loop over \<^verbatim>\<open>ec_merged\<close> links returns \<open>None\<close>
  when it does not end, which happens only on cyclic links. \<^verbatim>\<open>Assert\<close>s are not modelled here.
\<close>

section \<open>Construction and redundancy\<close>

partial_function (option) chase_ec :: "(ec_ptr \<Rightarrow> EquivalenceClass) \<Rightarrow> ec_ptr \<Rightarrow> ec_ptr option" where
  "chase_ec heap ec =
     (case ec_merged (heap ec) of None \<Rightarrow> Some ec | Some ec' \<Rightarrow> chase_ec heap ec')"

fun find_canon :: "ec_ptr \<Rightarrow> Oid \<Rightarrow> int \<Rightarrow> bool \<Rightarrow> PathKey list \<Rightarrow> PathKey option" where
  "find_canon ec opfamily strategy nulls_first [] = None"
| "find_canon ec opfamily strategy nulls_first (pk # pks) =
     (if ec = pk_eclass pk \<and> opfamily = pk_opfamily pk \<and> strategy = pk_strategy pk \<and>
         nulls_first = pk_nulls_first pk
      then Some pk else find_canon ec opfamily strategy nulls_first pks)"

text \<open>A new node gets an address no earlier node has: the number of nodes made so far.\<close>

definition make_canonical_pathkey ::
  "PlannerInfo \<Rightarrow> ec_ptr \<Rightarrow> Oid \<Rightarrow> int \<Rightarrow> bool \<Rightarrow> (PathKey \<times> PlannerInfo) res option" where
  "make_canonical_pathkey rt eclass opfamily strategy nulls_first =
     (if \<not> ec_merging_done rt then Some (Inl (Elog ''too soon to build canonical pathkeys''))
      else case chase_ec (ec_heap rt) eclass of
        None \<Rightarrow> None
      | Some ec \<Rightarrow>
          Some (Inr
            (case find_canon ec opfamily strategy nulls_first (canon_pathkeys rt) of
               Some pk \<Rightarrow> (pk, rt)
             | None \<Rightarrow>
                 (let pk = \<lparr>pk_addr = length (canon_pathkeys rt), pk_eclass = ec,
                            pk_opfamily = opfamily, pk_strategy = strategy,
                            pk_nulls_first = nulls_first\<rparr>
                  in (pk, rt\<lparr>canon_pathkeys := canon_pathkeys rt @ [pk]\<rparr>)))))"

definition EC_MUST_BE_REDUNDANT :: "EquivalenceClass \<Rightarrow> bool" where
  "EC_MUST_BE_REDUNDANT ec = ec_has_const ec"

definition pathkey_is_redundant :: "PlannerInfo \<Rightarrow> PathKey \<Rightarrow> PathKey list \<Rightarrow> bool" where
  "pathkey_is_redundant rt new_pathkey pks =
     (if EC_MUST_BE_REDUNDANT (ec_heap rt (pk_eclass new_pathkey)) then True
      else list_ex (\<lambda>old_pathkey. pk_eclass new_pathkey = pk_eclass old_pathkey) pks)"

fun append_pathkeys :: "PlannerInfo \<Rightarrow> PathKey list \<Rightarrow> PathKey list \<Rightarrow> PathKey list" where
  "append_pathkeys rt target [] = target"
| "append_pathkeys rt target (pk # source) =
     append_pathkeys rt (if pathkey_is_redundant rt pk target then target else target @ [pk])
       source"

section \<open>Comparison\<close>

fun compare_pathkeys_loop :: "PathKey list \<Rightarrow> PathKey list \<Rightarrow> PathKeysComparison" where
  "compare_pathkeys_loop [] [] = PATHKEYS_EQUAL"
| "compare_pathkeys_loop (key1 # keys1) [] = PATHKEYS_BETTER1"
| "compare_pathkeys_loop [] (key2 # keys2) = PATHKEYS_BETTER2"
| "compare_pathkeys_loop (key1 # keys1) (key2 # keys2) =
     (if pk_addr key1 \<noteq> pk_addr key2 then PATHKEYS_DIFFERENT
      else compare_pathkeys_loop keys1 keys2)"

definition compare_pathkeys :: "PathKey list \<Rightarrow> PathKey list \<Rightarrow> PathKeysComparison" where
  "compare_pathkeys keys1 keys2 =
     (if keys1 = keys2 then PATHKEYS_EQUAL else compare_pathkeys_loop keys1 keys2)"

definition pathkeys_contained_in :: "PathKey list \<Rightarrow> PathKey list \<Rightarrow> bool" where
  "pathkeys_contained_in keys1 keys2 =
     (case compare_pathkeys keys1 keys2 of
        PATHKEYS_EQUAL \<Rightarrow> True
      | PATHKEYS_BETTER2 \<Rightarrow> True
      | _ \<Rightarrow> False)"

fun count_contained_loop :: "PathKey list \<Rightarrow> PathKey list \<Rightarrow> nat \<Rightarrow> bool \<times> nat" where
  "count_contained_loop (key1 # keys1) (key2 # keys2) n =
     (if pk_addr key1 \<noteq> pk_addr key2 then (False, n) else count_contained_loop keys1 keys2 (n + 1))"
| "count_contained_loop keys1 keys2 n = (keys1 = [], n)"

text \<open>The second component is \<^verbatim>\<open>*n_common\<close>.\<close>

definition pathkeys_count_contained_in :: "PathKey list \<Rightarrow> PathKey list \<Rightarrow> bool \<times> nat" where
  "pathkeys_count_contained_in keys1 keys2 =
     (if keys1 = keys2 then (True, length keys1)
      else if keys1 = [] then (True, 0)
      else if keys2 = [] then (False, 0)
      else count_contained_loop keys1 keys2 0)"

section \<open>Merge clauses\<close>

text \<open>The links to the classes are always set in the model, so only the assertion on the operator families is left.\<close>

definition update_mergeclause_eclasses :: "PlannerInfo \<Rightarrow> RestrictInfo \<Rightarrow> RestrictInfo res option" where
  "update_mergeclause_eclasses rt rinfo =
     (if mergeopfamilies rinfo = [] then Some (Inl AssertFail)
      else case chase_ec (ec_heap rt) (left_ec rinfo) of
        None \<Rightarrow> None
      | Some l \<Rightarrow>
          (case chase_ec (ec_heap rt) (right_ec rinfo) of
             None \<Rightarrow> None
           | Some r \<Rightarrow> Some (Inr (rinfo\<lparr>left_ec := l, right_ec := r\<rparr>))))"

fun update_all_eclasses :: "PlannerInfo \<Rightarrow> RestrictInfo list \<Rightarrow> RestrictInfo list res option" where
  "update_all_eclasses rt [] = Some (Inr [])"
| "update_all_eclasses rt (rinfo # rinfos) =
     run_bind (update_mergeclause_eclasses rt rinfo) (\<lambda>rinfo'.
     run_bind (update_all_eclasses rt rinfos) (\<lambda>rinfos'. Some (Inr (rinfo' # rinfos'))))"

definition outer_ec :: "RestrictInfo \<Rightarrow> ec_ptr" where
  "outer_ec rinfo = (if outer_is_left rinfo then left_ec rinfo else right_ec rinfo)"

definition inner_ec :: "RestrictInfo \<Rightarrow> ec_ptr" where
  "inner_ec rinfo = (if outer_is_left rinfo then right_ec rinfo else left_ec rinfo)"

fun match_clauses_loop :: "PathKey list \<Rightarrow> RestrictInfo list \<Rightarrow> RestrictInfo list \<Rightarrow> RestrictInfo list" where
  "match_clauses_loop [] rinfos mergeclauses = mergeclauses"
| "match_clauses_loop (pathkey # pks) rinfos mergeclauses =
     (let matched = filter (\<lambda>rinfo. outer_ec rinfo = pk_eclass pathkey) rinfos in
      if matched = [] then mergeclauses
      else match_clauses_loop pks rinfos (mergeclauses @ matched))"

definition find_mergeclauses_for_outer_pathkeys ::
  "PlannerInfo \<Rightarrow> PathKey list \<Rightarrow> RestrictInfo list \<Rightarrow> RestrictInfo list res option" where
  "find_mergeclauses_for_outer_pathkeys rt pks restrictinfos =
     run_bind (update_all_eclasses rt restrictinfos) (\<lambda>rinfos. Some (Inr (match_clauses_loop pks rinfos [])))"

text \<open>
  One round of the loop over the merge clauses carries the planner state, the current outer key
  (\<open>None\<close> before the first), the rest of the outer keys and the keys made so far.
\<close>

fun inner_pathkeys_loop ::
  "PlannerInfo \<Rightarrow> RestrictInfo list \<Rightarrow> PathKey option \<Rightarrow> PathKey list \<Rightarrow> PathKey list \<Rightarrow>
     (PathKey list \<times> PlannerInfo) res option" where
  "inner_pathkeys_loop rt [] opathkey lop keys = Some (Inr (keys, rt))"
| "inner_pathkeys_loop rt (clause # clauses) opathkey lop keys =
     (case update_mergeclause_eclasses rt clause of
        None \<Rightarrow> None
      | Some (Inl e) \<Rightarrow> Some (Inl e)
      | Some (Inr rinfo) \<Rightarrow>
          (let oeclass = outer_ec rinfo;
               ieclass = inner_ec rinfo;
               advance = (case opathkey of None \<Rightarrow> True | Some opk \<Rightarrow> oeclass \<noteq> pk_eclass opk)
           in case (if advance
                    then (case lop of
                            [] \<Rightarrow> Inl (Elog ''too few pathkeys for mergeclauses'')
                          | opk # lop' \<Rightarrow>
                              if oeclass \<noteq> pk_eclass opk
                              then Inl (Elog ''outer pathkeys do not match mergeclause'')
                              else Inr (opk, lop'))
                    else Inr (the opathkey, lop)) of
                Inl e \<Rightarrow> Some (Inl e)
              | Inr (opk, lop') \<Rightarrow>
                  (case (if ieclass = oeclass then Some (Inr (opk, rt))
                         else make_canonical_pathkey rt ieclass (pk_opfamily opk)
                                (pk_strategy opk) (pk_nulls_first opk)) of
                     None \<Rightarrow> None
                   | Some (Inl e) \<Rightarrow> Some (Inl e)
                   | Some (Inr (pathkey, rt')) \<Rightarrow>
                       inner_pathkeys_loop rt' clauses (Some opk) lop'
                         (if pathkey_is_redundant rt' pathkey keys then keys
                          else keys @ [pathkey]))))"

definition make_inner_pathkeys_for_merge ::
  "PlannerInfo \<Rightarrow> RestrictInfo list \<Rightarrow> PathKey list \<Rightarrow> (PathKey list \<times> PlannerInfo) res option" where
  "make_inner_pathkeys_for_merge rt mergeclauses outer_pathkeys =
     inner_pathkeys_loop rt mergeclauses None outer_pathkeys []"

fun trim_loop ::
  "ec_ptr \<Rightarrow> PathKey list \<Rightarrow> bool \<Rightarrow> RestrictInfo list \<Rightarrow> RestrictInfo list \<Rightarrow> RestrictInfo list" where
  "trim_loop pathkey_ec lip matched_pathkey [] new_mergeclauses = new_mergeclauses"
| "trim_loop pathkey_ec lip matched_pathkey (rinfo # rinfos) new_mergeclauses =
     (let clause_ec = inner_ec rinfo in
      if clause_ec \<noteq> pathkey_ec
      then (if \<not> matched_pathkey then new_mergeclauses
            else case lip of
              [] \<Rightarrow> new_mergeclauses
            | pathkey # lip' \<Rightarrow>
                if clause_ec = pk_eclass pathkey
                then trim_loop (pk_eclass pathkey) lip' True rinfos (new_mergeclauses @ [rinfo])
                else new_mergeclauses)
      else trim_loop pathkey_ec lip True rinfos (new_mergeclauses @ [rinfo]))"

definition trim_mergeclauses_for_inner_pathkeys ::
  "RestrictInfo list \<Rightarrow> PathKey list \<Rightarrow> RestrictInfo list" where
  "trim_mergeclauses_for_inner_pathkeys mergeclauses pks =
     (case pks of
        [] \<Rightarrow> []
      | pathkey # lip \<Rightarrow> trim_loop (pk_eclass pathkey) lip False mergeclauses [])"

section \<open>The outer sort order of a merge join\<close>

definition BTLessStrategyNumber :: int where
  "BTLessStrategyNumber = 1"

text \<open>
  The arrays \<^verbatim>\<open>ecs\<close> and \<^verbatim>\<open>scores\<close> are one list of pairs. The score of a class is the number of its
  members that could still be joined.
\<close>

definition ec_score :: "PlannerInfo \<Rightarrow> Relids \<Rightarrow> ec_ptr \<Rightarrow> int" where
  "ec_score rt joinrelids ec =
     int (length (filter (\<lambda>em. \<not> em_is_const em \<and> \<not> em_is_child em \<and>
                               \<not> bms_overlap (em_relids em) joinrelids)
                         (ec_members (ec_heap rt ec))))"

fun outer_ecs_loop ::
  "PlannerInfo \<Rightarrow> Relids \<Rightarrow> RestrictInfo list \<Rightarrow> (ec_ptr \<times> int) list \<Rightarrow> (ec_ptr \<times> int) list res option" where
  "outer_ecs_loop rt joinrelids [] ecs = Some (Inr ecs)"
| "outer_ecs_loop rt joinrelids (clause # clauses) ecs =
     run_bind (update_mergeclause_eclasses rt clause) (\<lambda>rinfo.
       let oeclass = outer_ec rinfo in
       if oeclass \<in> set (map fst ecs) then outer_ecs_loop rt joinrelids clauses ecs
       else outer_ecs_loop rt joinrelids clauses (ecs @ [(oeclass, ec_score rt joinrelids oeclass)]))"

definition query_matches :: "(ec_ptr \<times> int) list \<Rightarrow> PathKey list \<Rightarrow> nat" where
  "query_matches ecs qs = length (takeWhile (\<lambda>q. pk_eclass q \<in> set (map fst ecs)) qs)"

fun mark_emitted :: "ec_ptr \<Rightarrow> (ec_ptr \<times> int) list \<Rightarrow> (ec_ptr \<times> int) list" where
  "mark_emitted ec [] = []"
| "mark_emitted ec ((e, s) # ecs) =
     (if e = ec then (e, - 1) # ecs else (e, s) # mark_emitted ec ecs)"

fun best_score_loop :: "int list \<Rightarrow> nat \<Rightarrow> nat \<Rightarrow> int \<Rightarrow> nat \<times> int" where
  "best_score_loop [] j best_j best_score = (best_j, best_score)"
| "best_score_loop (s # scores) j best_j best_score =
     (if s > best_score then best_score_loop scores (Suc j) j s
      else best_score_loop scores (Suc j) best_j best_score)"

definition best_score_index :: "(ec_ptr \<times> int) list \<Rightarrow> nat \<times> int" where
  "best_score_index ecs = best_score_loop (tl (map snd ecs)) 1 0 (hd (map snd ecs))"

lemma best_score_loop_correct:
  "best_j < j \<Longrightarrow> j \<le> length all \<Longrightarrow> all ! best_j = best_score \<Longrightarrow> drop j all = scores \<Longrightarrow>
     best_score_loop scores j best_j best_score = (b, s) \<Longrightarrow> b < length all \<and> all ! b = s"
proof (induction scores j best_j best_score rule: best_score_loop.induct)
  case (2 x scores j best_j best_score)
  have j: "j < length all" "all ! j = x" "drop (Suc j) all = scores"
    using "2.prems"(4) by (auto simp: drop_Suc nth_via_drop tl_drop [symmetric] intro: ccontr)
  show ?case
  proof (cases "x > best_score")
    case True
    then show ?thesis using "2.prems" "2.IH"(1) j by simp
  next
    case False
    then show ?thesis using "2.prems" "2.IH"(2) j by simp
  qed
qed auto

lemma best_score_index_correct:
  assumes "best_score_index ecs = (b, s)" "ecs \<noteq> []"
  shows "b < length ecs \<and> snd (ecs ! b) = s"
proof -
  have "b < length (map snd ecs) \<and> map snd ecs ! b = s"
    using best_score_loop_correct [of 0 1 "map snd ecs" "hd (map snd ecs)" "tl (map snd ecs)" b s] assms
    by (cases ecs) (auto simp: best_score_index_def simp del: nth_map)
  then show ?thesis by (auto simp: nth_map)
qed

lemma filter_update_less:
  assumes "i < length xs" "P (xs ! i)" "\<not> P y"
  shows "length (filter P (xs[i := y])) < length (filter P xs)"
  using assms by (induction xs arbitrary: i) (auto split: nat.splits simp: nth_Cons)

text \<open>
  The final loop: the most popular class not yet emitted becomes the next key. Each round marks one
  class as emitted, so the loop ends.
\<close>

function emit_loop ::
  "PlannerInfo \<Rightarrow> (ec_ptr \<times> int) list \<Rightarrow> PathKey list \<Rightarrow> (PathKey list \<times> PlannerInfo) res option" where
  "emit_loop rt ecs keys =
     (if ecs = [] then Some (Inl BadAccess)
      else let best_j = fst (best_score_index ecs); best_score = snd (best_score_index ecs) in
        if best_score < 0 then Some (Inr (keys, rt))
        else let ec = fst (ecs ! best_j) in
          case make_canonical_pathkey rt ec (hd (ec_opfamilies (ec_heap rt ec)))
                 BTLessStrategyNumber False of
            None \<Rightarrow> None
          | Some (Inl e) \<Rightarrow> Some (Inl e)
          | Some (Inr (pathkey, rt')) \<Rightarrow>
              if pathkey_is_redundant rt' pathkey keys then Some (Inl AssertFail)
              else emit_loop rt' (ecs[best_j := (ec, - 1)]) (keys @ [pathkey]))"
  by pat_completeness auto

termination
proof (relation "measure (\<lambda>(rt, ecs, keys). length (filter (\<lambda>e. 0 \<le> snd e) ecs))", goal_cases)
  case 1
  show ?case by simp
next
  case (2 rt ecs keys best_j best_score ec r s pathkey rt')
  then have "best_j < length ecs" "0 \<le> snd (ecs ! best_j)"
    using best_score_index_correct [of ecs best_j best_score] by auto
  then show ?case by (simp add: filter_update_less)
qed

declare emit_loop.simps [simp del]

definition select_outer_pathkeys_for_merge ::
  "PlannerInfo \<Rightarrow> RestrictInfo list \<Rightarrow> RelOptInfo \<Rightarrow> (PathKey list \<times> PlannerInfo) res option" where
  "select_outer_pathkeys_for_merge rt mergeclauses joinrel =
     (if mergeclauses = [] then Some (Inr ([], rt))
      else run_bind (outer_ecs_loop rt (relids joinrel) mergeclauses []) (\<lambda>ecs.
          if query_pathkeys rt \<noteq> []
          then (let matches = query_matches ecs (query_pathkeys rt) in
                if matches = length (query_pathkeys rt)
                then emit_loop rt (fold (\<lambda>q. mark_emitted (pk_eclass q)) (query_pathkeys rt) ecs)
                       (query_pathkeys rt)
                else if matches = length mergeclauses
                then Some (Inr (take matches (query_pathkeys rt), rt))
                else emit_loop rt ecs [])
          else emit_loop rt ecs []))"

section \<open>Usefulness\<close>

fun member_outside :: "Relids \<Rightarrow> EquivalenceMember list \<Rightarrow> bool" where
  "member_outside rels [] = False"
| "member_outside rels (em # ems) =
     (if em_is_child em then member_outside rels ems
      else if \<not> bms_overlap (em_relids em) rels then True
      else member_outside rels ems)"

definition eclass_useful_for_merging :: "PlannerInfo \<Rightarrow> ec_ptr \<Rightarrow> RelOptInfo \<Rightarrow> bool res" where
  "eclass_useful_for_merging rt eclass rel =
     (let ec = ec_heap rt eclass in
      if ec_merged ec \<noteq> None then Inl AssertFail
      else if ec_has_const ec \<or> length (ec_members ec) \<le> 1 then Inr False
      else if IS_OTHER_REL rel \<and> bms_is_empty (top_parent_relids rel) then Inl AssertFail
      else let rels = (if IS_OTHER_REL rel then top_parent_relids rel else relids rel) in
        if bms_is_subset (ec_relids ec) rels then Inr False
        else Inr (member_outside rels (ec_members ec)))"

fun merge_direction_loop :: "PathKey list \<Rightarrow> PathKey \<Rightarrow> bool" where
  "merge_direction_loop [] pathkey = (pk_strategy pathkey = BTLessStrategyNumber)"
| "merge_direction_loop (query_pathkey # qs) pathkey =
     (if pk_eclass pathkey = pk_eclass query_pathkey \<and> pk_opfamily pathkey = pk_opfamily query_pathkey
      then pk_strategy pathkey = pk_strategy query_pathkey
      else merge_direction_loop qs pathkey)"

definition right_merge_direction :: "PlannerInfo \<Rightarrow> PathKey \<Rightarrow> bool" where
  "right_merge_direction rt pathkey = merge_direction_loop (query_pathkeys rt) pathkey"

fun joininfo_matches :: "PlannerInfo \<Rightarrow> PathKey \<Rightarrow> RestrictInfo list \<Rightarrow> bool res option" where
  "joininfo_matches rt pathkey [] = Some (Inr False)"
| "joininfo_matches rt pathkey (restrictinfo # rest) =
     (if mergeopfamilies restrictinfo = [] then joininfo_matches rt pathkey rest
      else run_bind (update_mergeclause_eclasses rt restrictinfo) (\<lambda>r.
        if pk_eclass pathkey = left_ec r \<or> pk_eclass pathkey = right_ec r then Some (Inr True)
        else joininfo_matches rt pathkey rest))"

fun useful_for_merging_loop :: "PlannerInfo \<Rightarrow> RelOptInfo \<Rightarrow> PathKey list \<Rightarrow> nat \<Rightarrow> nat res option" where
  "useful_for_merging_loop rt rel [] useful = Some (Inr useful)"
| "useful_for_merging_loop rt rel (pathkey # pks) useful =
     (if \<not> right_merge_direction rt pathkey then Some (Inr useful)
      else run_bind (if has_eclass_joins rel then Some (eclass_useful_for_merging rt (pk_eclass pathkey) rel)
                     else Some (Inr False)) (\<lambda>by_class.
        run_bind (if by_class then Some (Inr True) else joininfo_matches rt pathkey (joininfo rel)) (\<lambda>matched.
          if matched then useful_for_merging_loop rt rel pks (useful + 1) else Some (Inr useful))))"

definition pathkeys_useful_for_merging :: "PlannerInfo \<Rightarrow> RelOptInfo \<Rightarrow> PathKey list \<Rightarrow> nat res option" where
  "pathkeys_useful_for_merging rt rel pks = useful_for_merging_loop rt rel pks 0"

definition pathkeys_useful_for_ordering :: "PlannerInfo \<Rightarrow> PathKey list \<Rightarrow> nat" where
  "pathkeys_useful_for_ordering rt pks =
     (if query_pathkeys rt = [] then 0
      else if pks = [] then 0
      else snd (pathkeys_count_contained_in (query_pathkeys rt) pks))"

definition truncate_useless_pathkeys ::
  "PlannerInfo \<Rightarrow> RelOptInfo \<Rightarrow> PathKey list \<Rightarrow> PathKey list res option" where
  "truncate_useless_pathkeys rt rel pks =
     run_bind (pathkeys_useful_for_merging rt rel pks) (\<lambda>nuseful.
       let nuseful2 = pathkeys_useful_for_ordering rt pks;
           n = (if nuseful2 > nuseful then nuseful2 else nuseful)
       in if n = 0 then Some (Inr [])
          else if n = length pks then Some (Inr pks)
          else Some (Inr (take n pks)))"

definition has_useful_pathkeys :: "PlannerInfo \<Rightarrow> RelOptInfo \<Rightarrow> bool" where
  "has_useful_pathkeys rt rel =
     (if joininfo rel \<noteq> [] \<or> has_eclass_joins rel then True
      else if query_pathkeys rt \<noteq> [] then True
      else False)"

definition build_join_pathkeys ::
  "PlannerInfo \<Rightarrow> RelOptInfo \<Rightarrow> JoinType \<Rightarrow> PathKey list \<Rightarrow> PathKey list res option" where
  "build_join_pathkeys rt joinrel jtype outer_pathkeys =
     (if jtype = JOIN_FULL \<or> jtype = JOIN_RIGHT \<or> jtype = JOIN_RIGHT_ANTI then Some (Inr [])
      else truncate_useless_pathkeys rt joinrel outer_pathkeys)"

section \<open>Chasing merged classes\<close>

definition ec_links_wf :: "(ec_ptr \<Rightarrow> EquivalenceClass) \<Rightarrow> bool" where
  "ec_links_wf heap \<longleftrightarrow> wf {(e', e). ec_merged (heap e) = Some e'}"

lemma chase_ec_top: "ec_merged (heap ec) = None \<Longrightarrow> chase_ec heap ec = Some ec"
  by (simp add: chase_ec.simps)

lemma chase_ec_canonical:
  assumes "chase_ec heap ec = Some ec'"
  shows "ec_merged (heap ec') = None"
proof (rule chase_ec.raw_induct [OF _ assms], goal_cases)
  case (1 chase heap ec ec')
  then show ?case by (auto split: option.splits)
qed

lemma chase_ec_returns:
  assumes "ec_links_wf heap"
  shows "\<exists>ec'. chase_ec heap ec = Some ec'"
  using assms unfolding ec_links_wf_def
proof (induction ec rule: wf_induct_rule)
  case (less ec)
  then show ?case by (cases "ec_merged (heap ec)") (auto simp: chase_ec.simps [of heap ec])
qed

section \<open>Canonical path keys\<close>

definition pk_content :: "PathKey \<Rightarrow> ec_ptr \<times> Oid \<times> int \<times> bool" where
  "pk_content pk = (pk_eclass pk, pk_opfamily pk, pk_strategy pk, pk_nulls_first pk)"

text \<open>
  The invariant of \<^verbatim>\<open>canon_pathkeys\<close>: the addresses are those of the allocations in order, no two
  nodes have the same content, and the classes are canonical.
\<close>

definition canon_ok :: "PlannerInfo \<Rightarrow> bool" where
  "canon_ok rt \<longleftrightarrow>
     map pk_addr (canon_pathkeys rt) = [0..<length (canon_pathkeys rt)] \<and>
     distinct (map pk_content (canon_pathkeys rt)) \<and>
     (\<forall>pk\<in>set (canon_pathkeys rt). ec_merged (ec_heap rt (pk_eclass pk)) = None)"

lemma find_canon_None:
  "find_canon ec f s n pks = None \<longleftrightarrow> (ec, f, s, n) \<notin> pk_content ` set pks"
  by (induction pks) (auto simp: pk_content_def)

lemma find_canon_Some:
  "find_canon ec f s n pks = Some pk \<Longrightarrow> pk \<in> set pks \<and> pk_content pk = (ec, f, s, n)"
  by (induction pks) (auto simp: pk_content_def split: if_splits)

lemma canon_addr_inj:
  assumes "canon_ok rt" "p \<in> set (canon_pathkeys rt)" "q \<in> set (canon_pathkeys rt)"
  shows "pk_addr p = pk_addr q \<longleftrightarrow> p = q" and "pk_content p = pk_content q \<longleftrightarrow> p = q"
proof -
  have d: "distinct (map pk_addr (canon_pathkeys rt))" "distinct (map pk_content (canon_pathkeys rt))"
    using assms(1) by (auto simp: canon_ok_def)
  show "pk_addr p = pk_addr q \<longleftrightarrow> p = q"
    using d(1) assms(2,3) by (auto simp: distinct_map dest: inj_onD)
  show "pk_content p = pk_content q \<longleftrightarrow> p = q"
    using d(2) assms(2,3) by (auto simp: distinct_map dest: inj_onD)
qed

text \<open>A step of the planner that only adds canonical keys.\<close>

definition canon_extends :: "PlannerInfo \<Rightarrow> PlannerInfo \<Rightarrow> bool" where
  "canon_extends rt rt' \<longleftrightarrow>
     (\<exists>pks. rt' = rt\<lparr>canon_pathkeys := canon_pathkeys rt @ pks\<rparr>)"

lemma canon_extends_refl [simp]: "canon_extends rt rt"
  by (auto simp: canon_extends_def intro: exI [of _ "[]"])

lemma canon_extends_trans: "canon_extends a b \<Longrightarrow> canon_extends b c \<Longrightarrow> canon_extends a c"
  by (auto simp: canon_extends_def)

lemma canon_extends_fields:
  assumes "canon_extends rt rt'"
  shows "ec_heap rt' = ec_heap rt" "ec_merging_done rt' = ec_merging_done rt"
    "query_pathkeys rt' = query_pathkeys rt" "set (canon_pathkeys rt) \<subseteq> set (canon_pathkeys rt')"
  using assms by (auto simp: canon_extends_def)

lemma make_canonical_pathkey_works:
  assumes "canon_ok rt" "ec_merging_done rt" "chase_ec (ec_heap rt) ec = Some tec"
  obtains pk rt' where "make_canonical_pathkey rt ec f s n = Some (Inr (pk, rt'))"
    "pk_content pk = (tec, f, s, n)" "pk \<in> set (canon_pathkeys rt')" "canon_ok rt'"
    "canon_extends rt rt'"
proof (cases "find_canon tec f s n (canon_pathkeys rt)")
  case None
  let ?pk = "\<lparr>pk_addr = length (canon_pathkeys rt), pk_eclass = tec, pk_opfamily = f,
    pk_strategy = s, pk_nulls_first = n\<rparr>"
  let ?rt = "rt\<lparr>canon_pathkeys := canon_pathkeys rt @ [?pk]\<rparr>"
  have "pk_content ?pk = (tec, f, s, n)" by (simp add: pk_content_def)
  moreover have "canon_ok ?rt"
    using assms(1) None chase_ec_canonical [OF assms(3)]
    by (auto simp: canon_ok_def find_canon_None pk_content_def)
  ultimately show ?thesis using None assms
    by (intro that [of ?pk ?rt]) (auto simp: make_canonical_pathkey_def canon_extends_def Let_def)
next
  case (Some pk)
  then show ?thesis using assms find_canon_Some [OF Some]
    by (intro that [of pk rt]) (auto simp: make_canonical_pathkey_def)
qed

section \<open>Comparison\<close>

definition pk_addrs :: "PathKey list \<Rightarrow> nat list" where
  "pk_addrs keys = map pk_addr keys"

definition sorts_as_well :: "PathKey list \<Rightarrow> PathKey list \<Rightarrow> bool" where
  "sorts_as_well keys1 keys2 \<longleftrightarrow> prefix (pk_addrs keys2) (pk_addrs keys1)"

lemma compare_pathkeys_loop_eq:
  "compare_pathkeys_loop keys1 keys2 =
     (if pk_addrs keys1 = pk_addrs keys2 then PATHKEYS_EQUAL
      else if sorts_as_well keys1 keys2 then PATHKEYS_BETTER1
      else if sorts_as_well keys2 keys1 then PATHKEYS_BETTER2
      else PATHKEYS_DIFFERENT)"
  by (induction keys1 keys2 rule: compare_pathkeys_loop.induct)
    (auto simp: pk_addrs_def sorts_as_well_def)

lemma compare_pathkeys_eq:
  "compare_pathkeys keys1 keys2 =
     (if pk_addrs keys1 = pk_addrs keys2 then PATHKEYS_EQUAL
      else if sorts_as_well keys1 keys2 then PATHKEYS_BETTER1
      else if sorts_as_well keys2 keys1 then PATHKEYS_BETTER2
      else PATHKEYS_DIFFERENT)"
  by (simp add: compare_pathkeys_def compare_pathkeys_loop_eq)

lemma sorts_refl [simp]: "sorts_as_well k k"
  by (simp add: sorts_as_well_def)

lemma sorts_trans: "sorts_as_well a b \<Longrightarrow> sorts_as_well b c \<Longrightarrow> sorts_as_well a c"
  by (auto simp: sorts_as_well_def intro: prefix_order.trans)

lemma sorts_Nil [simp]: "sorts_as_well keys []"
  by (simp add: sorts_as_well_def pk_addrs_def)

lemma compare_pathkeys_iff:
  "compare_pathkeys k1 k2 \<in> {PATHKEYS_EQUAL, PATHKEYS_BETTER1} \<longleftrightarrow> sorts_as_well k1 k2"
  "compare_pathkeys k1 k2 \<in> {PATHKEYS_EQUAL, PATHKEYS_BETTER2} \<longleftrightarrow> sorts_as_well k2 k1"
  by (auto simp: compare_pathkeys_eq sorts_as_well_def)

lemma pathkeys_contained_in_iff: "pathkeys_contained_in keys1 keys2 \<longleftrightarrow> sorts_as_well keys2 keys1"
  using compare_pathkeys_iff(2) [of keys1 keys2]
  by (cases "compare_pathkeys keys1 keys2") (simp_all add: pathkeys_contained_in_def)

lemma count_contained_loop_eq:
  "count_contained_loop keys1 keys2 n =
     (sorts_as_well keys2 keys1, n + length (longest_common_prefix (pk_addrs keys1) (pk_addrs keys2)))"
  by (induction keys1 keys2 n rule: count_contained_loop.induct)
    (auto simp: pk_addrs_def sorts_as_well_def)

lemma longest_common_prefix_self: "longest_common_prefix xs xs = xs"
  by (induction xs) auto

lemma pathkeys_count_contained_in_eq:
  "pathkeys_count_contained_in keys1 keys2 =
     (sorts_as_well keys2 keys1, length (longest_common_prefix (pk_addrs keys1) (pk_addrs keys2)))"
  by (auto simp: pathkeys_count_contained_in_def count_contained_loop_eq longest_common_prefix_self)
    (auto simp: pk_addrs_def sorts_as_well_def)

section \<open>Merge clauses\<close>

text \<open>A merge clause whose links lead to classes that were not merged into others.\<close>

definition rinfo_canonical :: "PlannerInfo \<Rightarrow> RestrictInfo \<Rightarrow> bool" where
  "rinfo_canonical rt r \<longleftrightarrow> mergeopfamilies r \<noteq> [] \<and>
     ec_merged (ec_heap rt (left_ec r)) = None \<and> ec_merged (ec_heap rt (right_ec r)) = None"

lemma rinfo_canonical_ecs:
  "rinfo_canonical rt r \<Longrightarrow> ec_merged (ec_heap rt (inner_ec r)) = None"
  "rinfo_canonical rt r \<Longrightarrow> ec_merged (ec_heap rt (outer_ec r)) = None"
  by (auto simp: rinfo_canonical_def inner_ec_def outer_ec_def)

lemma update_mergeclause_returns:
  assumes "ec_links_wf (ec_heap rt)" "mergeopfamilies c \<noteq> []"
  obtains l r where "chase_ec (ec_heap rt) (left_ec c) = Some l" "chase_ec (ec_heap rt) (right_ec c) = Some r"
    "update_mergeclause_eclasses rt c = Some (Inr (c\<lparr>left_ec := l, right_ec := r\<rparr>))"
    "rinfo_canonical rt (c\<lparr>left_ec := l, right_ec := r\<rparr>)"
proof -
  obtain l where l: "chase_ec (ec_heap rt) (left_ec c) = Some l"
    using chase_ec_returns [OF assms(1)] by blast
  obtain r where r: "chase_ec (ec_heap rt) (right_ec c) = Some r"
    using chase_ec_returns [OF assms(1)] by blast
  show ?thesis
    by (rule that [OF l r]) (simp_all add: assms(2) update_mergeclause_eclasses_def l r rinfo_canonical_def
        chase_ec_canonical [OF l] chase_ec_canonical [OF r])
qed

lemma update_mergeclause_id: "rinfo_canonical rt r \<Longrightarrow> update_mergeclause_eclasses rt r = Some (Inr r)"
  by (simp add: rinfo_canonical_def update_mergeclause_eclasses_def chase_ec_top)

lemma update_all_returns:
  assumes "ec_links_wf (ec_heap rt)" "\<forall>c\<in>set cs. mergeopfamilies c \<noteq> []"
  shows "\<exists>rs. update_all_eclasses rt cs = Some (Inr rs) \<and> (\<forall>r\<in>set rs. rinfo_canonical rt r)"
  using assms(2)
proof (induction cs)
  case (Cons c cs)
  then obtain rs where rs: "update_all_eclasses rt cs = Some (Inr rs)" "\<forall>r\<in>set rs. rinfo_canonical rt r"
    by auto
  obtain r where "update_mergeclause_eclasses rt c = Some (Inr r)" "rinfo_canonical rt r"
    using update_mergeclause_returns [OF assms(1), of c] Cons.prems by auto
  with rs show ?case by simp
qed simp

abbreviation clauses_of :: "RestrictInfo list \<Rightarrow> PathKey \<Rightarrow> RestrictInfo list" where
  "clauses_of rinfos pk \<equiv> filter (\<lambda>r. outer_ec r = pk_eclass pk) rinfos"

lemma match_clauses_loop_eq:
  "match_clauses_loop pks rinfos acc =
     acc @ concat (takeWhile (\<lambda>m. m \<noteq> []) (map (clauses_of rinfos) pks))"
  by (induction pks rinfos acc rule: match_clauses_loop.induct) (auto simp: Let_def)

text \<open>What the keys made for the inner side look like after the clauses with inner classes \<open>S\<close>.\<close>

definition inner_keys_ok :: "PlannerInfo \<Rightarrow> PathKey list \<Rightarrow> ec_ptr set \<Rightarrow> bool" where
  "inner_keys_ok rt keys S \<longleftrightarrow>
     distinct (map pk_eclass keys) \<and>
     pk_eclass ` set keys = {e \<in> S. \<not> ec_has_const (ec_heap rt e)}"

lemma inner_keys_ok_insert:
  assumes "inner_keys_ok rt keys S" "pk_eclass pk = e"
  shows "inner_keys_ok rt (if pathkey_is_redundant rt pk keys then keys else keys @ [pk]) (insert e S)"
  using assms
  by (auto simp: inner_keys_ok_def pathkey_is_redundant_def EC_MUST_BE_REDUNDANT_def list_ex_iff)

lemma inner_keys_ok_cong: "ec_heap rt' = ec_heap rt \<Longrightarrow> inner_keys_ok rt' keys S = inner_keys_ok rt keys S"
  by (simp add: inner_keys_ok_def)

definition merge_state_ok :: "PlannerInfo \<Rightarrow> bool" where
  "merge_state_ok rt \<longleftrightarrow> canon_ok rt \<and> ec_merging_done rt"

lemma inner_step:
  assumes "merge_state_ok rt" "rinfo_canonical rt c" "outer_ec c = pk_eclass opk"
    "inner_keys_ok rt keys S"
  obtains rt' keys' where "merge_state_ok rt'" "canon_extends rt rt'"
    "inner_keys_ok rt' keys' (insert (inner_ec c) S)"
    "\<And>cs lop. inner_pathkeys_loop rt (c # cs) (Some opk) lop keys =
       inner_pathkeys_loop rt' cs (Some opk) lop keys'"
    "\<And>cs lop prev. (case prev of None \<Rightarrow> True | Some p \<Rightarrow> outer_ec c \<noteq> pk_eclass p) \<Longrightarrow>
       inner_pathkeys_loop rt (c # cs) prev (opk # lop) keys =
       inner_pathkeys_loop rt' cs (Some opk) lop keys'"
proof -
  let ?made = "if inner_ec c = outer_ec c then Some (Inr (opk, rt))
    else make_canonical_pathkey rt (inner_ec c) (pk_opfamily opk) (pk_strategy opk) (pk_nulls_first opk)"
  have "\<exists>pk rt'. ?made = Some (Inr (pk, rt')) \<and> pk_eclass pk = inner_ec c \<and> merge_state_ok rt' \<and>
      canon_extends rt rt'"
  proof (cases "inner_ec c = outer_ec c")
    case True
    with assms show ?thesis by simp
  next
    case False
    have "chase_ec (ec_heap rt) (inner_ec c) = Some (inner_ec c)"
      by (rule chase_ec_top) (rule rinfo_canonical_ecs [OF assms(2)])
    then obtain pk rt' where "make_canonical_pathkey rt (inner_ec c) (pk_opfamily opk)
        (pk_strategy opk) (pk_nulls_first opk) = Some (Inr (pk, rt'))"
      "pk_content pk = (inner_ec c, pk_opfamily opk, pk_strategy opk, pk_nulls_first opk)"
      "canon_ok rt'" "canon_extends rt rt'"
      using make_canonical_pathkey_works assms(1) unfolding merge_state_ok_def by metis
    with False assms(1) show ?thesis
      using canon_extends_fields(2) by (auto simp: pk_content_def merge_state_ok_def)
  qed
  then obtain pk rt' where made: "?made = Some (Inr (pk, rt'))" and pk: "pk_eclass pk = inner_ec c"
    and ok: "merge_state_ok rt'" and ext: "canon_extends rt rt'" by blast
  have "inner_keys_ok rt' keys S"
    using assms(4) inner_keys_ok_cong [OF canon_extends_fields(1) [OF ext]] by simp
  from inner_keys_ok_insert [OF this pk]
  show ?thesis
    by (intro that [OF ok ext])
      (simp_all add: update_mergeclause_id [OF assms(2)] assms(3) [symmetric] Let_def made
        split: option.splits)
qed

lemma inner_group:
  assumes "\<forall>c\<in>set cs. rinfo_canonical rt c \<and> outer_ec c = pk_eclass opk"
    "merge_state_ok rt" "inner_keys_ok rt keys S"
  shows "\<exists>rt' keys'. merge_state_ok rt' \<and> canon_extends rt rt' \<and>
    inner_keys_ok rt' keys' (S \<union> inner_ec ` set cs) \<and>
    (\<forall>rest lop. inner_pathkeys_loop rt (cs @ rest) (Some opk) lop keys =
       inner_pathkeys_loop rt' rest (Some opk) lop keys')"
  using assms
proof (induction cs arbitrary: rt keys S)
  case Nil
  then show ?case using canon_extends_refl by auto
next
  case (Cons c cs)
  then have c: "rinfo_canonical rt c" "outer_ec c = pk_eclass opk" by auto
  from inner_step [OF Cons.prems(2) c Cons.prems(3)] obtain rt1 keys1
    where s: "merge_state_ok rt1" "canon_extends rt rt1" "inner_keys_ok rt1 keys1 (insert (inner_ec c) S)"
      and eq: "\<And>cs lop. inner_pathkeys_loop rt (c # cs) (Some opk) lop keys =
        inner_pathkeys_loop rt1 cs (Some opk) lop keys1" by metis
  have "\<forall>c\<in>set cs. rinfo_canonical rt1 c \<and> outer_ec c = pk_eclass opk"
    using Cons.prems(1) canon_extends_fields(1) [OF s(2)] by (simp add: rinfo_canonical_def)
  from Cons.IH [OF this s(1,3)] obtain rt2 keys2 where "merge_state_ok rt2" "canon_extends rt1 rt2"
    "inner_keys_ok rt2 keys2 (insert (inner_ec c) S \<union> inner_ec ` set cs)"
    "\<forall>rest lop. inner_pathkeys_loop rt1 (cs @ rest) (Some opk) lop keys1 =
       inner_pathkeys_loop rt2 rest (Some opk) lop keys2" by blast
  then show ?case using canon_extends_trans [OF s(2)] eq by auto
qed

lemma inner_loop_matched:
  assumes "\<forall>r\<in>set rinfos. rinfo_canonical rt r" "merge_state_ok rt" "inner_keys_ok rt keys S"
    "distinct (map pk_eclass pks)" "\<And>p. prev = Some p \<Longrightarrow> pk_eclass p \<notin> pk_eclass ` set pks"
  shows "\<exists>rt' keys'. inner_pathkeys_loop rt
      (concat (takeWhile (\<lambda>m. m \<noteq> []) (map (clauses_of rinfos) pks))) prev pks keys =
        Some (Inr (keys', rt')) \<and> canon_ok rt' \<and> canon_extends rt rt' \<and>
      inner_keys_ok rt' keys'
        (S \<union> inner_ec ` set (concat (takeWhile (\<lambda>m. m \<noteq> []) (map (clauses_of rinfos) pks))))"
  using assms
proof (induction pks arbitrary: rt prev keys S)
  case Nil
  then show ?case by (simp add: merge_state_ok_def)
next
  case (Cons pk pks)
  show ?case
  proof (cases "clauses_of rinfos pk")
    case Nil
    then show ?thesis using Cons.prems by (simp add: merge_state_ok_def)
  next
    case (Cons c cs)
    have grp: "\<forall>x\<in>set (c # cs). rinfo_canonical rt x \<and> outer_ec x = pk_eclass pk"
      using Cons.prems(1) unfolding Cons [symmetric] by simp
    then have c: "rinfo_canonical rt c" "outer_ec c = pk_eclass pk" by auto
    have adv: "case prev of None \<Rightarrow> True | Some p \<Rightarrow> outer_ec c \<noteq> pk_eclass p"
      using Cons.prems(5) c(2) by (auto split: option.splits)
    from inner_step [OF Cons.prems(2) c Cons.prems(3)] obtain rt1 keys1
      where s: "merge_state_ok rt1" "canon_extends rt rt1" "inner_keys_ok rt1 keys1 (insert (inner_ec c) S)"
        and eq1: "\<And>cs lop. inner_pathkeys_loop rt (c # cs) prev (pk # lop) keys =
          inner_pathkeys_loop rt1 cs (Some pk) lop keys1" using adv by metis
    have "\<forall>x\<in>set cs. rinfo_canonical rt1 x \<and> outer_ec x = pk_eclass pk"
      using grp canon_extends_fields(1) [OF s(2)] by (simp add: rinfo_canonical_def)
    from inner_group [OF this s(1,3)] obtain rt2 keys2
      where t: "merge_state_ok rt2" "canon_extends rt1 rt2"
        "inner_keys_ok rt2 keys2 (insert (inner_ec c) S \<union> inner_ec ` set cs)"
        and eq2: "\<forall>rest lop. inner_pathkeys_loop rt1 (cs @ rest) (Some pk) lop keys1 =
          inner_pathkeys_loop rt2 rest (Some pk) lop keys2" by blast
    have ext: "canon_extends rt rt2" using s(2) t(2) by (rule canon_extends_trans)
    have "\<forall>r\<in>set rinfos. rinfo_canonical rt2 r"
      using Cons.prems(1) canon_extends_fields(1) [OF ext] by (simp add: rinfo_canonical_def)
    let ?rest = "concat (takeWhile (\<lambda>m. m \<noteq> []) (map (clauses_of rinfos) pks))"
    from Cons.IH [OF \<open>\<forall>r\<in>set rinfos. rinfo_canonical rt2 r\<close> t(1,3), of "Some pk"] Cons.prems(4)
    obtain rt3 keys3
      where u: "inner_pathkeys_loop rt2 ?rest (Some pk) pks keys2 = Some (Inr (keys3, rt3))"
        "canon_ok rt3" "canon_extends rt2 rt3"
        "inner_keys_ok rt3 keys3 (insert (inner_ec c) S \<union> inner_ec ` set cs \<union> inner_ec ` set ?rest)"
      by auto
    have all: "concat (takeWhile (\<lambda>m. m \<noteq> []) (map (clauses_of rinfos) (pk # pks))) = c # cs @ ?rest"
      using Cons by simp
    have "inner_pathkeys_loop rt (c # cs @ ?rest) prev (pk # pks) keys = Some (Inr (keys3, rt3))"
      using eq1 [of "cs @ ?rest" pks] eq2 u(1) by (simp only:)
    moreover have "insert (inner_ec c) S \<union> inner_ec ` set cs \<union> inner_ec ` set ?rest =
        S \<union> inner_ec ` set (c # cs @ ?rest)" by auto
    ultimately show ?thesis using u canon_extends_trans [OF ext u(3)] unfolding all by (metis (no_types))
  qed
qed

text \<open>Trimming keeps a prefix whose inner classes run through the given keys in order.\<close>

lemma trim_loop_spec:
  "\<exists>ys. trim_loop e lip m cs acc = acc @ ys \<and> prefix ys cs \<and>
     (if m then prefix (remdups_adj (e # map inner_ec ys)) (e # map pk_eclass lip)
      else prefix (remdups_adj (map inner_ec ys)) (e # map pk_eclass lip))"
proof (induction e lip m cs acc rule: trim_loop.induct)
  case (1 e lip m acc)
  then show ?case by auto
next
  case (2 e lip m r rs acc)
  show ?case
  proof (cases "inner_ec r = e")
    case True
    from "2.IH"(2) [OF refl] True obtain ys where
      "trim_loop e lip True rs (acc @ [r]) = acc @ r # ys" "prefix ys rs"
      "prefix (remdups_adj (e # map inner_ec ys)) (e # map pk_eclass lip)" by auto
    with True show ?thesis by (intro exI [of _ "r # ys"]) auto
  next
    case False
    show ?thesis
    proof (cases "\<exists>pk lip'. m \<and> lip = pk # lip' \<and> inner_ec r = pk_eclass pk")
      case True
      then obtain pk lip' where t: "m" "lip = pk # lip'" "inner_ec r = pk_eclass pk" by blast
      from "2.IH"(1) [OF refl False _ t(2,3)] t(1) obtain ys where
        "trim_loop (pk_eclass pk) lip' True rs (acc @ [r]) = acc @ r # ys" "prefix ys rs"
        "prefix (remdups_adj (pk_eclass pk # map inner_ec ys)) (pk_eclass pk # map pk_eclass lip')"
        by auto
      with False t show ?thesis by (intro exI [of _ "r # ys"]) auto
    next
      case none: False
      then have "trim_loop e lip m (r # rs) acc = acc @ []"
        using False by (cases lip) auto
      then show ?thesis by (intro exI [of _ "[]"]) auto
    qed
  qed
qed


section \<open>The outer sort order of a merge join\<close>

definition live_ecs :: "(ec_ptr \<times> int) list \<Rightarrow> ec_ptr list" where
  "live_ecs ecs = map fst (filter (\<lambda>e. 0 \<le> snd e) ecs)"

lemma live_ecs_simps [simp]:
  "live_ecs [] = []"
  "live_ecs (e # ecs) = (if 0 \<le> snd e then fst e # live_ecs ecs else live_ecs ecs)"
  by (simp_all add: live_ecs_def)

lemma live_ecs_subset: "set (live_ecs ecs) \<subseteq> fst ` set ecs"
  by (auto simp: live_ecs_def)

lemma outer_ecs_loop_spec:
  assumes "ec_links_wf (ec_heap rt)" "distinct (map fst acc)"
    "\<forall>e\<in>set acc. 0 \<le> snd e \<and> ec_merged (ec_heap rt (fst e)) = None"
    "update_all_eclasses rt cs = Some (Inr rs)"
  shows "\<exists>ecs. outer_ecs_loop rt rels cs acc = Some (Inr ecs) \<and> distinct (map fst ecs) \<and>
    (\<forall>e\<in>set ecs. 0 \<le> snd e \<and> ec_merged (ec_heap rt (fst e)) = None) \<and>
    fst ` set ecs = fst ` set acc \<union> outer_ec ` set rs \<and> length ecs \<le> length acc + length cs"
  using assms
proof (induction cs arbitrary: acc rs)
  case (Cons c cs)
  obtain r rs' where rs: "update_mergeclause_eclasses rt c = Some (Inr r)" "update_all_eclasses rt cs = Some (Inr rs')" "rs = r # rs'"
    using Cons.prems(4) by (auto simp: run_bind_eq_Inr)
  have "mergeopfamilies c \<noteq> []" using rs(1) by (auto simp: update_mergeclause_eclasses_def)
  then have r: "update_mergeclause_eclasses rt c = Some (Inr r)" "rinfo_canonical rt r"
    using rs(1) update_mergeclause_returns [OF assms(1), of c] by auto
  note rs = rs(2,3)
  show ?case
  proof (cases "outer_ec r \<in> fst ` set acc")
    case True
    then have "fst ` set acc \<union> outer_ec ` set rs = fst ` set acc \<union> outer_ec ` set rs'"
      unfolding rs(2) by (simp add: insert_absorb)
    with True Cons.IH [OF assms(1) Cons.prems(2,3) rs(1)] r show ?thesis
      by (auto simp: Let_def)
  next
    case False
    let ?acc = "acc @ [(outer_ec r, ec_score rt rels (outer_ec r))]"
    have "distinct (map fst ?acc)" using False Cons.prems(2) by auto
    moreover have "\<forall>e\<in>set ?acc. 0 \<le> snd e \<and> ec_merged (ec_heap rt (fst e)) = None"
      using Cons.prems(3) rinfo_canonical_ecs(2) [OF r(2)] by (auto simp: ec_score_def)
    ultimately show ?thesis using Cons.IH [OF assms(1) _ _ rs(1), of ?acc] False r rs(2)
      by (auto simp: Let_def)
  qed
qed auto

lemma mark_emitted_fst [simp]: "map fst (mark_emitted ec ecs) = map fst ecs"
  by (induction ec ecs rule: mark_emitted.induct) auto

lemma mark_emitted_live:
  "distinct (map fst ecs) \<Longrightarrow> set (live_ecs (mark_emitted ec ecs)) = set (live_ecs ecs) - {ec}"
proof (induction ec ecs rule: mark_emitted.induct)
  case (2 ec e s ecs)
  then have "e \<notin> set (live_ecs ecs)" using live_ecs_subset [of ecs] by auto
  with 2 show ?case by (cases "e = ec") auto
qed simp

lemma fold_mark_emitted:
  "distinct (map fst ecs) \<Longrightarrow>
     map fst (fold (\<lambda>q. mark_emitted (pk_eclass q)) qs ecs) = map fst ecs \<and>
     set (live_ecs (fold (\<lambda>q. mark_emitted (pk_eclass q)) qs ecs)) =
       set (live_ecs ecs) - pk_eclass ` set qs"
  by (induction qs arbitrary: ecs) (auto simp: mark_emitted_live)

lemma best_score_max:
  "best_score_loop scores j b s = (b', s') \<Longrightarrow> s \<le> s' \<and> (\<forall>x\<in>set scores. x \<le> s')"
  by (induction scores j b s rule: best_score_loop.induct) (fastforce split: if_splits)+

lemma live_ecs_update:
  assumes "b < length ecs" "0 \<le> snd (ecs ! b)" "distinct (map fst ecs)"
  shows "set (live_ecs (ecs[b := (fst (ecs ! b), - 1)])) = set (live_ecs ecs) - {fst (ecs ! b)}"
  using assms
proof (induction ecs arbitrary: b)
  case (Cons e ecs)
  have e: "fst e \<notin> set (live_ecs ecs)" using live_ecs_subset [of ecs] Cons.prems(3) by auto
  show ?case
  proof (cases b)
    case 0
    with e Cons.prems show ?thesis by auto
  next
    case (Suc b')
    then have "fst (ecs ! b') \<noteq> fst e" using Cons.prems nth_mem [of b' ecs] by (metis Suc_less_eq distinct.simps(2) image_eqI length_Cons list.set_map list.simps(9))
    with Suc Cons.IH [of b'] Cons.prems show ?thesis by auto
  qed
qed simp

lemma best_score_negative:
  assumes "best_score_index ecs = (b, s)" "s < 0"
  shows "live_ecs ecs = []"
proof -
  have "snd e \<le> s" if "e \<in> set ecs" for e
    using best_score_max [OF assms(1) [unfolded best_score_index_def]] that
    by (cases ecs) (auto simp: image_iff)
  then show ?thesis using assms(2) by (force simp: live_ecs_def filter_empty_conv)
qed

lemma emit_step:
  assumes "merge_state_ok rt" "ecs \<noteq> []" "\<forall>e\<in>set ecs. ec_merged (ec_heap rt (fst e)) = None"
    "best_score_index ecs = (b, s)" "0 \<le> s"
    "\<not> ec_has_const (ec_heap rt (fst (ecs ! b)))" "fst (ecs ! b) \<notin> pk_eclass ` set keys"
  obtains pk rt1 where "emit_loop rt ecs keys = emit_loop rt1 (ecs[b := (fst (ecs ! b), - 1)]) (keys @ [pk])"
    "pk_eclass pk = fst (ecs ! b)" "merge_state_ok rt1" "canon_extends rt rt1"
proof -
  let ?ec = "fst (ecs ! b)"
  have b: "b < length ecs" using best_score_index_correct [OF assms(4,2)] by simp
  have st: "canon_ok rt" "ec_merging_done rt" using assms(1) by (simp_all add: merge_state_ok_def)
  have chase: "chase_ec (ec_heap rt) ?ec = Some ?ec"
    by (rule chase_ec_top) (use assms(3) b in simp)
  obtain pk rt1 where mk: "make_canonical_pathkey rt ?ec (hd (ec_opfamilies (ec_heap rt ?ec)))
        BTLessStrategyNumber False = Some (Inr (pk, rt1))"
      "pk_content pk = (?ec, hd (ec_opfamilies (ec_heap rt ?ec)), BTLessStrategyNumber, False)"
      "pk \<in> set (canon_pathkeys rt1)" "canon_ok rt1" "canon_extends rt rt1"
    by (rule make_canonical_pathkey_works [OF st chase])
  have "\<not> pathkey_is_redundant rt1 pk keys"
    using assms(6,7) mk(2) canon_extends_fields(1) [OF mk(5)]
    by (auto simp: pathkey_is_redundant_def EC_MUST_BE_REDUNDANT_def list_ex_iff pk_content_def)
  then have eq: "emit_loop rt ecs keys = emit_loop rt1 (ecs[b := (?ec, - 1)]) (keys @ [pk])"
    unfolding emit_loop.simps [of rt ecs keys] using assms(2,4,5) mk(1) by (simp add: Let_def)
  show ?thesis
    by (rule that [OF eq])
      (use mk st canon_extends_fields(2) [OF mk(5)] in \<open>simp_all add: pk_content_def merge_state_ok_def\<close>)
qed

lemma emit_loop_spec:
  assumes "merge_state_ok rt" "ecs \<noteq> []" "distinct (map fst ecs)"
    "\<forall>e\<in>set ecs. ec_merged (ec_heap rt (fst e)) = None"
    "\<forall>e\<in>set (live_ecs ecs). \<not> ec_has_const (ec_heap rt e)" "set (live_ecs ecs) \<inter> pk_eclass ` set keys = {}"
  shows "\<exists>keys' rt'. emit_loop rt ecs keys = Some (Inr (keys @ keys', rt')) \<and> canon_ok rt' \<and>
    canon_extends rt rt' \<and> distinct (map pk_eclass keys') \<and> pk_eclass ` set keys' = set (live_ecs ecs)"
  using assms
proof (induction "length (live_ecs ecs)" arbitrary: rt ecs keys rule: less_induct)
  case less
  obtain b s where bs: "best_score_index ecs = (b, s)" by force
  have b: "b < length ecs" "snd (ecs ! b) = s"
    using best_score_index_correct [OF bs less.prems(2)] by auto
  show ?case
  proof (cases "s < 0")
    case True
    then have "emit_loop rt ecs keys = Some (Inr (keys @ [], rt))"
      using less.prems(2) bs by (simp add: emit_loop.simps [of rt ecs keys])
    moreover have "live_ecs ecs = []" by (rule best_score_negative [OF bs True])
    ultimately show ?thesis using less.prems(1) unfolding merge_state_ok_def
      by (intro exI [of _ "[]"] exI [of _ rt]) simp
  next
    case False
    let ?ec = "fst (ecs ! b)" and ?ecs = "ecs[b := (fst (ecs ! b), - 1)]"
    have mem: "?ec \<in> set (live_ecs ecs)" using False b by (force simp: live_ecs_def)
    then have "\<not> ec_has_const (ec_heap rt ?ec)" "?ec \<notin> pk_eclass ` set keys" using less.prems(5,6) by auto
    from False emit_step [OF less.prems(1,2,4) bs _ this] obtain pk rt1 where
      step: "emit_loop rt ecs keys = emit_loop rt1 ?ecs (keys @ [pk])"
      and pk: "pk_eclass pk = ?ec" and st: "merge_state_ok rt1" and ext: "canon_extends rt rt1"
      by (metis not_less)
    have live: "set (live_ecs ?ecs) = set (live_ecs ecs) - {?ec}"
      using False b less.prems(3) by (intro live_ecs_update) auto
    have fsts: "map fst ?ecs = map fst ecs" using b(1) by (simp add: map_update list_update_same_conv)
    then have fset: "fst ` set ?ecs = fst ` set ecs" by (metis set_map)
    have "length (live_ecs ?ecs) < length (live_ecs ecs)"
      unfolding live_ecs_def length_map using b False by (intro filter_update_less) auto
    moreover have "\<forall>e\<in>set ?ecs. ec_merged (ec_heap rt1 (fst e)) = None"
    proof
      fix e assume "e \<in> set ?ecs"
      then have "fst e \<in> fst ` set ecs" unfolding fset [symmetric] by (rule imageI)
      then show "ec_merged (ec_heap rt1 (fst e)) = None"
        using less.prems(4) canon_extends_fields(1) [OF ext] by auto
    qed
    moreover have "?ecs \<noteq> []" "distinct (map fst ?ecs)" using less.prems(2,3) fsts by simp_all
    moreover have "\<forall>e\<in>set (live_ecs ?ecs). \<not> ec_has_const (ec_heap rt1 e)"
      using less.prems(5) live canon_extends_fields(1) [OF ext] by simp
    moreover have "set (live_ecs ?ecs) \<inter> pk_eclass ` set (keys @ [pk]) = {}" using less.prems(6) live pk by auto
    ultimately obtain keys' rt' where
      r: "emit_loop rt1 ?ecs (keys @ [pk]) = Some (Inr ((keys @ [pk]) @ keys', rt'))" "canon_ok rt'"
        "canon_extends rt1 rt'" "distinct (map pk_eclass keys')"
        "pk_eclass ` set keys' = set (live_ecs ?ecs)"
      using less.hyps [OF _ st] by blast
    have "emit_loop rt ecs keys = Some (Inr (keys @ (pk # keys'), rt'))" using step r(1) by simp
    moreover have "distinct (map pk_eclass (pk # keys'))" using r(4,5) live pk by auto
    moreover have "pk_eclass ` set (pk # keys') = set (live_ecs ecs)" using r(5) live pk mem by auto
    ultimately show ?thesis using r(2) canon_extends_trans [OF ext r(3)] by blast
  qed
qed

lemma select_outer_covers:
  assumes "merge_state_ok rt" "ec_links_wf (ec_heap rt)" "distinct (map pk_eclass (query_pathkeys rt))"
    "update_all_eclasses rt clauses = Some (Inr rs)" "\<forall>r\<in>set rs. \<not> ec_has_const (ec_heap rt (outer_ec r))"
  shows "\<exists>keys rt'. select_outer_pathkeys_for_merge rt clauses joinrel = Some (Inr (keys, rt')) \<and>
    canon_ok rt' \<and> distinct (map pk_eclass keys) \<and> outer_ec ` set rs \<subseteq> pk_eclass ` set keys"
proof (cases "clauses = []")
  case True
  with assms show ?thesis by (simp add: select_outer_pathkeys_for_merge_def merge_state_ok_def)
next
  case False
  let ?q = "query_pathkeys rt"
  obtain ecs where ecs: "outer_ecs_loop rt (relids joinrel) clauses [] = Some (Inr ecs)" "distinct (map fst ecs)"
      "\<forall>e\<in>set ecs. 0 \<le> snd e \<and> ec_merged (ec_heap rt (fst e)) = None"
      "fst ` set ecs = outer_ec ` set rs" "length ecs \<le> length clauses"
    using outer_ecs_loop_spec [OF assms(2) _ _ assms(4), of "[]" "relids joinrel"] by auto
  have "length rs = length clauses" using assms(4)
    by (induction clauses arbitrary: rs) (auto simp: run_bind_eq_Inr)
  then have ne: "ecs \<noteq> []" using False ecs(4) by auto
  have live: "set (live_ecs ecs) = outer_ec ` set rs"
    using ecs(3,4) by (force simp: live_ecs_def)
  have plain: ?thesis if "select_outer_pathkeys_for_merge rt clauses joinrel = emit_loop rt ecs []"
    using emit_loop_spec [OF assms(1) ne ecs(2), of "[]"] ecs(3) live that assms(5) by auto
  consider (none) "?q = []" | (all) "?q \<noteq> []" "query_matches ecs ?q = length ?q"
    | (pref) "?q \<noteq> []" "query_matches ecs ?q \<noteq> length ?q" "query_matches ecs ?q = length clauses"
    | (other) "?q \<noteq> []" "query_matches ecs ?q \<noteq> length ?q" "query_matches ecs ?q \<noteq> length clauses"
    by blast
  then show ?thesis
  proof cases
    case none
    then show ?thesis using False ecs(1)
      by (intro plain) (simp add: select_outer_pathkeys_for_merge_def)
  next
    case other
    then show ?thesis using False ecs(1)
      by (intro plain) (simp add: select_outer_pathkeys_for_merge_def Let_def)
  next
    case all
    let ?m = "fold (\<lambda>q. mark_emitted (pk_eclass q)) ?q ecs"
    have m: "map fst ?m = map fst ecs" "set (live_ecs ?m) = outer_ec ` set rs - pk_eclass ` set ?q"
      using fold_mark_emitted [OF ecs(2), of ?q] live by auto
    have "?m \<noteq> []" "distinct (map fst ?m)" using m(1) ne ecs(2) by (metis map_is_Nil_conv)+
    moreover have "\<forall>e\<in>set ?m. ec_merged (ec_heap rt (fst e)) = None"
    proof
      fix e assume "e \<in> set ?m"
      then have "fst e \<in> set (map fst ?m)" by simp
      then show "ec_merged (ec_heap rt (fst e)) = None" unfolding m(1) using ecs(3) by auto
    qed
    moreover have "\<forall>e\<in>set (live_ecs ?m). \<not> ec_has_const (ec_heap rt e)"
      "set (live_ecs ?m) \<inter> pk_eclass ` set ?q = {}" using m(2) assms(5) by auto
    ultimately obtain keys' rt' where r: "emit_loop rt ?m ?q = Some (Inr (?q @ keys', rt'))" "canon_ok rt'"
        "distinct (map pk_eclass keys')" "pk_eclass ` set keys' = set (live_ecs ?m)"
      using emit_loop_spec [OF assms(1), of ?m ?q] by blast
    have "select_outer_pathkeys_for_merge rt clauses joinrel = Some (Inr (?q @ keys', rt'))"
      using False ecs(1) all r(1) by (simp add: select_outer_pathkeys_for_merge_def Let_def)
    moreover have "distinct (map pk_eclass (?q @ keys'))" using r(3,4) assms(3) m(2) by auto
    moreover have "outer_ec ` set rs \<subseteq> pk_eclass ` set (?q @ keys')" using r(4) m(2) by auto
    ultimately show ?thesis using r(2) by blast
  next
    case pref
    define n where "n = query_matches ecs ?q"
    let ?k = "take n ?q"
    have k: "?k = takeWhile (\<lambda>q. pk_eclass q \<in> set (map fst ecs)) ?q"
      unfolding n_def query_matches_def by (metis takeWhile_eq_take)
    have d: "distinct (map pk_eclass ?k)" using assms(3) by (simp add: take_map [symmetric])
    have sub: "set (map pk_eclass ?k) \<subseteq> set (map fst ecs)"
      unfolding k by (auto dest: set_takeWhileD)
    have "n \<le> length ?q" unfolding n_def query_matches_def by (rule length_takeWhile_le)
    then have "card (set (map pk_eclass ?k)) = n"
      unfolding distinct_card [OF d] by simp
    moreover have "card (set (map fst ecs)) \<le> n"
      using distinct_card [OF ecs(2)] ecs(5) pref(3) by (simp add: n_def)
    ultimately have "set (map pk_eclass ?k) = set (map fst ecs)"
      using sub by (intro card_seteq) simp_all
    then have "outer_ec ` set rs \<subseteq> pk_eclass ` set ?k" using ecs(4) by simp
    moreover have "select_outer_pathkeys_for_merge rt clauses joinrel = Some (Inr (?k, rt))"
      using False ecs(1) pref by (simp add: select_outer_pathkeys_for_merge_def Let_def n_def)
    ultimately show ?thesis using d assms(1) unfolding merge_state_ok_def by blast
  qed
qed

section \<open>Usefulness\<close>

text \<open>A key is useful for merging if its direction fits and some class or clause of the relation can be merged on it.\<close>

definition clause_on :: "PlannerInfo \<Rightarrow> PathKey \<Rightarrow> RestrictInfo \<Rightarrow> bool" where
  "clause_on rt pk r \<longleftrightarrow> mergeopfamilies r \<noteq> [] \<and>
     Some (pk_eclass pk) \<in> {chase_ec (ec_heap rt) (left_ec r), chase_ec (ec_heap rt) (right_ec r)}"

definition merge_useful :: "PlannerInfo \<Rightarrow> RelOptInfo \<Rightarrow> PathKey \<Rightarrow> bool" where
  "merge_useful rt rel pk \<longleftrightarrow> right_merge_direction rt pk \<and>
     (has_eclass_joins rel \<and> eclass_useful_for_merging rt (pk_eclass pk) rel = Inr True \<or>
      (\<exists>r\<in>set (joininfo rel). clause_on rt pk r))"

lemma joininfo_matches_eq:
  assumes "ec_links_wf (ec_heap rt)"
  shows "joininfo_matches rt pk rs = Some (Inr (\<exists>r\<in>set rs. clause_on rt pk r))"
proof (induction rs)
  case (Cons c rs)
  show ?case
  proof (cases "mergeopfamilies c = []")
    case True
    then show ?thesis using Cons by (simp add: clause_on_def)
  next
    case False
    from update_mergeclause_returns [OF assms this] obtain l r where
      "chase_ec (ec_heap rt) (left_ec c) = Some l" "chase_ec (ec_heap rt) (right_ec c) = Some r"
      "update_mergeclause_eclasses rt c = Some (Inr (c\<lparr>left_ec := l, right_ec := r\<rparr>))" by metis
    then show ?thesis using Cons False by (auto simp: clause_on_def)
  qed
qed simp

definition parent_known :: "RelOptInfo \<Rightarrow> bool" where
  "parent_known rel \<longleftrightarrow> (if IS_OTHER_REL rel then top_parent_relids rel \<noteq> None else True)"

lemma useful_for_merging_eq:
  assumes "ec_links_wf (ec_heap rt)" "\<forall>pk\<in>set pks. ec_merged (ec_heap rt (pk_eclass pk)) = None" "parent_known rel"
  shows "useful_for_merging_loop rt rel pks u = Some (Inr (u + length (takeWhile (merge_useful rt rel) pks)))"
  using assms(2)
proof (induction pks arbitrary: u)
  case (Cons pk pks)
  have "\<exists>b. eclass_useful_for_merging rt (pk_eclass pk) rel = Inr b"
    using Cons.prems assms(3) by (auto simp: eclass_useful_for_merging_def parent_known_def bms_is_empty_def Let_def split: if_splits)
  then obtain b where b: "eclass_useful_for_merging rt (pk_eclass pk) rel = Inr b" by blast
  show ?case using Cons by (simp add: merge_useful_def b joininfo_matches_eq [OF assms(1)])
qed simp

lemma useful_for_ordering_le: "pathkeys_useful_for_ordering rt pks \<le> length pks"
  using prefix_length_le [OF longest_common_prefix_prefix2 [of "pk_addrs (query_pathkeys rt)" "pk_addrs pks"]]
  by (simp add: pathkeys_useful_for_ordering_def pathkeys_count_contained_in_eq pk_addrs_def)

section \<open>Correctness\<close>

text \<open>A small planner state with no keys yet, and a join relation without paths.\<close>

definition sample_planner :: PlannerInfo where
  "sample_planner =
     \<lparr>rtable_alias = [''a'', ''b''], all_baserels = mk_bms [6], all_query_rels = mk_bms [6], placeholder_list = [],
      hasLateralRTEs = False, tuple_fraction = 0, join_info_list = [],
      ec_merging_done = True,
      ec_heap = (\<lambda>_. \<lparr>ec_opfamilies = [1976], ec_members = [], ec_relids = None,
                      ec_has_const = False, ec_merged = None\<rparr>),
      canon_pathkeys = [], query_pathkeys = []\<rparr>"

definition sample_rel :: RelOptInfo where
  "sample_rel =
     \<lparr>reloptkind = RELOPT_JOINREL, relids = mk_bms [6], rel_rows = 100, rel_consider_startup = False,
      rel_consider_param_startup = False, consider_parallel = True, pathlist = [],
      partial_pathlist = [], cheapest_startup_path = None, cheapest_total_path = None,
      cheapest_unique_path = None, cheapest_parameterized_paths = [], direct_lateral_relids = None,
      lateral_relids = None, lateral_referencers = None, joininfo = [], has_eclass_joins = False,
      top_parent_relids = None\<rparr>"

lemma sample_planner_ok:
  "canon_ok sample_planner" "ec_merging_done sample_planner" "ec_links_wf (ec_heap sample_planner)"
  "merge_state_ok sample_planner" "distinct (map pk_eclass (query_pathkeys sample_planner))"
  by (simp_all add: sample_planner_def canon_ok_def ec_links_wf_def merge_state_ok_def)

text \<open>C20. Canonical keys: once equivalence classes are merged, two requests for a path key return
  the same pointer exactly when they name the same top class, operator family, direction and
  null ordering, and the list of canonical keys keeps its invariant.\<close>

theorem canonical_pathkey_identity:
  assumes "canon_ok rt" and "ec_merging_done rt" and "ec_links_wf (ec_heap rt)"
  shows "\<exists>pk1 rt1 pk2 rt2.
    make_canonical_pathkey rt ec1 f1 s1 n1 = Some (Inr (pk1, rt1)) \<and>
    make_canonical_pathkey rt1 ec2 f2 s2 n2 = Some (Inr (pk2, rt2)) \<and> canon_ok rt2 \<and>
    (pk_addr pk1 = pk_addr pk2 \<longleftrightarrow>
       chase_ec (ec_heap rt) ec1 = chase_ec (ec_heap rt) ec2 \<and> f1 = f2 \<and> s1 = s2 \<and> n1 = n2)"
proof -
  obtain t1 t2 where t: "chase_ec (ec_heap rt) ec1 = Some t1" "chase_ec (ec_heap rt) ec2 = Some t2"
    using chase_ec_returns [OF assms(3)] by metis
  obtain pk1 rt1 where a: "make_canonical_pathkey rt ec1 f1 s1 n1 = Some (Inr (pk1, rt1))"
      "pk_content pk1 = (t1, f1, s1, n1)" "pk1 \<in> set (canon_pathkeys rt1)" "canon_ok rt1"
      "canon_extends rt rt1"
    by (rule make_canonical_pathkey_works [OF assms(1,2) t(1)])
  have rt1: "ec_merging_done rt1" "chase_ec (ec_heap rt1) ec2 = Some t2"
    using canon_extends_fields [OF a(5)] assms(2) t(2) by simp_all
  obtain pk2 rt2 where b: "make_canonical_pathkey rt1 ec2 f2 s2 n2 = Some (Inr (pk2, rt2))"
      "pk_content pk2 = (t2, f2, s2, n2)" "pk2 \<in> set (canon_pathkeys rt2)" "canon_ok rt2"
      "canon_extends rt1 rt2"
    by (rule make_canonical_pathkey_works [OF a(4) rt1])
  have "pk1 \<in> set (canon_pathkeys rt2)" using a(3) canon_extends_fields(4) [OF b(5)] by blast
  from canon_addr_inj [OF b(4) this b(3)] have "pk_addr pk1 = pk_addr pk2 \<longleftrightarrow> pk_content pk1 = pk_content pk2"
    by simp
  then show ?thesis using a b t by auto
qed

theorem canonical_pathkey_identity_witness:
  "canon_ok sample_planner \<and>
   (\<exists>pk1 rt1 pk2 rt2. make_canonical_pathkey sample_planner 0 1976 1 False = Some (Inr (pk1, rt1)) \<and>
     make_canonical_pathkey rt1 0 1976 5 False = Some (Inr (pk2, rt2)) \<and> pk_addr pk1 \<noteq> pk_addr pk2)"
  using canonical_pathkey_identity [OF sample_planner_ok(1-3), of 0 1976 1 False 0 1976 5 False]
    sample_planner_ok(1) by fastforce

text \<open>Comparing sort orders: \<^verbatim>\<open>compare_pathkeys\<close> reports equality, a strict extension on either
  side, or neither, of the two lists of key pointers; \<^verbatim>\<open>pathkeys_contained_in\<close> tests for a prefix,
  and \<^verbatim>\<open>pathkeys_count_contained_in\<close> also returns the length of the longest common prefix.\<close>

theorem compare_pathkeys_prefix_order:
  fixes k1 k2 :: "PathKey list"
  defines "a1 \<equiv> map pk_addr k1" and "a2 \<equiv> map pk_addr k2"
  shows "(compare_pathkeys k1 k2 = PATHKEYS_EQUAL) = (a1 = a2) \<and>
    (compare_pathkeys k1 k2 = PATHKEYS_BETTER1) = strict_prefix a2 a1 \<and>
    (compare_pathkeys k1 k2 = PATHKEYS_BETTER2) = strict_prefix a1 a2 \<and>
    pathkeys_contained_in k1 k2 = prefix a1 a2 \<and>
    pathkeys_count_contained_in k1 k2 = (prefix a1 a2, length (longest_common_prefix a1 a2))"
  unfolding pathkeys_contained_in_iff pathkeys_count_contained_in_eq compare_pathkeys_eq
  by (auto simp: a1_def a2_def sorts_as_well_def pk_addrs_def strict_prefix_def)

definition sample_merge_clause :: "ec_ptr \<Rightarrow> ec_ptr \<Rightarrow> RestrictInfo" where
  "sample_merge_clause l r =
     \<lparr>is_pushed_down = False, required_relids = None, mergeopfamilies = [1976], left_ec = l, right_ec = r,
      outer_is_left = True, rinfo_addr = 0, rinfo_clause = OtherClause, has_clone = False, is_clone = False,
      incompatible_relids = None\<rparr>"

definition sample_key :: "nat \<Rightarrow> ec_ptr \<Rightarrow> PathKey" where
  "sample_key a e = \<lparr>pk_addr = a, pk_eclass = e, pk_opfamily = 1976, pk_strategy = 1, pk_nulls_first = False\<rparr>"

lemma sample_chase [simp]: "chase_ec (ec_heap sample_planner) e = Some e"
  by (rule chase_ec_top) (simp add: sample_planner_def)

text \<open>C15. Sorting a merge join: the merge clauses chosen for an outer sort order without repeated
  classes, among clauses that all have merge operator families, are accepted by
  \<^verbatim>\<open>make_inner_pathkeys_for_merge\<close> with the same outer order, without either of its errors and without
  a failed assertion. The inner sort order it builds has one key for each inner class of the clauses
  that is not bound to a constant, and no other key.\<close>

theorem merge_clauses_give_inner_order:
  assumes "canon_ok rt" and "ec_merging_done rt" and "ec_links_wf (ec_heap rt)"
    and "distinct (map pk_eclass outer_keys)" and "\<forall>r\<in>set rinfos. mergeopfamilies r \<noteq> []"
  shows "\<exists>clauses keys rt'.
    find_mergeclauses_for_outer_pathkeys rt outer_keys rinfos = Some (Inr clauses) \<and>
    make_inner_pathkeys_for_merge rt clauses outer_keys = Some (Inr (keys, rt')) \<and> canon_ok rt' \<and>
    distinct (map pk_eclass keys) \<and>
    pk_eclass ` set keys = {e \<in> inner_ec ` set clauses. \<not> ec_has_const (ec_heap rt e)}"
proof -
  obtain rs where rs: "update_all_eclasses rt rinfos = Some (Inr rs)" "\<forall>r\<in>set rs. rinfo_canonical rt r"
    using update_all_returns [OF assms(3,5)] by blast
  let ?cs = "concat (takeWhile (\<lambda>m. m \<noteq> []) (map (clauses_of rs) outer_keys))"
  have "inner_keys_ok rt [] {}" by (simp add: inner_keys_ok_def)
  then obtain rt' keys where r: "inner_pathkeys_loop rt ?cs None outer_keys [] = Some (Inr (keys, rt'))"
      "canon_ok rt'" "canon_extends rt rt'" "inner_keys_ok rt' keys ({} \<union> inner_ec ` set ?cs)"
    using inner_loop_matched [OF rs(2) _ _ assms(4), of "[]" "{}" None] assms(1,2)
    unfolding merge_state_ok_def by blast
  have "find_mergeclauses_for_outer_pathkeys rt outer_keys rinfos = Some (Inr ?cs)"
    by (simp add: find_mergeclauses_for_outer_pathkeys_def rs(1) match_clauses_loop_eq)
  moreover have "make_inner_pathkeys_for_merge rt ?cs outer_keys = Some (Inr (keys, rt'))"
    unfolding make_inner_pathkeys_for_merge_def by (rule r(1))
  moreover have "distinct (map pk_eclass keys)"
    and "pk_eclass ` set keys = {e \<in> inner_ec ` set ?cs. \<not> ec_has_const (ec_heap rt e)}"
    using r(4) canon_extends_fields(1) [OF r(3)] unfolding inner_keys_ok_def by simp_all
  ultimately show ?thesis using r(2) by blast
qed

theorem merge_clauses_give_inner_order_witness:
  "\<exists>keys rt'. find_mergeclauses_for_outer_pathkeys sample_planner [sample_key 0 3, sample_key 1 4]
       [sample_merge_clause 4 6, sample_merge_clause 3 5] = Some (Inr [sample_merge_clause 3 5, sample_merge_clause 4 6]) \<and>
     make_inner_pathkeys_for_merge sample_planner [sample_merge_clause 3 5, sample_merge_clause 4 6]
       [sample_key 0 3, sample_key 1 4] = Some (Inr (keys, rt')) \<and> pk_eclass ` set keys = {5, 6}"
proof -
  let ?keys = "[sample_key 0 3, sample_key 1 4]" and ?cs = "[sample_merge_clause 4 6, sample_merge_clause 3 5]"
  have find: "find_mergeclauses_for_outer_pathkeys sample_planner ?keys ?cs =
      Some (Inr [sample_merge_clause 3 5, sample_merge_clause 4 6])"
    by (simp add: find_mergeclauses_for_outer_pathkeys_def update_mergeclause_eclasses_def)
      (simp add: sample_merge_clause_def sample_key_def outer_ec_def Let_def)
  have "distinct (map pk_eclass ?keys)" "\<forall>r\<in>set ?cs. mergeopfamilies r \<noteq> []"
    by (simp_all add: sample_key_def sample_merge_clause_def)
  from merge_clauses_give_inner_order [OF sample_planner_ok(1-3) this] find obtain keys rt' where
    "make_inner_pathkeys_for_merge sample_planner [sample_merge_clause 3 5, sample_merge_clause 4 6] ?keys = Some (Inr (keys, rt'))"
    "pk_eclass ` set keys = {e \<in> inner_ec ` {sample_merge_clause 3 5, sample_merge_clause 4 6}.
       \<not> ec_has_const (ec_heap sample_planner e)}" by auto
  with find show ?thesis by (auto simp: inner_ec_def sample_merge_clause_def sample_planner_def)
qed

text \<open>C36. The outer sort order of a merge join: for merge clauses whose outer classes are not bound to a
  constant, \<^verbatim>\<open>select_outer_pathkeys_for_merge\<close> returns, without a failed assertion, a sort order without
  repeated classes that has a key for the outer class of each clause, whether or not it could reuse
  the query's requested order.\<close>

theorem select_outer_pathkeys_complete:
  assumes "canon_ok rt" and "ec_merging_done rt" and "ec_links_wf (ec_heap rt)"
    and "distinct (map pk_eclass (query_pathkeys rt))"
    and "update_all_eclasses rt clauses = Some (Inr rs)"
    and "\<forall>r\<in>set rs. \<not> ec_has_const (ec_heap rt (outer_ec r))"
  shows "\<exists>keys rt'. select_outer_pathkeys_for_merge rt clauses joinrel = Some (Inr (keys, rt')) \<and>
    canon_ok rt' \<and> distinct (map pk_eclass keys) \<and> outer_ec ` set rs \<subseteq> pk_eclass ` set keys"
  using select_outer_covers [OF _ assms(3-6)] assms(1,2) unfolding merge_state_ok_def by blast

theorem select_outer_pathkeys_complete_witness:
  "\<exists>keys rt'. select_outer_pathkeys_for_merge sample_planner [sample_merge_clause 3 5, sample_merge_clause 4 6] sample_rel =
        Some (Inr (keys, rt')) \<and> distinct (map pk_eclass keys) \<and> {3, 4} \<subseteq> pk_eclass ` set keys"
proof -
  let ?cs = "[sample_merge_clause 3 5, sample_merge_clause 4 6]"
  have "update_all_eclasses sample_planner ?cs = Some (Inr ?cs)"
    by (simp add: update_mergeclause_eclasses_def) (simp add: sample_merge_clause_def)
  moreover have "\<forall>r\<in>set ?cs. \<not> ec_has_const (ec_heap sample_planner (outer_ec r))" by (simp add: sample_planner_def)
  ultimately show ?thesis
    using select_outer_pathkeys_complete [OF sample_planner_ok(1-3,5), of ?cs ?cs sample_rel]
    by (auto simp: outer_ec_def sample_merge_clause_def)
qed

text \<open>Trimming merge clauses to an inner sort order keeps a prefix of them whose inner classes,
  with adjacent repetitions removed, follow the keys of that order from its beginning.\<close>

theorem trim_mergeclauses_follow_order:
  "prefix (trim_mergeclauses_for_inner_pathkeys clauses keys) clauses \<and>
   prefix (remdups_adj (map inner_ec (trim_mergeclauses_for_inner_pathkeys clauses keys)))
     (map pk_eclass keys)"
proof (cases keys)
  case Nil
  then show ?thesis by (simp add: trim_mergeclauses_for_inner_pathkeys_def)
next
  case (Cons k ks)
  then show ?thesis using trim_loop_spec [of "pk_eclass k" ks False clauses "[]"]
    by (auto simp: trim_mergeclauses_for_inner_pathkeys_def)
qed

text \<open>C37. Useful sort orders: for keys of classes that were not merged into others,
  \<^verbatim>\<open>truncate_useless_pathkeys\<close> ends without a failed assertion and returns the longest prefix that is useful:
  its keys are all useful for merging, or all shared with the query's requested order. The result is
  empty for every list when the cheap test \<^verbatim>\<open>has_useful_pathkeys\<close> says that no path key of the relation is
  useful.\<close>

theorem truncate_useless_pathkeys_in_sync:
  assumes "ec_links_wf (ec_heap rt)" and "\<forall>pk\<in>set pks. ec_merged (ec_heap rt (pk_eclass pk)) = None" and "parent_known rel"
  shows "\<exists>keys. truncate_useless_pathkeys rt rel pks = Some (Inr keys) \<and> prefix keys pks \<and>
    length keys = max (length (takeWhile (merge_useful rt rel) pks))
      (length (longest_common_prefix (pk_addrs (query_pathkeys rt)) (pk_addrs pks))) \<and>
    (\<not> has_useful_pathkeys rt rel \<longrightarrow> keys = [])"
proof -
  let ?n = "length (takeWhile (merge_useful rt rel) pks)"
  let ?o = "length (longest_common_prefix (pk_addrs (query_pathkeys rt)) (pk_addrs pks))"
  let ?k = "max ?n ?o"
  have order: "pathkeys_useful_for_ordering rt pks = ?o"
    by (cases pks; cases "query_pathkeys rt")
      (simp_all add: pathkeys_useful_for_ordering_def pathkeys_count_contained_in_eq pk_addrs_def)
  have run: "truncate_useless_pathkeys rt rel pks = Some (Inr (take ?k pks))"
    unfolding truncate_useless_pathkeys_def pathkeys_useful_for_merging_def useful_for_merging_eq [OF assms] order Let_def
    by (auto simp: max_def)
  have le: "?k \<le> length pks" using useful_for_ordering_le [of rt pks] order length_takeWhile_le by simp
  have "?k = 0" if "\<not> has_useful_pathkeys rt rel"
  proof -
    have none: "joininfo rel = []" "\<not> has_eclass_joins rel" "query_pathkeys rt = []"
      using that unfolding has_useful_pathkeys_def by (meson)+
    then show ?thesis by (cases pks) (simp_all add: merge_useful_def pk_addrs_def)
  qed
  then show ?thesis using run le by (intro exI [of _ "take ?k pks"]) (auto simp: take_is_prefix)
qed

theorem truncate_useless_pathkeys_in_sync_witness:
  "\<exists>keys. truncate_useless_pathkeys sample_planner (sample_rel\<lparr>joininfo := [sample_merge_clause 3 5]\<rparr>)
       [sample_key 0 3, sample_key 1 4] = Some (Inr keys) \<and> keys = [sample_key 0 3]"
proof -
  let ?rel = "sample_rel\<lparr>joininfo := [sample_merge_clause 3 5]\<rparr>" and ?keys = "[sample_key 0 3, sample_key 1 4]"
  have "\<forall>pk\<in>set ?keys. ec_merged (ec_heap sample_planner (pk_eclass pk)) = None" "parent_known ?rel"
    by (simp_all add: sample_planner_def parent_known_def sample_rel_def IS_OTHER_REL_def)
  from truncate_useless_pathkeys_in_sync [OF sample_planner_ok(3) this] obtain keys where
    k: "truncate_useless_pathkeys sample_planner ?rel ?keys = Some (Inr keys)" "prefix keys ?keys"
      "length keys = max (length (takeWhile (merge_useful sample_planner ?rel) ?keys))
        (length (longest_common_prefix (pk_addrs (query_pathkeys sample_planner)) (pk_addrs ?keys)))" by blast
  have "right_merge_direction sample_planner (sample_key 0 3)"
    by (simp add: right_merge_direction_def sample_planner_def sample_key_def BTLessStrategyNumber_def)
  then have "merge_useful sample_planner ?rel (sample_key 0 3)" "\<not> merge_useful sample_planner ?rel (sample_key 1 4)"
    by (simp_all add: merge_useful_def clause_on_def) (simp_all add: sample_rel_def sample_merge_clause_def sample_key_def)
  then have "length keys = 1" using k(3) by (simp add: sample_planner_def pk_addrs_def)
  then have "keys = [sample_key 0 3]" using k(2) by (cases keys) auto
  with k(1) show ?thesis by blast
qed

end
