(* ===== verification/Pathnode.thy ===== *)
theory Pathnode
  imports Pathkeys
begin

text \<open>
  Cost comparison and the choice of cheapest paths: the first part of
  \<^verbatim>\<open>src/backend/optimizer/util/pathnode.c\<close> (up to \<^verbatim>\<open>set_cheapest\<close>) and the search routines of
  \<^verbatim>\<open>src/backend/optimizer/path/pathkeys.c\<close> that use it. Costs are real numbers, so a comparison here
  is exact where the C code compares rounded doubles.
\<close>

abbreviation pstartup :: "path \<Rightarrow> Cost" where
  "pstartup p \<equiv> startup_cost (info p)"

abbreviation ptotal :: "path \<Rightarrow> Cost" where
  "ptotal p \<equiv> total_cost (info p)"

section \<open>Comparing costs\<close>

datatype PathCostComparison = COSTS_EQUAL | COSTS_BETTER1 | COSTS_BETTER2 | COSTS_DIFFERENT

definition STD_FUZZ_FACTOR :: real where
  "STD_FUZZ_FACTOR = 101 / 100"

definition compare_path_costs :: "path \<Rightarrow> path \<Rightarrow> CostSelector \<Rightarrow> int" where
  "compare_path_costs path1 path2 criterion =
     (if criterion = STARTUP_COST
      then (if pstartup path1 < pstartup path2 then - 1
            else if pstartup path1 > pstartup path2 then 1
            else if ptotal path1 < ptotal path2 then - 1
            else if ptotal path1 > ptotal path2 then 1
            else 0)
      else (if ptotal path1 < ptotal path2 then - 1
            else if ptotal path1 > ptotal path2 then 1
            else if pstartup path1 < pstartup path2 then - 1
            else if pstartup path1 > pstartup path2 then 1
            else 0))"

definition compare_fractional_path_costs :: "path \<Rightarrow> path \<Rightarrow> real \<Rightarrow> int" where
  "compare_fractional_path_costs path1 path2 fraction =
     (if fraction \<le> 0 \<or> fraction \<ge> 1 then compare_path_costs path1 path2 TOTAL_COST
      else let cost1 = pstartup path1 + fraction * (ptotal path1 - pstartup path1);
               cost2 = pstartup path2 + fraction * (ptotal path2 - pstartup path2)
           in if cost1 < cost2 then - 1 else if cost1 > cost2 then 1 else 0)"

definition CONSIDER_PATH_STARTUP_COST :: "path \<Rightarrow> bool" where
  "CONSIDER_PATH_STARTUP_COST p =
     (if param_info (info p) = None then consider_startup (parent (info p))
      else consider_param_startup (parent (info p)))"

definition compare_path_costs_fuzzily :: "path \<Rightarrow> path \<Rightarrow> real \<Rightarrow> PathCostComparison" where
  "compare_path_costs_fuzzily path1 path2 fuzz_factor =
     (if ptotal path1 > ptotal path2 * fuzz_factor
      then (if CONSIDER_PATH_STARTUP_COST path1 \<and> pstartup path2 > pstartup path1 * fuzz_factor
            then COSTS_DIFFERENT else COSTS_BETTER2)
      else if ptotal path2 > ptotal path1 * fuzz_factor
      then (if CONSIDER_PATH_STARTUP_COST path2 \<and> pstartup path1 > pstartup path2 * fuzz_factor
            then COSTS_DIFFERENT else COSTS_BETTER1)
      else if pstartup path1 > pstartup path2 * fuzz_factor then COSTS_BETTER2
      else if pstartup path2 > pstartup path1 * fuzz_factor then COSTS_BETTER1
      else COSTS_EQUAL)"

section \<open>The cheapest paths of a relation\<close>

text \<open>The local variables of \<^verbatim>\<open>set_cheapest\<close>.\<close>

record cheapest_state =
  cs_startup :: "path option"
  cs_total :: "path option"
  cs_best_param :: "path option"
  cs_parameterized :: "path list"

definition better_param :: "path \<Rightarrow> path \<Rightarrow> path" where
  "better_param path best =
     (case bms_subset_compare (PATH_REQ_OUTER path) (PATH_REQ_OUTER best) of
        BMS_EQUAL \<Rightarrow> if compare_path_costs path best TOTAL_COST < 0 then path else best
      | BMS_SUBSET1 \<Rightarrow> path
      | BMS_SUBSET2 \<Rightarrow> best
      | BMS_DIFFERENT \<Rightarrow> best)"

definition better_sorted_cheaper :: "CostSelector \<Rightarrow> path \<Rightarrow> path \<Rightarrow> path" where
  "better_sorted_cheaper criterion best path =
     (let cmp = compare_path_costs best path criterion in
      if cmp > 0 \<or>
         (cmp = 0 \<and>
          compare_pathkeys (pathkeys (info best)) (pathkeys (info path)) = PATHKEYS_BETTER2)
      then path else best)"

definition cheapest_step :: "path \<Rightarrow> cheapest_state \<Rightarrow> cheapest_state" where
  "cheapest_step path st =
     (if param_info (info path) \<noteq> None
      then (let st' = st\<lparr>cs_parameterized := cs_parameterized st @ [path]\<rparr> in
            if cs_total st' \<noteq> None then st'
            else st'\<lparr>cs_best_param :=
                       Some (case cs_best_param st' of
                               None \<Rightarrow> path
                             | Some best \<Rightarrow> better_param path best)\<rparr>)
      else case (cs_startup st, cs_total st) of
        (Some s, Some t) \<Rightarrow>
          st\<lparr>cs_startup := Some (better_sorted_cheaper STARTUP_COST s path),
             cs_total := Some (better_sorted_cheaper TOTAL_COST t path)\<rparr>
      | _ \<Rightarrow> st\<lparr>cs_startup := Some path, cs_total := Some path\<rparr>)"

definition cheapest_init :: cheapest_state where
  "cheapest_init =
     \<lparr>cs_startup = None, cs_total = None, cs_best_param = None, cs_parameterized = []\<rparr>"

definition set_cheapest :: "RelOptInfo \<Rightarrow> RelOptInfo res" where
  "set_cheapest rel =
     (if pathlist rel = []
      then Inl (Elog ''could not devise a query plan for the given query'')
      else let st = fold cheapest_step (pathlist rel) cheapest_init;
               params = (case cs_total st of
                           Some p \<Rightarrow> p # cs_parameterized st
                         | None \<Rightarrow> cs_parameterized st);
               total = (if cs_total st = None then cs_best_param st else cs_total st)
           in Inr (rel\<lparr>cheapest_startup_path := cs_startup st,
                       cheapest_total_path := total,
                       cheapest_unique_path := None,
                       cheapest_parameterized_paths := params\<rparr>))"

section \<open>Searching a path list\<close>

text \<open>The loop shared by the two searches for given path keys.\<close>

fun matching_loop :: "(path \<Rightarrow> path \<Rightarrow> int) \<Rightarrow> (path \<Rightarrow> bool) \<Rightarrow> path option \<Rightarrow> path list \<Rightarrow> path option" where
  "matching_loop cmp suits matched_path [] = matched_path"
| "matching_loop cmp suits matched_path (path # paths) =
     (if (case matched_path of None \<Rightarrow> False | Some m \<Rightarrow> cmp m path \<le> 0)
      then matching_loop cmp suits matched_path paths
      else if suits path then matching_loop cmp suits (Some path) paths
      else matching_loop cmp suits matched_path paths)"

definition get_cheapest_path_for_pathkeys ::
  "path list \<Rightarrow> PathKey list \<Rightarrow> Relids \<Rightarrow> CostSelector \<Rightarrow> bool \<Rightarrow> path option" where
  "get_cheapest_path_for_pathkeys paths keys required_outer criterion require_parallel_safe =
     matching_loop (\<lambda>p q. compare_path_costs p q criterion)
       (\<lambda>path. (require_parallel_safe \<longrightarrow> parallel_safe (info path)) \<and>
               pathkeys_contained_in keys (pathkeys (info path)) \<and>
               bms_is_subset (PATH_REQ_OUTER path) required_outer)
       None paths"

definition get_cheapest_fractional_path_for_pathkeys ::
  "path list \<Rightarrow> PathKey list \<Rightarrow> Relids \<Rightarrow> real \<Rightarrow> path option" where
  "get_cheapest_fractional_path_for_pathkeys paths keys required_outer fraction =
     matching_loop (\<lambda>p q. compare_fractional_path_costs p q fraction)
       (\<lambda>path. pathkeys_contained_in keys (pathkeys (info path)) \<and>
               bms_is_subset (PATH_REQ_OUTER path) required_outer)
       None paths"

fun get_cheapest_parallel_safe_total_inner :: "path list \<Rightarrow> path option" where
  "get_cheapest_parallel_safe_total_inner [] = None"
| "get_cheapest_parallel_safe_total_inner (innerpath # paths) =
     (if parallel_safe (info innerpath) \<and> bms_is_empty (PATH_REQ_OUTER innerpath)
      then Some innerpath
      else get_cheapest_parallel_safe_total_inner paths)"

section \<open>The cost order\<close>

definition cost_key :: "CostSelector \<Rightarrow> path \<Rightarrow> real \<times> real" where
  "cost_key c p = (if c = STARTUP_COST then (pstartup p, ptotal p) else (ptotal p, pstartup p))"

definition pair_compare :: "real \<times> real \<Rightarrow> real \<times> real \<Rightarrow> int" where
  "pair_compare x y =
     (if fst x < fst y then - 1 else if fst x > fst y then 1
      else if snd x < snd y then - 1 else if snd x > snd y then 1 else 0)"

lemma compare_path_costs_key: "compare_path_costs p q c = pair_compare (cost_key c p) (cost_key c q)"
  by (simp add: compare_path_costs_def pair_compare_def cost_key_def)

lemma pair_compare_le:
  "pair_compare x y \<le> 0 \<longleftrightarrow> fst x < fst y \<or> fst x = fst y \<and> snd x \<le> snd y"
  by (auto simp: pair_compare_def)

interpretation pair_order: comparator "\<lambda>_. True" pair_compare
proof (unfold_locales, goal_cases)
  case (1 x y)
  show ?case by (simp add: pair_compare_def)
next
  case (2 x y)
  show ?case by (simp add: pair_compare_def)
next
  case (3 x y z)
  then show ?case unfolding pair_compare_le by auto
qed

lemma pair_order_key: "comparator (\<lambda>_. True) (\<lambda>p q. pair_compare (key p) (key q))"
  by unfold_locales
    (use pair_order.cmp_range pair_order.cmp_swap pair_order.cmp_trans in blast)+

interpretation cost_order: comparator "\<lambda>_. True" "\<lambda>p q. compare_path_costs p q c" for c
  unfolding compare_path_costs_key by (rule pair_order_key)

definition fraction_key :: "real \<Rightarrow> path \<Rightarrow> real \<times> real" where
  "fraction_key f p =
     (if f \<le> 0 \<or> f \<ge> 1 then cost_key TOTAL_COST p
      else (pstartup p + f * (ptotal p - pstartup p), 0))"

lemma compare_fractional_key:
  "compare_fractional_path_costs p q f = pair_compare (fraction_key f p) (fraction_key f q)"
  by (simp add: compare_fractional_path_costs_def fraction_key_def compare_path_costs_key
      pair_compare_def Let_def)

interpretation fraction_order: comparator "\<lambda>_. True" "\<lambda>p q. compare_fractional_path_costs p q f" for f
  unfolding compare_fractional_key by (rule pair_order_key)

section \<open>The cheapest paths\<close>

lemma matching_loop_best: "matching_loop cmp suits m paths = best_loop cmp suits m paths"
proof (induction paths arbitrary: m)
  case (Cons p paths)
  then show ?case by (auto split: option.splits)
qed simp

lemma cheaper_le:
  "compare_path_costs (better_sorted_cheaper c s p) s c \<le> 0"
  "compare_path_costs (better_sorted_cheaper c s p) p c \<le> 0"
  using cost_order.cmp_swap [of s p c] cost_order.cmp_refl [of s c] cost_order.cmp_refl [of p c]
  by (auto simp: better_sorted_cheaper_def Let_def)

lemma cheaper_cases: "better_sorted_cheaper c s p \<in> {s, p}"
  by (simp add: better_sorted_cheaper_def Let_def)

definition unparameterized :: "path list \<Rightarrow> path list" where
  "unparameterized ps = filter (\<lambda>p. param_info (info p) = None) ps"

definition parameterized :: "path list \<Rightarrow> path list" where
  "parameterized ps = filter (\<lambda>p. param_info (info p) \<noteq> None) ps"

definition cheapest_of :: "CostSelector \<Rightarrow> path list \<Rightarrow> path option \<Rightarrow> bool" where
  "cheapest_of c ps r =
     (case r of
        None \<Rightarrow> ps = []
      | Some b \<Rightarrow> b \<in> set ps \<and> (\<forall>p\<in>set ps. compare_path_costs b p c \<le> 0))"

lemma cheapest_of_snoc:
  assumes "cheapest_of c ps (Some b)"
  shows "cheapest_of c (ps @ [p]) (Some (better_sorted_cheaper c b p))"
proof -
  have "compare_path_costs (better_sorted_cheaper c b p) q c \<le> 0" if "q \<in> set ps" for q
    using cost_order.cmp_trans [OF _ _ _ cheaper_le(1)] assms that
    by (auto simp: cheapest_of_def)
  then show ?thesis
    using assms cheaper_le(2) cheaper_cases [of c b p] by (auto simp: cheapest_of_def)
qed

text \<open>
  The best parameterized path: if some path has the least parameterization of all, the chosen one
  has the same, and costs no more.
\<close>

definition least_param :: "path list \<Rightarrow> path \<Rightarrow> bool" where
  "least_param ps l \<longleftrightarrow>
     l \<in> set ps \<and> (\<forall>p\<in>set ps. bms_set (PATH_REQ_OUTER l) \<subseteq> bms_set (PATH_REQ_OUTER p))"

definition best_param_of :: "path list \<Rightarrow> path option \<Rightarrow> bool" where
  "best_param_of ps r =
     (case r of
        None \<Rightarrow> ps = []
      | Some b \<Rightarrow> b \<in> set ps \<and>
          (\<forall>l. least_param ps l \<longrightarrow>
             bms_set (PATH_REQ_OUTER b) = bms_set (PATH_REQ_OUTER l) \<and>
             compare_path_costs b l TOTAL_COST \<le> 0))"

lemma best_param_of_snoc:
  assumes "best_param_of ps (Some b)" "\<forall>q\<in>set (ps @ [p]). bms_wf (PATH_REQ_OUTER q)"
  shows "best_param_of (ps @ [p]) (Some (better_param p b))"
proof -
  let ?r = "\<lambda>q. bms_set (PATH_REQ_OUTER q)"
  have b: "b \<in> set ps" and wf: "bms_wf (PATH_REQ_OUTER b)" "bms_wf (PATH_REQ_OUTER p)"
    using assms by (auto simp: best_param_of_def)
  have cmp: "bms_subset_compare (PATH_REQ_OUTER p) (PATH_REQ_OUTER b) =
      comparison_of (?r p \<subseteq> ?r b) (?r b \<subseteq> ?r p)"
    by (rule bms_subset_compare_refines [OF wf(2,1)])
  have mem: "better_param p b \<in> {p, b}"
    by (simp add: better_param_def split: BMS_Comparison.splits)
  have "?r (better_param p b) = ?r l \<and> compare_path_costs (better_param p b) l TOTAL_COST \<le> 0"
    if l: "least_param (ps @ [p]) l" for l
  proof (cases "l \<in> set ps")
    case True
    with l have "least_param ps l" by (auto simp: least_param_def)
    with assms(1) have bl: "?r b = ?r l" "compare_path_costs b l TOTAL_COST \<le> 0"
      by (auto simp: best_param_of_def)
    have sub: "?r b \<subseteq> ?r p" using l bl(1) by (auto simp: least_param_def)
    show ?thesis
    proof (cases "?r p \<subseteq> ?r b")
      case False
      then have "better_param p b = b" using sub by (simp add: better_param_def cmp)
      with bl show ?thesis by simp
    next
      case eq: True
      show ?thesis
      proof (cases "compare_path_costs p b TOTAL_COST < 0")
        case True
        then have "better_param p b = p" using sub eq by (simp add: better_param_def cmp)
        moreover have "compare_path_costs p l TOTAL_COST \<le> 0"
          using cost_order.cmp_trans [of p b TOTAL_COST l] True bl(2) by simp
        ultimately show ?thesis using sub eq bl(1) by auto
      next
        case False
        then have "better_param p b = b" using sub eq by (simp add: better_param_def cmp)
        with bl show ?thesis by simp
      qed
    qed
  next
    case False
    with l have lp: "l = p" by (auto simp: least_param_def)
    have sub: "?r p \<subseteq> ?r b" using l b lp by (auto simp: least_param_def)
    show ?thesis
    proof (cases "?r b \<subseteq> ?r p \<and> \<not> compare_path_costs p b TOTAL_COST < 0")
      case True
      then have "better_param p b = b" using sub by (simp add: better_param_def cmp)
      moreover have "compare_path_costs b p TOTAL_COST \<le> 0"
        using True cost_order.cmp_swap [of p b TOTAL_COST] by simp
      ultimately show ?thesis using True sub lp by auto
    next
      case False
      then have "better_param p b = p" using sub
        by (cases "?r b \<subseteq> ?r p") (simp_all add: better_param_def cmp)
      then show ?thesis using lp cost_order.cmp_refl [of p TOTAL_COST] by simp
    qed
  qed
  then show ?thesis using mem b by (auto simp: best_param_of_def)
qed

lemma cheapest_fold:
  assumes "\<forall>p\<in>set ps. bms_wf (PATH_REQ_OUTER p)"
  defines "st \<equiv> fold cheapest_step ps cheapest_init"
  shows "cs_parameterized st = parameterized ps \<and>
    cheapest_of STARTUP_COST (unparameterized ps) (cs_startup st) \<and>
    cheapest_of TOTAL_COST (unparameterized ps) (cs_total st) \<and>
    (unparameterized ps = [] \<longrightarrow> best_param_of (parameterized ps) (cs_best_param st))"
  using assms(1) unfolding st_def
proof (induction ps rule: rev_induct)
  case Nil
  show ?case
    by (simp add: cheapest_init_def cheapest_of_def best_param_of_def unparameterized_def parameterized_def)
next
  case (snoc p ps)
  define S where "S = fold cheapest_step ps cheapest_init"
  have step: "fold cheapest_step (ps @ [p]) cheapest_init = cheapest_step p S" by (simp add: S_def)
  have ih: "cs_parameterized S = parameterized ps"
    "cheapest_of STARTUP_COST (unparameterized ps) (cs_startup S)"
    "cheapest_of TOTAL_COST (unparameterized ps) (cs_total S)"
    "unparameterized ps = [] \<Longrightarrow> best_param_of (parameterized ps) (cs_best_param S)"
    using snoc by (auto simp: S_def)
  have none: "cs_total S = None \<longleftrightarrow> unparameterized ps = []"
    "cs_startup S = None \<longleftrightarrow> unparameterized ps = []"
    using ih(2,3) by (auto simp: cheapest_of_def split: option.splits)
  show ?case
  proof (cases "param_info (info p) = None")
    case False
    then have u: "unparameterized (ps @ [p]) = unparameterized ps"
      "parameterized (ps @ [p]) = parameterized ps @ [p]"
      by (simp_all add: unparameterized_def parameterized_def)
    have wf: "\<forall>q\<in>set (parameterized ps @ [p]). bms_wf (PATH_REQ_OUTER q)"
      using snoc.prems by (auto simp: parameterized_def)
    have "best_param_of (parameterized ps @ [p]) (cs_best_param (cheapest_step p S))"
      if "unparameterized ps = []"
    proof (cases "cs_best_param S")
      case None
      with ih(4) [OF that] have "parameterized ps = []" by (simp add: best_param_of_def)
      then show ?thesis using None False none that cost_order.cmp_refl [of p TOTAL_COST]
        by (simp add: cheapest_step_def best_param_of_def least_param_def)
    next
      case (Some b)
      then show ?thesis using best_param_of_snoc [OF _ wf, of b] ih(4) [OF that] False none that
        by (simp add: cheapest_step_def)
    qed
    moreover have "cs_parameterized (cheapest_step p S) = cs_parameterized S @ [p]"
      "cs_startup (cheapest_step p S) = cs_startup S" "cs_total (cheapest_step p S) = cs_total S"
      using False by (simp_all add: cheapest_step_def Let_def)
    ultimately show ?thesis unfolding step using ih u by simp
  next
    case True
    then have u: "unparameterized (ps @ [p]) = unparameterized ps @ [p]"
      "parameterized (ps @ [p]) = parameterized ps"
      by (simp_all add: unparameterized_def parameterized_def)
    show ?thesis
    proof (cases "unparameterized ps = []")
      case empty: True
      then show ?thesis unfolding step using True ih u none cost_order.cmp_refl
        by (simp add: cheapest_step_def cheapest_of_def)
    next
      case False
      then obtain s t where "cs_startup S = Some s" "cs_total S = Some t" using none by auto
      then show ?thesis unfolding step using True ih u cheapest_of_snoc by (simp add: cheapest_step_def)
    qed
  qed
qed

section \<open>Sorted path lists\<close>

definition sorted_by_total :: "path list \<Rightarrow> bool" where
  "sorted_by_total ps \<longleftrightarrow> sorted (map ptotal ps)"

lemma first_parallel_safe:
  assumes "sorted_by_total ps"
  defines "ok \<equiv> \<lambda>p. parallel_safe (info p) \<and> PATH_REQ_OUTER p = None"
  shows "case get_cheapest_parallel_safe_total_inner ps of
      None \<Rightarrow> \<forall>p\<in>set ps. \<not> ok p
    | Some b \<Rightarrow> b \<in> set ps \<and> ok b \<and> (\<forall>p\<in>set ps. ok p \<longrightarrow> ptotal b \<le> ptotal p)"
  using assms(1)
proof (induction ps)
  case (Cons p ps)
  then show ?case
    by (auto simp: sorted_by_total_def ok_def bms_is_empty_def split: option.splits)
qed simp

section \<open>Correctness\<close>

definition sample_path :: "real \<Rightarrow> real \<Rightarrow> path" where
  "sample_path s t =
     BasePath \<lparr>path_type = T_Path, pathtype = T_SeqScan,
       parent = \<lparr>relid = 1, consider_startup = True, consider_param_startup = False\<rparr>,
       param_info = None, parallel_safe = True, rows = 10, startup_cost = s,
       total_cost = t, pathkeys = []\<rparr>"

text \<open>C19. Cheapest paths: on an empty path list \<^verbatim>\<open>set_cheapest\<close> raises its error. Otherwise it keeps
  the list and records the cheapest unparameterized paths for startup and for total cost (no
  startup path if there is no unparameterized path), and the parameterized paths, preceded by the
  cheapest unparameterized one. Without an unparameterized path the total-cost slot gets a
  parameterized path which, if some path has the least parameterization, has the same
  parameterization and costs no more than that path.\<close>

theorem set_cheapest_correct:
  assumes "\<forall>p\<in>set (pathlist rel). bms_wf (PATH_REQ_OUTER p)"
  shows "case set_cheapest rel of
      Inl e \<Rightarrow> pathlist rel = [] \<and> e = Elog ''could not devise a query plan for the given query''
    | Inr rel' \<Rightarrow> pathlist rel \<noteq> [] \<and> pathlist rel' = pathlist rel \<and>
        cheapest_of STARTUP_COST (unparameterized (pathlist rel)) (cheapest_startup_path rel') \<and>
        (if unparameterized (pathlist rel) = []
         then best_param_of (parameterized (pathlist rel)) (cheapest_total_path rel') \<and>
           cheapest_total_path rel' \<noteq> None \<and>
           cheapest_parameterized_paths rel' = parameterized (pathlist rel)
         else cheapest_of TOTAL_COST (unparameterized (pathlist rel)) (cheapest_total_path rel') \<and>
           cheapest_parameterized_paths rel' =
             the (cheapest_total_path rel') # parameterized (pathlist rel))"
proof (cases "pathlist rel = []")
  case True
  then show ?thesis by (simp add: set_cheapest_def)
next
  case False
  define st where "st = fold cheapest_step (pathlist rel) cheapest_init"
  note inv = cheapest_fold [OF assms, folded st_def]
  show ?thesis
  proof (cases "unparameterized (pathlist rel) = []")
    case True
    then have "cs_total st = None" "parameterized (pathlist rel) \<noteq> []"
      using inv False by (auto simp: cheapest_of_def unparameterized_def parameterized_def
          filter_empty_conv split: option.splits)
    then show ?thesis using inv False True
      by (cases "cs_best_param st") (auto simp: set_cheapest_def st_def [symmetric] Let_def best_param_of_def)
  next
    case nonempty: False
    then obtain t where "cs_total st = Some t"
      using inv by (auto simp: cheapest_of_def split: option.splits)
    then show ?thesis using inv False nonempty
      by (simp add: set_cheapest_def st_def [symmetric] Let_def)
  qed
qed

theorem set_cheapest_correct_witness:
  "(case set_cheapest (sample_rel\<lparr>pathlist := [sample_path 1 5, sample_path 0 7]\<rparr>) of
      Inl e \<Rightarrow> False
    | Inr rel' \<Rightarrow> cheapest_of STARTUP_COST
        (unparameterized [sample_path 1 5, sample_path 0 7]) (cheapest_startup_path rel'))"
proof -
  let ?rel = "sample_rel\<lparr>pathlist := [sample_path 1 5, sample_path 0 7]\<rparr>"
  have ok: "\<forall>p\<in>set (pathlist ?rel). bms_wf (PATH_REQ_OUTER p)"
    by (simp add: sample_path_def PATH_REQ_OUTER_def)
  from set_cheapest_correct [OF ok] show ?thesis by (auto split: sum.splits)
qed

text \<open>Searching for a sort order: both searches return the first of the cheapest among the paths
  that are sorted as required and need no other outer relations than allowed (and, on request, are
  parallel safe), or nothing if there is no such path.\<close>

theorem get_cheapest_path_correct:
  "is_first_best (\<lambda>p q. compare_path_costs p q criterion)
     (filter (\<lambda>p. (if safe then parallel_safe (info p) else True) \<and>
         prefix (map pk_addr keys) (map pk_addr (pathkeys (info p))) \<and>
         bms_is_subset (PATH_REQ_OUTER p) req) paths)
     (get_cheapest_path_for_pathkeys paths keys req criterion safe) \<and>
   is_first_best (\<lambda>p q. compare_fractional_path_costs p q fraction)
     (filter (\<lambda>p. prefix (map pk_addr keys) (map pk_addr (pathkeys (info p))) \<and>
         bms_is_subset (PATH_REQ_OUTER p) req) paths)
     (get_cheapest_fractional_path_for_pathkeys paths keys req fraction)"
proof -
  have b: "(if safe then x else True) = (safe \<longrightarrow> x)" for x by simp
  show ?thesis
    unfolding get_cheapest_path_for_pathkeys_def get_cheapest_fractional_path_for_pathkeys_def b
      matching_loop_best pathkeys_contained_in_iff sorts_as_well_def pk_addrs_def
    by (intro conjI cost_order.best_loop_spec fraction_order.best_loop_spec) simp_all
qed

text \<open>On a path list sorted by total cost, the first unparameterized parallel-safe path, which
  \<^verbatim>\<open>get_cheapest_parallel_safe_total_inner\<close> returns without looking further, is the cheapest one.\<close>

theorem parallel_safe_inner_cheapest:
  assumes "sorted_by_total ps"
  shows "case get_cheapest_parallel_safe_total_inner ps of
      None \<Rightarrow> \<forall>p\<in>set ps. \<not> (parallel_safe (info p) \<and> PATH_REQ_OUTER p = None)
    | Some b \<Rightarrow> b \<in> set ps \<and> parallel_safe (info b) \<and> PATH_REQ_OUTER b = None \<and>
        (\<forall>p\<in>set ps. parallel_safe (info p) \<and> PATH_REQ_OUTER p = None \<longrightarrow> ptotal b \<le> ptotal p)"
  using first_parallel_safe [OF assms] by (auto split: option.splits)

theorem parallel_safe_inner_cheapest_witness:
  "sorted_by_total [sample_path 1 5, sample_path 0 7] \<and>
   (case get_cheapest_parallel_safe_total_inner [sample_path 1 5, sample_path 0 7] of
      None \<Rightarrow> False | Some b \<Rightarrow> ptotal b \<le> 7)"
proof -
  have s: "sorted_by_total [sample_path 1 5, sample_path 0 7]"
    by (simp add: sorted_by_total_def sample_path_def)
  have "get_cheapest_parallel_safe_total_inner [sample_path 1 5, sample_path 0 7] = Some (sample_path 1 5)"
    by (simp add: sample_path_def PATH_REQ_OUTER_def bms_is_empty_def)
  with parallel_safe_inner_cheapest [OF s] s show ?thesis by (simp add: sample_path_def PATH_REQ_OUTER_def)
qed

end
