(* ===== verification/Addpath.thy ===== *)
theory Addpath
  imports Pathnode "HOL-Library.Multiset"
begin

text \<open>
  The tournament for path lists: \<^verbatim>\<open>add_path\<close>, \<^verbatim>\<open>add_path_precheck\<close>, \<^verbatim>\<open>add_partial_path\<close> and
  \<^verbatim>\<open>add_partial_path_precheck\<close> of \<^verbatim>\<open>src/backend/optimizer/util/pathnode.c\<close>, with the switch
  that Athena adds to \<^verbatim>\<open>add_path\<close>. Freeing a rejected path leaves no trace in the lists.
\<close>

section \<open>The operations\<close>

text \<open>The two Athena variables of \<^verbatim>\<open>costsize.c\<close>.\<close>

record jop_state =
  enable_join_order_plans :: bool
  save_join_order_plan_finished :: bool

text \<open>What one round of the loop decides: the flags \<^verbatim>\<open>remove_old\<close> and \<^verbatim>\<open>accept_new\<close>.\<close>

datatype verdict = KEEP_BOTH | REMOVE_OLD | REJECT_NEW

abbreviation prows :: "path \<Rightarrow> real" where
  "prows p \<equiv> rows (info p)"

abbreviation psafe :: "path \<Rightarrow> bool" where
  "psafe p \<equiv> parallel_safe (info p)"

text \<open>A parameterized path counts as unsorted.\<close>

definition effective_pathkeys :: "path \<Rightarrow> PathKey list" where
  "effective_pathkeys p = (if param_info (info p) \<noteq> None then [] else pathkeys (info p))"

definition new_no_worse :: "BMS_Comparison \<Rightarrow> path \<Rightarrow> path \<Rightarrow> bool" where
  "new_no_worse outercmp new_path old_path =
     ((outercmp = BMS_EQUAL \<or> outercmp = BMS_SUBSET1) \<and>
      prows new_path \<le> prows old_path \<and> psafe new_path \<ge> psafe old_path)"

definition old_no_worse :: "BMS_Comparison \<Rightarrow> path \<Rightarrow> path \<Rightarrow> bool" where
  "old_no_worse outercmp new_path old_path =
     ((outercmp = BMS_EQUAL \<or> outercmp = BMS_SUBSET2) \<and>
      prows new_path \<ge> prows old_path \<and> psafe new_path \<le> psafe old_path)"

definition tie_verdict :: "path \<Rightarrow> path \<Rightarrow> verdict" where
  "tie_verdict new_path old_path =
     (if psafe new_path > psafe old_path then REMOVE_OLD
      else if psafe new_path < psafe old_path then REJECT_NEW
      else if prows new_path < prows old_path then REMOVE_OLD
      else if prows new_path > prows old_path then REJECT_NEW
      else if compare_path_costs_fuzzily new_path old_path (1 + 1 / 10 ^ 10) = COSTS_BETTER1
      then REMOVE_OLD
      else REJECT_NEW)"

definition add_path_verdict :: "jop_state \<Rightarrow> path \<Rightarrow> path \<Rightarrow> verdict" where
  "add_path_verdict g new_path old_path =
     (let costcmp = (if enable_join_order_plans g \<and> save_join_order_plan_finished g
                     then COSTS_DIFFERENT
                     else compare_path_costs_fuzzily new_path old_path STD_FUZZ_FACTOR)
      in if costcmp = COSTS_DIFFERENT then KEEP_BOTH
      else let keyscmp = compare_pathkeys (effective_pathkeys new_path) (effective_pathkeys old_path);
               outercmp = bms_subset_compare (PATH_REQ_OUTER new_path) (PATH_REQ_OUTER old_path)
      in if keyscmp = PATHKEYS_DIFFERENT then KEEP_BOTH
      else case costcmp of
        COSTS_EQUAL \<Rightarrow>
          (if keyscmp = PATHKEYS_BETTER1
           then (if new_no_worse outercmp new_path old_path then REMOVE_OLD else KEEP_BOTH)
           else if keyscmp = PATHKEYS_BETTER2
           then (if old_no_worse outercmp new_path old_path then REJECT_NEW else KEEP_BOTH)
           else if outercmp = BMS_EQUAL then tie_verdict new_path old_path
           else if outercmp = BMS_SUBSET1 \<and> new_no_worse outercmp new_path old_path then REMOVE_OLD
           else if outercmp = BMS_SUBSET2 \<and> old_no_worse outercmp new_path old_path then REJECT_NEW
           else KEEP_BOTH)
      | COSTS_BETTER1 \<Rightarrow>
          (if keyscmp \<noteq> PATHKEYS_BETTER2 \<and> new_no_worse outercmp new_path old_path
           then REMOVE_OLD else KEEP_BOTH)
      | COSTS_BETTER2 \<Rightarrow>
          (if keyscmp \<noteq> PATHKEYS_BETTER1 \<and> old_no_worse outercmp new_path old_path
           then REJECT_NEW else KEEP_BOTH)
      | COSTS_DIFFERENT \<Rightarrow> KEEP_BOTH)"

text \<open>
  The loop over the old paths, shared by the two tournaments: the paths kept so far, then the ones
  not yet visited; \<open>insert_at\<close> is an index into the list as it stands. The result says whether the
  new path is accepted.
\<close>

fun tournament_loop ::
  "(path \<Rightarrow> verdict) \<Rightarrow> path \<Rightarrow> path list \<Rightarrow> path list \<Rightarrow> nat \<Rightarrow> bool \<times> path list \<times> nat" where
  "tournament_loop judge new_path [] kept insert_at = (True, kept, insert_at)"
| "tournament_loop judge new_path (old_path # olds) kept insert_at =
     (case judge old_path of
        REMOVE_OLD \<Rightarrow> tournament_loop judge new_path olds kept insert_at
      | KEEP_BOTH \<Rightarrow>
          tournament_loop judge new_path olds (kept @ [old_path])
            (if ptotal new_path \<ge> ptotal old_path then length kept + 1 else insert_at)
      | REJECT_NEW \<Rightarrow> (False, kept @ old_path # olds, insert_at))"

definition run_tournament :: "(path \<Rightarrow> verdict) \<Rightarrow> path \<Rightarrow> path list \<Rightarrow> path list" where
  "run_tournament judge new_path olds =
     (case tournament_loop judge new_path olds [] 0 of
        (accept_new, ps, insert_at) \<Rightarrow>
          if accept_new then take insert_at ps @ new_path # drop insert_at ps else ps)"

definition add_path :: "jop_state \<Rightarrow> RelOptInfo \<Rightarrow> path \<Rightarrow> RelOptInfo" where
  "add_path g parent_rel new_path =
     parent_rel\<lparr>pathlist :=
       run_tournament (add_path_verdict g new_path) new_path (pathlist parent_rel)\<rparr>"

fun precheck_loop ::
  "bool \<Rightarrow> Cost \<Rightarrow> Cost \<Rightarrow> PathKey list \<Rightarrow> Relids \<Rightarrow> path list \<Rightarrow> bool" where
  "precheck_loop consider s t new_path_pathkeys required_outer [] = True"
| "precheck_loop consider s t new_path_pathkeys required_outer (old_path # olds) =
     (if t > ptotal old_path * STD_FUZZ_FACTOR
      then (if (s > pstartup old_path * STD_FUZZ_FACTOR \<or> \<not> consider) \<and>
               compare_pathkeys new_path_pathkeys (effective_pathkeys old_path)
                 \<in> {PATHKEYS_EQUAL, PATHKEYS_BETTER2} \<and>
               bms_equal required_outer (PATH_REQ_OUTER old_path)
            then False
            else precheck_loop consider s t new_path_pathkeys required_outer olds)
      else True)"

definition add_path_precheck ::
  "RelOptInfo \<Rightarrow> Cost \<Rightarrow> Cost \<Rightarrow> PathKey list \<Rightarrow> Relids \<Rightarrow> bool" where
  "add_path_precheck parent_rel s t keys required_outer =
     precheck_loop
       (if required_outer \<noteq> None then rel_consider_param_startup parent_rel
        else rel_consider_startup parent_rel)
       s t (if required_outer \<noteq> None then [] else keys) required_outer (pathlist parent_rel)"

definition partial_verdict :: "path \<Rightarrow> path \<Rightarrow> verdict" where
  "partial_verdict new_path old_path =
     (let keyscmp = compare_pathkeys (pathkeys (info new_path)) (pathkeys (info old_path)) in
      if keyscmp = PATHKEYS_DIFFERENT then KEEP_BOTH
      else if ptotal new_path > ptotal old_path * STD_FUZZ_FACTOR
      then (if keyscmp \<noteq> PATHKEYS_BETTER1 then REJECT_NEW else KEEP_BOTH)
      else if ptotal old_path > ptotal new_path * STD_FUZZ_FACTOR
      then (if keyscmp \<noteq> PATHKEYS_BETTER2 then REMOVE_OLD else KEEP_BOTH)
      else if keyscmp = PATHKEYS_BETTER1 then REMOVE_OLD
      else if keyscmp = PATHKEYS_BETTER2 then REJECT_NEW
      else if ptotal old_path > ptotal new_path * (1 + 1 / 10 ^ 10) then REMOVE_OLD
      else REJECT_NEW)"

definition add_partial_path :: "RelOptInfo \<Rightarrow> path \<Rightarrow> RelOptInfo res" where
  "add_partial_path parent_rel new_path =
     (if \<not> psafe new_path then Inl AssertFail
      else if \<not> consider_parallel parent_rel then Inl AssertFail
      else Inr (parent_rel\<lparr>partial_pathlist :=
        run_tournament (partial_verdict new_path) new_path (partial_pathlist parent_rel)\<rparr>))"

text \<open>The first loop of the precheck: a definite answer, or none.\<close>

fun partial_precheck_loop :: "Cost \<Rightarrow> PathKey list \<Rightarrow> path list \<Rightarrow> bool option" where
  "partial_precheck_loop t keys [] = None"
| "partial_precheck_loop t keys (old_path # olds) =
     (let keyscmp = compare_pathkeys keys (pathkeys (info old_path)) in
      if keyscmp \<noteq> PATHKEYS_DIFFERENT \<and> t > ptotal old_path * STD_FUZZ_FACTOR \<and>
         keyscmp \<noteq> PATHKEYS_BETTER1
      then Some False
      else if keyscmp \<noteq> PATHKEYS_DIFFERENT \<and> ptotal old_path > t * STD_FUZZ_FACTOR \<and>
         keyscmp \<noteq> PATHKEYS_BETTER2
      then Some True
      else partial_precheck_loop t keys olds)"

definition add_partial_path_precheck :: "RelOptInfo \<Rightarrow> Cost \<Rightarrow> PathKey list \<Rightarrow> bool" where
  "add_partial_path_precheck parent_rel t keys =
     (case partial_precheck_loop t keys (partial_pathlist parent_rel) of
        Some b \<Rightarrow> b
      | None \<Rightarrow> if \<not> add_path_precheck parent_rel t t keys None then False else True)"

section \<open>The tournament loop\<close>

abbreviation survivors :: "(path \<Rightarrow> verdict) \<Rightarrow> path list \<Rightarrow> path list" where
  "survivors judge ps \<equiv> filter (\<lambda>p. judge p \<noteq> REMOVE_OLD) ps"

lemma tournament_accepts:
  "\<forall>p\<in>set olds. judge p \<noteq> REJECT_NEW \<Longrightarrow>
     \<exists>pos. tournament_loop judge new olds kept n = (True, kept @ survivors judge olds, pos)"
proof (induction olds arbitrary: kept n)
  case (Cons p olds)
  then show ?case using Cons.IH [of "kept @ [p]"] by (cases "judge p") auto
qed simp

lemma tournament_rejects:
  "\<forall>p\<in>set us. judge p \<noteq> REJECT_NEW \<Longrightarrow> judge p = REJECT_NEW \<Longrightarrow>
     \<exists>pos. tournament_loop judge new (us @ p # vs) kept n = (False, kept @ survivors judge us @ p # vs, pos)"
proof (induction us arbitrary: kept n)
  case (Cons u us)
  then show ?case using Cons.IH [of "kept @ [u]"] by (cases "judge u") auto
qed simp

lemma first_reject:
  assumes "\<exists>p\<in>set olds. judge p = REJECT_NEW"
  obtains us p vs where "olds = us @ p # vs" "judge p = REJECT_NEW" "\<forall>u\<in>set us. judge u \<noteq> REJECT_NEW"
  using split_list_first_prop [OF assms] by metis

text \<open>The outcome: either the new path joins the survivors, or the loop stops at its first superior.\<close>

lemma run_tournament_cases:
  obtains (accepted) n where "\<forall>p\<in>set olds. judge p \<noteq> REJECT_NEW"
      "run_tournament judge new olds =
        take n (survivors judge olds) @ new # drop n (survivors judge olds)"
    | (rejected) us p vs where "olds = us @ p # vs" "judge p = REJECT_NEW"
      "\<forall>u\<in>set us. judge u \<noteq> REJECT_NEW"
      "run_tournament judge new olds = survivors judge us @ p # vs"
proof (cases "\<exists>p\<in>set olds. judge p = REJECT_NEW")
  case True
  then obtain us p vs where s: "olds = us @ p # vs" "judge p = REJECT_NEW"
      "\<forall>u\<in>set us. judge u \<noteq> REJECT_NEW" by (rule first_reject)
  from tournament_rejects [OF s(3,2), of new vs "[]" 0] show ?thesis
    by (intro rejected [OF s]) (auto simp: run_tournament_def s(1))
next
  case False
  then have "\<forall>p\<in>set olds. judge p \<noteq> REJECT_NEW" by blast
  from tournament_accepts [OF this, of new "[]" 0] this show ?thesis
    by (auto simp: run_tournament_def intro: accepted)
qed

lemma tournament_position:
  assumes "sorted (map ptotal (kept @ olds))"
    "n = length (filter (\<lambda>p. ptotal p \<le> ptotal new) kept)"
    "tournament_loop judge new olds kept n = (True, ps, pos)"
  shows "pos = length (filter (\<lambda>p. ptotal p \<le> ptotal new) ps)"
  using assms
proof (induction judge new olds kept n rule: tournament_loop.induct)
  case (2 judge new p olds kept n)
  have s: "sorted (map ptotal ((kept @ [p]) @ olds))" "sorted (map ptotal (kept @ olds))"
    using "2.prems"(1) by (simp_all add: sorted_append)
  have "filter (\<lambda>q. ptotal q \<le> ptotal new) kept = kept" if "ptotal p \<le> ptotal new"
    using "2.prems"(1) that by (auto simp: filter_id_conv sorted_append)
  then have n: "(if ptotal new \<ge> ptotal p then length kept + 1 else n) =
      length (filter (\<lambda>q. ptotal q \<le> ptotal new) (kept @ [p]))"
    using "2.prems"(2) by simp
  show ?case
  proof (cases "judge p")
    case KEEP_BOTH
    with "2.IH"(1) [OF _ s(1) n] "2.prems"(3) show ?thesis by simp
  next
    case REMOVE_OLD
    with "2.IH"(2) [OF _ s(2) "2.prems"(2)] "2.prems"(3) show ?thesis by simp
  next
    case REJECT_NEW
    with "2.prems"(3) show ?thesis by simp
  qed
qed simp

lemma sorted_filter_take:
  "sorted (map ptotal ps) \<Longrightarrow>
     take (length (filter (\<lambda>p. ptotal p \<le> t) ps)) ps = filter (\<lambda>p. ptotal p \<le> t) ps \<and>
     drop (length (filter (\<lambda>p. ptotal p \<le> t) ps)) ps = filter (\<lambda>p. \<not> ptotal p \<le> t) ps"
proof (induction ps)
  case (Cons p ps)
  show ?case
  proof (cases "ptotal p \<le> t")
    case True
    with Cons show ?thesis by simp
  next
    case False
    then have none: "\<forall>q\<in>set (p # ps). \<not> ptotal q \<le> t" using Cons.prems by force
    then have "filter (\<lambda>p. ptotal p \<le> t) (p # ps) = []" by (simp only: filter_empty_conv)
    moreover have "filter (\<lambda>p. \<not> ptotal p \<le> t) (p # ps) = p # ps"
      using none by (simp only: filter_id_conv)
    ultimately show ?thesis by (simp del: filter.simps)
  qed
qed simp

lemma survivors_sorted: "sorted (map ptotal ps) \<Longrightarrow> sorted (map ptotal (survivors judge ps))"
  by (rule sorted_filter)

lemma run_tournament_sorted:
  assumes "sorted_by_total olds"
  shows "sorted_by_total (run_tournament judge new olds)"
proof -
  have s: "sorted (map ptotal olds)" using assms by (simp add: sorted_by_total_def)
  show ?thesis
  proof (cases rule: run_tournament_cases [of olds judge new])
    case (rejected us p vs)
    then show ?thesis using s survivors_sorted [of us judge]
      by (auto simp: sorted_by_total_def sorted_append)
  next
    case (accepted n)
    let ?ps = "survivors judge olds" and ?le = "\<lambda>p. ptotal p \<le> ptotal new"
    obtain pos where at: "tournament_loop judge new olds [] 0 = (True, ?ps, pos)"
      using tournament_accepts [OF accepted(1), of new "[]" 0] by auto
    have posn: "pos = length (filter ?le ?ps)"
      using tournament_position [OF _ _ at] s by simp
    have sp: "sorted (map ptotal ?ps)" by (rule survivors_sorted [OF s])
    have r: "run_tournament judge new olds = filter ?le ?ps @ new # filter (\<lambda>p. \<not> ?le p) ?ps"
      using sorted_filter_take [OF sp, of "ptotal new"] by (simp add: run_tournament_def at posn)
    have "sorted (map ptotal (filter ?le ?ps))" "sorted (map ptotal (filter (\<lambda>p. \<not> ?le p) ?ps))"
      using sorted_filter [OF sp] by blast+
    then show ?thesis unfolding r sorted_by_total_def by (auto simp: sorted_append)
  qed
qed

text \<open>No path of the list dominates another one.\<close>

definition undominated :: "(path \<Rightarrow> path \<Rightarrow> bool) \<Rightarrow> path list \<Rightarrow> bool" where
  "undominated beats ps \<longleftrightarrow> sorted_wrt (\<lambda>a b. \<not> beats a b \<and> \<not> beats b a) ps"

lemma undominated_filter: "undominated beats ps \<Longrightarrow> undominated beats (filter P ps)"
  by (simp add: undominated_def sorted_wrt_filter)

lemma undominated_append:
  "undominated beats (ps @ qs) \<longleftrightarrow>
     undominated beats ps \<and> undominated beats qs \<and> (\<forall>p\<in>set ps. \<forall>q\<in>set qs. \<not> beats p q \<and> \<not> beats q p)"
  by (auto simp: undominated_def sorted_wrt_append)

lemma undominated_insert:
  assumes "undominated beats ps" "\<forall>p\<in>set ps. \<not> beats p x \<and> \<not> beats x p"
  shows "undominated beats (take n ps @ x # drop n ps)"
proof -
  have "undominated beats (take n ps)" "undominated beats (drop n ps)"
    "\<forall>p\<in>set (take n ps). \<forall>q\<in>set (drop n ps). \<not> beats p q \<and> \<not> beats q p"
    using assms(1) undominated_append [of beats "take n ps" "drop n ps"] by simp_all
  then show ?thesis
    using assms(2) by (auto simp: undominated_def sorted_wrt_append dest: in_set_takeD in_set_dropD)
qed

text \<open>The contract of a tournament: verdicts decide a dominance relation.\<close>

locale path_tournament =
  fixes ok :: "path \<Rightarrow> bool"
    and judge :: "path \<Rightarrow> path \<Rightarrow> verdict"
    and beats :: "path \<Rightarrow> path \<Rightarrow> bool"
  assumes remove_dominated: "ok new \<Longrightarrow> ok old \<Longrightarrow> judge new old = REMOVE_OLD \<Longrightarrow> beats new old"
    and reject_dominated: "ok new \<Longrightarrow> ok old \<Longrightarrow> judge new old = REJECT_NEW \<Longrightarrow> beats old new"
    and keep_incomparable: "ok new \<Longrightarrow> ok old \<Longrightarrow> judge new old = KEEP_BOTH \<Longrightarrow> \<not> beats new old \<and> \<not> beats old new"
begin

lemma tournament_outcome:
  assumes "ok new" "\<forall>p\<in>set olds. ok p"
  defines "r \<equiv> run_tournament (judge new) new olds"
  shows "set r \<subseteq> insert new (set olds) \<and>
    (\<forall>p\<in>set olds. p \<in> set r \<or> beats new p) \<and>
    (new \<in> set r \<or> (\<exists>p\<in>set olds. p \<in> set r \<and> beats p new))"
  unfolding r_def
proof (cases rule: run_tournament_cases [of olds "judge new" new])
  case (accepted n)
  have mem: "set (take n xs @ new # drop n xs) = insert new (set xs)" for xs
    by (metis append_take_drop_id list.simps(15) set_append Un_insert_right)
  show "set (run_tournament (judge new) new olds) \<subseteq> insert new (set olds) \<and>
    (\<forall>p\<in>set olds. p \<in> set (run_tournament (judge new) new olds) \<or> beats new p) \<and>
    (new \<in> set (run_tournament (judge new) new olds) \<or>
      (\<exists>p\<in>set olds. p \<in> set (run_tournament (judge new) new olds) \<and> beats p new))"
    unfolding accepted(2) mem using remove_dominated [OF assms(1)] assms(2) by auto
next
  case (rejected us p vs)
  have "p \<in> set olds" using rejected(1) by simp
  with reject_dominated [OF assms(1) _ rejected(2)] assms(2) have "beats p new" by blast
  then show "set (run_tournament (judge new) new olds) \<subseteq> insert new (set olds) \<and>
    (\<forall>p\<in>set olds. p \<in> set (run_tournament (judge new) new olds) \<or> beats new p) \<and>
    (new \<in> set (run_tournament (judge new) new olds) \<or>
      (\<exists>p\<in>set olds. p \<in> set (run_tournament (judge new) new olds) \<and> beats p new))"
    unfolding rejected(4) using remove_dominated [OF assms(1)] assms(2) rejected(1) by auto
qed

lemma tournament_undominated:
  assumes "ok new" "\<forall>p\<in>set olds. ok p" "undominated beats olds"
  shows "undominated beats (run_tournament (judge new) new olds)"
proof (cases rule: run_tournament_cases [of olds "judge new" new])
  case (accepted n)
  have "\<not> beats p new \<and> \<not> beats new p" if "p \<in> set (survivors (judge new) olds)" for p
  proof -
    have p: "p \<in> set olds" "judge new p \<noteq> REMOVE_OLD" using that by auto
    then have "judge new p = KEEP_BOTH" using accepted(1) by (cases "judge new p") auto
    then show ?thesis using keep_incomparable [OF assms(1)] assms(2) p(1) by blast
  qed
  then show ?thesis unfolding accepted(2) by (intro undominated_insert undominated_filter assms(3)) blast
next
  case (rejected us p vs)
  then show ?thesis unfolding rejected(4) using assms(3)
    by (simp add: undominated_append undominated_filter)
qed

text \<open>
  What holds of a path and its dominators in one and in two steps holds of every path, given or new,
  and some path that stays.
\<close>

lemma tournament_stand_in:
  assumes "ok new" "\<forall>p\<in>set olds. ok p" "p \<in> insert new (set olds)"
    and "R p p" "\<And>q. beats q p \<Longrightarrow> R q p" "\<And>q. ok q \<Longrightarrow> beats q new \<Longrightarrow> beats new p \<Longrightarrow> R q p"
  shows "\<exists>q\<in>set (run_tournament (judge new) new olds). R q p"
proof -
  let ?r = "set (run_tournament (judge new) new olds)"
  have o: "\<forall>p\<in>set olds. p \<in> ?r \<or> beats new p" "new \<in> ?r \<or> (\<exists>p\<in>set olds. p \<in> ?r \<and> beats p new)"
    using tournament_outcome [OF assms(1,2)] by blast+
  show ?thesis
  proof (cases "p \<in> ?r")
    case True
    then show ?thesis using assms(4) by blast
  next
    case False
    show ?thesis
    proof (cases "p = new")
      case True
      then show ?thesis using o(2) False assms(5) by blast
    next
      case ne: False
      then have "beats new p" using o(1) False assms(3) by blast
      then show ?thesis using o(2) assms(2,5,6) by blast
    qed
  qed
qed

end

section \<open>Dominance\<close>

text \<open>
  A path is no more expensive than another one up to the fuzz factor: in total cost, and in startup
  cost unless the startup cost of the other one is of no interest and its total cost is clearly higher.
\<close>

definition cost_dominates :: "path \<Rightarrow> path \<Rightarrow> bool" where
  "cost_dominates a b \<longleftrightarrow>
     ptotal a \<le> ptotal b * STD_FUZZ_FACTOR \<and>
     (pstartup a \<le> pstartup b * STD_FUZZ_FACTOR \<or>
      \<not> CONSIDER_PATH_STARTUP_COST b \<and> ptotal b > ptotal a * STD_FUZZ_FACTOR)"

definition path_ok :: "path \<Rightarrow> bool" where
  "path_ok p \<longleftrightarrow> 0 \<le> pstartup p \<and> 0 \<le> ptotal p \<and> bms_wf (PATH_REQ_OUTER p)"

text \<open>
  Besides the costs: sorted as well, no further outer relations, no more rows and no less parallel
  safe. Between paths that agree in costs, order and outer relations parallel safety alone decides.
\<close>

definition path_dominates :: "path \<Rightarrow> path \<Rightarrow> bool" where
  "path_dominates a b \<longleftrightarrow>
     cost_dominates a b \<and>
     prefix (map pk_addr (effective_pathkeys b)) (map pk_addr (effective_pathkeys a)) \<and>
     bms_set (PATH_REQ_OUTER a) \<subseteq> bms_set (PATH_REQ_OUTER b) \<and> psafe a \<ge> psafe b \<and>
     (prows a \<le> prows b \<or>
      psafe a > psafe b \<and> cost_dominates b a \<and>
      map pk_addr (effective_pathkeys a) = map pk_addr (effective_pathkeys b) \<and>
      bms_set (PATH_REQ_OUTER a) = bms_set (PATH_REQ_OUTER b))"

lemma fuzz_mono: "0 \<le> x \<Longrightarrow> x \<le> x * STD_FUZZ_FACTOR"
  by (simp add: STD_FUZZ_FACTOR_def)

lemma fuzzy_cost_dominates:
  assumes "path_ok a" "path_ok b"
  shows "compare_path_costs_fuzzily a b STD_FUZZ_FACTOR \<in> {COSTS_EQUAL, COSTS_BETTER1} \<longleftrightarrow> cost_dominates a b"
    and "compare_path_costs_fuzzily a b STD_FUZZ_FACTOR \<in> {COSTS_EQUAL, COSTS_BETTER2} \<longleftrightarrow> cost_dominates b a"
  using assms
  unfolding compare_path_costs_fuzzily_def cost_dominates_def path_ok_def STD_FUZZ_FACTOR_def
  by (auto split: if_splits)

lemma outer_subset:
  assumes "path_ok a" "path_ok b"
  shows "bms_subset_compare (PATH_REQ_OUTER a) (PATH_REQ_OUTER b) \<in> {BMS_EQUAL, BMS_SUBSET1} \<longleftrightarrow>
      bms_set (PATH_REQ_OUTER a) \<subseteq> bms_set (PATH_REQ_OUTER b)"
    and "bms_subset_compare (PATH_REQ_OUTER a) (PATH_REQ_OUTER b) \<in> {BMS_EQUAL, BMS_SUBSET2} \<longleftrightarrow>
      bms_set (PATH_REQ_OUTER b) \<subseteq> bms_set (PATH_REQ_OUTER a)"
proof -
  have wf: "bms_wf (PATH_REQ_OUTER a)" "bms_wf (PATH_REQ_OUTER b)"
    using assms by (auto simp: path_ok_def)
  show "bms_subset_compare (PATH_REQ_OUTER a) (PATH_REQ_OUTER b) \<in> {BMS_EQUAL, BMS_SUBSET1} \<longleftrightarrow>
      bms_set (PATH_REQ_OUTER a) \<subseteq> bms_set (PATH_REQ_OUTER b)"
    unfolding bms.scmp_sub(1) [OF wf] by (rule bms.sub_iff [OF wf])
  show "bms_subset_compare (PATH_REQ_OUTER a) (PATH_REQ_OUTER b) \<in> {BMS_EQUAL, BMS_SUBSET2} \<longleftrightarrow>
      bms_set (PATH_REQ_OUTER b) \<subseteq> bms_set (PATH_REQ_OUTER a)"
    unfolding bms.scmp_sub(2) [OF wf] by (rule bms.sub_iff [OF wf(2,1)])
qed


definition normal_mode :: "jop_state \<Rightarrow> bool" where
  "normal_mode g \<longleftrightarrow> \<not> (enable_join_order_plans g \<and> save_join_order_plan_finished g)"

definition jop_off :: jop_state where
  "jop_off = \<lparr>enable_join_order_plans = False, save_join_order_plan_finished = False\<rparr>"

lemma normal_verdict: "normal_mode g \<Longrightarrow> add_path_verdict g = add_path_verdict jop_off"
  by (intro ext) (auto simp: normal_mode_def jop_off_def add_path_verdict_def)

text \<open>The three comparisons decide the verdict; each compares in a way that the parts of dominance describe.\<close>

lemma add_path_verdict_dominates:
  assumes "path_ok new" "path_ok old"
  shows "add_path_verdict jop_off new old = REMOVE_OLD \<Longrightarrow> path_dominates new old"
    and "add_path_verdict jop_off new old = REJECT_NEW \<Longrightarrow> path_dominates old new"
    and "add_path_verdict jop_off new old = KEEP_BOTH \<Longrightarrow> \<not> path_dominates new old \<and> \<not> path_dominates old new"
proof -
  define cost where "cost = compare_path_costs_fuzzily new old STD_FUZZ_FACTOR"
  define keys where "keys = compare_pathkeys (effective_pathkeys new) (effective_pathkeys old)"
  define outer where "outer = bms_subset_compare (PATH_REQ_OUTER new) (PATH_REQ_OUTER old)"
  note c = fuzzy_cost_dominates [OF assms, folded cost_def]
  note l = outer_subset [OF assms, folded outer_def]
  have k: "keys \<in> {PATHKEYS_EQUAL, PATHKEYS_BETTER1} \<longleftrightarrow>
      prefix (map pk_addr (effective_pathkeys old)) (map pk_addr (effective_pathkeys new))"
    "keys \<in> {PATHKEYS_EQUAL, PATHKEYS_BETTER2} \<longleftrightarrow>
      prefix (map pk_addr (effective_pathkeys new)) (map pk_addr (effective_pathkeys old))"
    unfolding keys_def compare_pathkeys_iff sorts_as_well_def pk_addrs_def by (rule refl)+
  have same: "xs = ys \<longleftrightarrow> prefix xs ys \<and> prefix ys xs" for xs ys :: "nat list"
    by (auto intro: prefix_order.antisym)
  have dom: "path_dominates new old \<longleftrightarrow> cost \<in> {COSTS_EQUAL, COSTS_BETTER1} \<and> keys \<in> {PATHKEYS_EQUAL, PATHKEYS_BETTER1} \<and>
      outer \<in> {BMS_EQUAL, BMS_SUBSET1} \<and> psafe new \<ge> psafe old \<and>
      (prows new \<le> prows old \<or> psafe new > psafe old \<and> cost = COSTS_EQUAL \<and> keys = PATHKEYS_EQUAL \<and> outer = BMS_EQUAL)"
    "path_dominates old new \<longleftrightarrow> cost \<in> {COSTS_EQUAL, COSTS_BETTER2} \<and> keys \<in> {PATHKEYS_EQUAL, PATHKEYS_BETTER2} \<and>
      outer \<in> {BMS_EQUAL, BMS_SUBSET2} \<and> psafe old \<ge> psafe new \<and>
      (prows old \<le> prows new \<or> psafe old > psafe new \<and> cost = COSTS_EQUAL \<and> keys = PATHKEYS_EQUAL \<and> outer = BMS_EQUAL)"
    unfolding path_dominates_def c [symmetric] k [symmetric] l [symmetric] same set_eq_subset
    by (cases cost; cases keys; cases outer; simp)+
  have v: "add_path_verdict jop_off new old =
      (if cost = COSTS_DIFFERENT \<or> keys = PATHKEYS_DIFFERENT then KEEP_BOTH
       else case cost of
        COSTS_EQUAL \<Rightarrow>
          (if keys = PATHKEYS_BETTER1 then (if new_no_worse outer new old then REMOVE_OLD else KEEP_BOTH)
           else if keys = PATHKEYS_BETTER2 then (if old_no_worse outer new old then REJECT_NEW else KEEP_BOTH)
           else if outer = BMS_EQUAL then tie_verdict new old
           else if outer = BMS_SUBSET1 \<and> new_no_worse outer new old then REMOVE_OLD
           else if outer = BMS_SUBSET2 \<and> old_no_worse outer new old then REJECT_NEW
           else KEEP_BOTH)
      | COSTS_BETTER1 \<Rightarrow> (if keys \<noteq> PATHKEYS_BETTER2 \<and> new_no_worse outer new old then REMOVE_OLD else KEEP_BOTH)
      | COSTS_BETTER2 \<Rightarrow> (if keys \<noteq> PATHKEYS_BETTER1 \<and> old_no_worse outer new old then REJECT_NEW else KEEP_BOTH)
      | COSTS_DIFFERENT \<Rightarrow> KEEP_BOTH)"
    unfolding add_path_verdict_def jop_off_def Let_def cost_def keys_def outer_def by simp
  show "add_path_verdict jop_off new old = REMOVE_OLD \<Longrightarrow> path_dominates new old"
    "add_path_verdict jop_off new old = REJECT_NEW \<Longrightarrow> path_dominates old new"
    "add_path_verdict jop_off new old = KEEP_BOTH \<Longrightarrow> \<not> path_dominates new old \<and> \<not> path_dominates old new"
    unfolding v dom new_no_worse_def old_no_worse_def tie_verdict_def
    by (cases cost; cases keys; cases outer; auto split: if_splits)+
qed

interpretation all_paths: path_tournament path_ok "add_path_verdict jop_off" path_dominates
  by unfold_locales (rule add_path_verdict_dominates; assumption)+

definition partial_dominates :: "path \<Rightarrow> path \<Rightarrow> bool" where
  "partial_dominates a b \<longleftrightarrow>
     ptotal a \<le> ptotal b * STD_FUZZ_FACTOR \<and>
     prefix (map pk_addr (pathkeys (info b))) (map pk_addr (pathkeys (info a)))"

lemma partial_verdict_dominates:
  assumes "0 \<le> ptotal new" "0 \<le> ptotal old"
  shows "partial_verdict new old = REMOVE_OLD \<Longrightarrow> partial_dominates new old"
    and "partial_verdict new old = REJECT_NEW \<Longrightarrow> partial_dominates old new"
    and "partial_verdict new old = KEEP_BOTH \<Longrightarrow> \<not> partial_dominates new old \<and> \<not> partial_dominates old new"
proof -
  define keys where "keys = compare_pathkeys (pathkeys (info new)) (pathkeys (info old))"
  have k: "keys \<in> {PATHKEYS_EQUAL, PATHKEYS_BETTER1} \<longleftrightarrow>
      prefix (map pk_addr (pathkeys (info old))) (map pk_addr (pathkeys (info new)))"
    "keys \<in> {PATHKEYS_EQUAL, PATHKEYS_BETTER2} \<longleftrightarrow>
      prefix (map pk_addr (pathkeys (info new))) (map pk_addr (pathkeys (info old)))"
    unfolding keys_def compare_pathkeys_iff sorts_as_well_def pk_addrs_def by (rule refl)+
  show "partial_verdict new old = REMOVE_OLD \<Longrightarrow> partial_dominates new old"
    "partial_verdict new old = REJECT_NEW \<Longrightarrow> partial_dominates old new"
    "partial_verdict new old = KEEP_BOTH \<Longrightarrow> \<not> partial_dominates new old \<and> \<not> partial_dominates old new"
    unfolding partial_verdict_def partial_dominates_def Let_def keys_def [symmetric] k [symmetric]
    using assms by (cases keys; auto simp: STD_FUZZ_FACTOR_def split: if_splits)+
qed

interpretation partial_paths: path_tournament "\<lambda>p. 0 \<le> ptotal p" partial_verdict partial_dominates
  by unfold_locales (rule partial_verdict_dominates; assumption)+

section \<open>The precheck\<close>

definition precheck_loses :: "bool \<Rightarrow> Cost \<Rightarrow> Cost \<Rightarrow> PathKey list \<Rightarrow> Relids \<Rightarrow> path \<Rightarrow> bool" where
  "precheck_loses consider s t keys req old \<longleftrightarrow>
     t > ptotal old * STD_FUZZ_FACTOR \<and>
     (s > pstartup old * STD_FUZZ_FACTOR \<or> \<not> consider) \<and>
     compare_pathkeys keys (effective_pathkeys old) \<in> {PATHKEYS_EQUAL, PATHKEYS_BETTER2} \<and>
     bms_equal req (PATH_REQ_OUTER old)"

lemma precheck_rejects:
  "\<not> precheck_loop consider s t keys req olds \<Longrightarrow> \<exists>old\<in>set olds. precheck_loses consider s t keys req old"
  by (induction olds) (auto simp: precheck_loses_def split: if_splits)

lemma precheck_sorted:
  assumes "sorted_by_total olds"
  shows "precheck_loop consider s t keys req olds \<longleftrightarrow>
    (\<forall>old\<in>set olds. \<not> precheck_loses consider s t keys req old)"
  using assms
proof (induction olds)
  case (Cons old olds)
  show ?case
  proof (cases "t > ptotal old * STD_FUZZ_FACTOR")
    case True
    then show ?thesis using Cons by (auto simp: precheck_loses_def sorted_by_total_def)
  next
    case False
    have "ptotal old * STD_FUZZ_FACTOR \<le> ptotal q * STD_FUZZ_FACTOR" if "q \<in> set (old # olds)" for q
      using Cons.prems that by (auto simp: sorted_by_total_def STD_FUZZ_FACTOR_def)
    with False have "\<not> precheck_loses consider s t keys req q" if "q \<in> set (old # olds)" for q
      using that unfolding precheck_loses_def by fastforce
    with False show ?thesis by simp
  qed
qed simp

lemma precheck_loses_rejected:
  assumes "normal_mode g" "path_ok new" "path_ok old"
    "precheck_loses (CONSIDER_PATH_STARTUP_COST new) s t (effective_pathkeys new) (PATH_REQ_OUTER new) old"
    "s \<le> pstartup new" "t \<le> ptotal new" "prows old \<le> prows new" "psafe new \<le> psafe old"
  shows "add_path_verdict g new old = REJECT_NEW"
proof -
  have l: "t > ptotal old * STD_FUZZ_FACTOR"
    "s > pstartup old * STD_FUZZ_FACTOR \<or> \<not> CONSIDER_PATH_STARTUP_COST new"
    "compare_pathkeys (effective_pathkeys new) (effective_pathkeys old) \<in> {PATHKEYS_EQUAL, PATHKEYS_BETTER2}"
    "bms_equal (PATH_REQ_OUTER new) (PATH_REQ_OUTER old)"
    using assms(4) unfolding precheck_loses_def by auto
  have wf: "bms_wf (PATH_REQ_OUTER new)" "bms_wf (PATH_REQ_OUTER old)"
    using assms(2,3) by (auto simp: path_ok_def)
  have cost: "compare_path_costs_fuzzily new old STD_FUZZ_FACTOR = COSTS_BETTER2"
    using l(1,2) assms(2,3,5,6)
    unfolding compare_path_costs_fuzzily_def path_ok_def STD_FUZZ_FACTOR_def by auto
  have outer: "bms_subset_compare (PATH_REQ_OUTER new) (PATH_REQ_OUTER old) = BMS_EQUAL"
    using l(4) bms.scmp_sub(3) [OF wf] by simp
  show ?thesis
    using assms(1,7,8) l(3)
    by (auto simp: add_path_verdict_def normal_mode_def cost outer old_no_worse_def Let_def)
qed

lemma survivors_subseq: "subseq (survivors judge us @ p # vs) (us @ p # vs)"
  by (intro list_emb_append_mono subseq_filter_left) simp_all

lemma rejected_subseq:
  assumes "old \<in> set olds" "judge old = REJECT_NEW"
  shows "subseq (run_tournament judge new olds) olds"
proof (cases rule: run_tournament_cases [of olds judge new])
  case (accepted n)
  with assms show ?thesis by blast
next
  case (rejected us p vs)
  then show ?thesis using survivors_subseq [of judge us p vs] by simp
qed

section \<open>Athena's mode\<close>

lemma keep_both_outcome:
  assumes "\<forall>p\<in>set olds. judge p = KEEP_BOTH"
  shows "mset (run_tournament judge new olds) = add_mset new (mset olds)"
proof (cases rule: run_tournament_cases [of olds judge new])
  case (accepted n)
  have "survivors judge olds = olds" using assms by (simp add: filter_id_conv)
  then have "mset (run_tournament judge new olds) =
      mset (take n olds) + add_mset new (mset (drop n olds))" using accepted(2) by simp
  also have "\<dots> = add_mset new (mset (take n olds @ drop n olds))"
    by (simp del: append_take_drop_id)
  finally show ?thesis by (simp only: append_take_drop_id)
next
  case (rejected us p vs)
  with assms show ?thesis by simp
qed

section \<open>Correctness\<close>

definition jop_collecting :: jop_state where
  "jop_collecting = \<lparr>enable_join_order_plans = True, save_join_order_plan_finished = True\<rparr>"

lemma sample_path_ok [simp]: "0 \<le> s \<Longrightarrow> 0 \<le> t \<Longrightarrow> path_ok (sample_path s t)"
  by (simp add: path_ok_def sample_path_def PATH_REQ_OUTER_def)

lemma stand_in_costs:
  assumes "path_ok q" "path_ok p" "path_dominates q new" "path_dominates new p"
  shows "ptotal q \<le> ptotal p * STD_FUZZ_FACTOR\<^sup>2"
  using assms by (simp add: path_dominates_def cost_dominates_def path_ok_def STD_FUZZ_FACTOR_def power2_eq_square)

text \<open>C1. The path list of \<^verbatim>\<open>add_path\<close> in normal mode. If no path of the old list dominates another one, none
  of the new list does: none is, up to the fuzz factor, as cheap, and sorted as well, free of further
  outer relations, without more rows and as parallel safe as another one. The new list holds the new path
  and old ones only. An old path that is gone is dominated by the new one, and a new path that was not
  kept is dominated by an old path that was. So for every path, given or new, there is one in the list
  that is sorted as well, needs no further outer relations, is as parallel safe, and costs at most the
  square of the fuzz factor times as much.\<close>

theorem add_path_keeps_undominated:
  assumes "normal_mode g" and "path_ok new" and "\<forall>p\<in>set (pathlist rel). path_ok p"
    and "undominated path_dominates (pathlist rel)"
  shows "undominated path_dominates (pathlist (add_path g rel new)) \<and>
    set (pathlist (add_path g rel new)) \<subseteq> insert new (set (pathlist rel)) \<and>
    (\<forall>p\<in>set (pathlist rel). p \<in> set (pathlist (add_path g rel new)) \<or> path_dominates new p) \<and>
    (new \<in> set (pathlist (add_path g rel new)) \<or>
      (\<exists>p\<in>set (pathlist rel). p \<in> set (pathlist (add_path g rel new)) \<and> path_dominates p new)) \<and>
    (\<forall>p\<in>insert new (set (pathlist rel)). \<exists>q\<in>set (pathlist (add_path g rel new)).
      prefix (map pk_addr (effective_pathkeys p)) (map pk_addr (effective_pathkeys q)) \<and>
      bms_set (PATH_REQ_OUTER q) \<subseteq> bms_set (PATH_REQ_OUTER p) \<and> psafe q \<ge> psafe p \<and>
      ptotal q \<le> ptotal p * STD_FUZZ_FACTOR\<^sup>2)"
proof -
  have eq: "pathlist (add_path g rel new) = run_tournament (add_path_verdict jop_off new) new (pathlist rel)"
    by (simp add: add_path_def normal_verdict [OF assms(1)])
  let ?R = "\<lambda>q p. prefix (map pk_addr (effective_pathkeys p)) (map pk_addr (effective_pathkeys q)) \<and>
      bms_set (PATH_REQ_OUTER q) \<subseteq> bms_set (PATH_REQ_OUTER p) \<and> psafe q \<ge> psafe p \<and>
      ptotal q \<le> ptotal p * STD_FUZZ_FACTOR\<^sup>2"
  have "\<exists>q\<in>set (pathlist (add_path g rel new)). ?R q p" if p: "p \<in> insert new (set (pathlist rel))" for p
    unfolding eq
  proof (rule all_paths.tournament_stand_in [OF assms(2,3) p, where R = ?R])
    have ok: "path_ok p" using p assms(2,3) by blast
    then show "?R p p" by (simp add: path_ok_def STD_FUZZ_FACTOR_def power2_eq_square)
    show "?R q p" if "path_dominates q p" for q
      using that ok by (auto simp: path_dominates_def cost_dominates_def path_ok_def STD_FUZZ_FACTOR_def power2_eq_square)
    show "?R q p" if "path_ok q" "path_dominates q new" "path_dominates new p" for q
      using stand_in_costs [OF that(1) ok that(2,3)] that(2,3) by (auto simp: path_dominates_def intro: prefix_order.trans)
  qed
  then show ?thesis
    using all_paths.tournament_outcome [OF assms(2,3)] all_paths.tournament_undominated [OF assms(2-4)]
    unfolding eq by blast
qed

definition keyed_path :: "Cost \<Rightarrow> nat \<Rightarrow> path" where
  "keyed_path t k = BasePath ((info (sample_path 0 t))\<lparr>pathkeys := [sample_key k k]\<rparr>)"

lemma keyed_path_facts:
  "0 \<le> t \<Longrightarrow> path_ok (keyed_path t k)" "ptotal (keyed_path t k) = t" "psafe (keyed_path t k)"
  "path_dominates (keyed_path t k) (keyed_path u m) \<longleftrightarrow> t \<le> u * STD_FUZZ_FACTOR \<and> k = m"
  "pathkeys (info (keyed_path t k)) = [sample_key k k]"
  by (auto simp: keyed_path_def path_ok_def path_dominates_def cost_dominates_def sample_path_def sample_key_def
      PATH_REQ_OUTER_def effective_pathkeys_def)

theorem add_path_keeps_undominated_witness:
  "undominated path_dominates [keyed_path 5 1, keyed_path 9 2] \<and>
   undominated path_dominates
     (pathlist (add_path jop_off (sample_rel\<lparr>pathlist := [keyed_path 5 1, keyed_path 9 2]\<rparr>) (keyed_path 7 2))) \<and>
   keyed_path 5 1 \<in> set (pathlist (add_path jop_off (sample_rel\<lparr>pathlist := [keyed_path 5 1, keyed_path 9 2]\<rparr>) (keyed_path 7 2))) \<and>
   keyed_path 7 2 \<in> set (pathlist (add_path jop_off (sample_rel\<lparr>pathlist := [keyed_path 5 1, keyed_path 9 2]\<rparr>) (keyed_path 7 2)))"
proof -
  let ?rel = "sample_rel\<lparr>pathlist := [keyed_path 5 1, keyed_path 9 2]\<rparr>"
  have h: "normal_mode jop_off" "path_ok (keyed_path 7 2)" "\<forall>p\<in>set (pathlist ?rel). path_ok p"
    "undominated path_dominates (pathlist ?rel)"
    by (simp_all add: normal_mode_def jop_off_def undominated_def keyed_path_facts)
  from add_path_keeps_undominated [OF this] h(4) show ?thesis by (auto simp: keyed_path_facts STD_FUZZ_FACTOR_def)
qed

text \<open>C17. The path list stays sorted by total cost under \<^verbatim>\<open>add_path\<close>, in every mode, and the partial
  path list under \<^verbatim>\<open>add_partial_path\<close>.\<close>

theorem add_path_sorted:
  assumes "sorted_by_total (pathlist rel)" and "sorted_by_total (partial_pathlist rel)"
  shows "sorted_by_total (pathlist (add_path g rel new)) \<and>
    (\<forall>rel'. add_partial_path rel new = Inr rel' \<longrightarrow> sorted_by_total (partial_pathlist rel'))"
  using assms by (auto simp: add_path_def add_partial_path_def run_tournament_sorted split: if_splits)

theorem add_path_sorted_witness:
  "sorted_by_total (pathlist (sample_rel\<lparr>pathlist := [sample_path 1 5, sample_path 0 9]\<rparr>)) \<and>
   sorted_by_total (pathlist (add_path jop_off
     (sample_rel\<lparr>pathlist := [sample_path 1 5, sample_path 0 9]\<rparr>) (sample_path 0 7)))"
proof -
  have "sorted_by_total (pathlist (sample_rel\<lparr>pathlist := [sample_path 1 5, sample_path 0 9]\<rparr>))"
    "sorted_by_total (partial_pathlist (sample_rel\<lparr>pathlist := [sample_path 1 5, sample_path 0 9]\<rparr>))"
    by (simp_all add: sorted_by_total_def sample_path_def sample_rel_def)
  with add_path_sorted show ?thesis by blast
qed

text \<open>C12. Athena's collecting mode: with \<^verbatim>\<open>enable_join_order_plans\<close> and
  \<^verbatim>\<open>save_join_order_plan_finished\<close> both set, \<^verbatim>\<open>add_path\<close> keeps every path it has ever been given:
  the new list is the old one with the new path added.\<close>

theorem add_path_collects_all:
  assumes "enable_join_order_plans g" and "save_join_order_plan_finished g"
  shows "mset (pathlist (add_path g rel new)) = add_mset new (mset (pathlist rel))"
  using assms
  by (auto simp: add_path_def add_path_verdict_def intro!: keep_both_outcome)

theorem add_path_collects_all_witness:
  "mset (pathlist (add_path jop_collecting (sample_rel\<lparr>pathlist := [sample_path 1 5]\<rparr>) (sample_path 2 9))) =
   {#sample_path 2 9, sample_path 1 5#}"
  using add_path_collects_all [of jop_collecting "sample_rel\<lparr>pathlist := [sample_path 1 5]\<rparr>" "sample_path 2 9"]
  by (simp add: jop_collecting_def)

text \<open>C14. The precheck is sound: if \<^verbatim>\<open>add_path_precheck\<close> refuses lower bounds of a path's costs,
  its sort order and its outer relations, then \<^verbatim>\<open>add_path\<close> in normal mode does not accept that
  path, provided that no old path of the same parameterization has more rows or is less parallel
  safe.\<close>

theorem add_path_precheck_sound:
  assumes "normal_mode g" and "path_ok new" and "\<forall>p\<in>set (pathlist rel). path_ok p"
    and "CONSIDER_PATH_STARTUP_COST new =
      (if PATH_REQ_OUTER new \<noteq> None then rel_consider_param_startup rel else rel_consider_startup rel)"
    and "effective_pathkeys new = (if PATH_REQ_OUTER new \<noteq> None then [] else keys)"
    and "s \<le> pstartup new" and "t \<le> ptotal new"
    and "\<forall>p\<in>set (pathlist rel). bms_equal (PATH_REQ_OUTER new) (PATH_REQ_OUTER p) \<longrightarrow>
      prows p \<le> prows new \<and> psafe new \<le> psafe p"
    and "\<not> add_path_precheck rel s t keys (PATH_REQ_OUTER new)"
  shows "subseq (pathlist (add_path g rel new)) (pathlist rel)"
proof -
  from assms(9) obtain old where old: "old \<in> set (pathlist rel)"
    "precheck_loses (CONSIDER_PATH_STARTUP_COST new) s t (effective_pathkeys new) (PATH_REQ_OUTER new) old"
    unfolding add_path_precheck_def assms(4,5) using precheck_rejects by blast
  have "prows old \<le> prows new" "psafe new \<le> psafe old"
    using assms(8) old unfolding precheck_loses_def by auto
  with assms old have "add_path_verdict g new old = REJECT_NEW"
    by (intro precheck_loses_rejected [OF assms(1,2) _ old(2)]) auto
  then show ?thesis unfolding add_path_def using rejected_subseq [OF old(1)] by simp
qed

definition startup_rel :: "path list \<Rightarrow> RelOptInfo" where
  "startup_rel ps = sample_rel\<lparr>rel_consider_startup := True, pathlist := ps\<rparr>"

theorem add_path_precheck_sound_witness:
  "\<not> add_path_precheck (startup_rel [sample_path 0 5]) 1 10 [] None \<and>
   subseq (pathlist (add_path jop_off (startup_rel [sample_path 0 5]) (sample_path 1 10)))
     [sample_path 0 5]"
proof -
  have pre: "\<not> add_path_precheck (startup_rel [sample_path 0 5]) 1 10 [] (PATH_REQ_OUTER (sample_path 1 10))"
    by (simp add: add_path_precheck_def startup_rel_def sample_rel_def sample_path_def
        STD_FUZZ_FACTOR_def effective_pathkeys_def compare_pathkeys_def PATH_REQ_OUTER_def bms_equal_def)
  have "subseq (pathlist (add_path jop_off (startup_rel [sample_path 0 5]) (sample_path 1 10)))
      (pathlist (startup_rel [sample_path 0 5]))"
    by (rule add_path_precheck_sound [OF _ _ _ _ _ _ _ _ pre])
      (simp_all add: normal_mode_def jop_off_def startup_rel_def sample_rel_def path_ok_def sample_path_def
        CONSIDER_PATH_STARTUP_COST_def effective_pathkeys_def PATH_REQ_OUTER_def)
  with pre show ?thesis by (simp add: startup_rel_def PATH_REQ_OUTER_def sample_path_def)
qed

text \<open>C35. The early exit of the precheck is harmless on a sorted list: it refuses exactly when some
  old path, anywhere in the list, beats the proposed costs, sort order and parameterization.\<close>

theorem add_path_precheck_exact:
  assumes "sorted_by_total (pathlist rel)"
  shows "add_path_precheck rel s t keys req \<longleftrightarrow>
    (\<forall>old\<in>set (pathlist rel). \<not> precheck_loses
      (if req \<noteq> None then rel_consider_param_startup rel else rel_consider_startup rel)
      s t (if req \<noteq> None then [] else keys) req old)"
  unfolding add_path_precheck_def by (rule precheck_sorted [OF assms])

theorem add_path_precheck_exact_witness:
  "sorted_by_total (pathlist (startup_rel [sample_path 0 5])) \<and>
   (add_path_precheck (startup_rel [sample_path 0 5]) 0 1 [] None \<longleftrightarrow>
     \<not> precheck_loses True 0 1 [] None (sample_path 0 5))"
proof -
  have s: "sorted_by_total (pathlist (startup_rel [sample_path 0 5]))"
    by (simp add: sorted_by_total_def startup_rel_def)
  from add_path_precheck_exact [OF s, of 0 1 "[]" None] s show ?thesis
    by (simp add: startup_rel_def)
qed

lemma partial_precheck_rejects:
  "partial_precheck_loop t keys olds = Some False \<Longrightarrow>
     \<exists>old\<in>set olds. compare_pathkeys keys (pathkeys (info old)) \<in> {PATHKEYS_EQUAL, PATHKEYS_BETTER2} \<and>
       t > ptotal old * STD_FUZZ_FACTOR"
proof (induction olds)
  case (Cons old olds)
  then show ?case
    by (cases "compare_pathkeys keys (pathkeys (info old))") (auto simp: Let_def split: if_splits)
qed simp

text \<open>C18. Partial paths: for a parallel-safe path and a relation that may be scanned in parallel,
  \<^verbatim>\<open>add_partial_path\<close> keeps the partial path list sorted by total cost and free of paths that another one of
  them dominates, that is, for which another one is sorted as well and not fuzzily more expensive. The
  list holds the new path and old ones only; an old path that is gone is dominated by the new one, a new
  path that was not kept by an old one that was. A path whose lower cost bound the first loop of
  \<^verbatim>\<open>add_partial_path_precheck\<close> refuses is not accepted.\<close>

theorem add_partial_path_keeps_undominated:
  assumes "psafe new" and "consider_parallel rel"
    and "0 \<le> ptotal new" and "\<forall>p\<in>set (partial_pathlist rel). 0 \<le> ptotal p"
    and "sorted_by_total (partial_pathlist rel)" and "undominated partial_dominates (partial_pathlist rel)"
  shows "\<exists>ps. add_partial_path rel new = Inr (rel\<lparr>partial_pathlist := ps\<rparr>) \<and>
    sorted_by_total ps \<and> undominated partial_dominates ps \<and>
    set ps \<subseteq> insert new (set (partial_pathlist rel)) \<and>
    (\<forall>p\<in>set (partial_pathlist rel). p \<in> set ps \<or> partial_dominates new p) \<and>
    (new \<in> set ps \<or> (\<exists>p\<in>set (partial_pathlist rel). p \<in> set ps \<and> partial_dominates p new)) \<and>
    (\<forall>t\<le>ptotal new.
      partial_precheck_loop t (pathkeys (info new)) (partial_pathlist rel) = Some False \<longrightarrow>
      subseq ps (partial_pathlist rel))"
proof -
  let ?ps = "run_tournament (partial_verdict new) new (partial_pathlist rel)"
  have run: "add_partial_path rel new = Inr (rel\<lparr>partial_pathlist := ?ps\<rparr>)"
    using assms(1,2) by (simp add: add_partial_path_def)
  have pre: "subseq ?ps (partial_pathlist rel)"
    if t: "t \<le> ptotal new"
      "partial_precheck_loop t (pathkeys (info new)) (partial_pathlist rel) = Some False" for t
  proof -
    from partial_precheck_rejects [OF t(2)] obtain old where old: "old \<in> set (partial_pathlist rel)"
      "compare_pathkeys (pathkeys (info new)) (pathkeys (info old)) \<in> {PATHKEYS_EQUAL, PATHKEYS_BETTER2}"
      "t > ptotal old * STD_FUZZ_FACTOR" by blast
    then have "partial_verdict new old = REJECT_NEW"
      using t(1) by (auto simp: partial_verdict_def Let_def)
    with old(1) show ?thesis by (rule rejected_subseq)
  qed
  have "sorted_by_total ?ps" by (rule run_tournament_sorted [OF assms(5)])
  moreover have "undominated partial_dominates ?ps" by (rule partial_paths.tournament_undominated [OF assms(3,4,6)])
  ultimately show ?thesis using run pre partial_paths.tournament_outcome [OF assms(3,4)]
    by (intro exI [of _ ?ps]) blast
qed

theorem add_partial_path_keeps_undominated_witness:
  "\<exists>ps. add_partial_path (sample_rel\<lparr>partial_pathlist := [keyed_path 5 1, keyed_path 9 2]\<rparr>) (keyed_path 7 2) =
       Inr (sample_rel\<lparr>partial_pathlist := ps\<rparr>) \<and>
     sorted_by_total ps \<and> undominated partial_dominates ps \<and> keyed_path 5 1 \<in> set ps \<and> keyed_path 7 2 \<in> set ps"
proof -
  let ?rel = "sample_rel\<lparr>partial_pathlist := [keyed_path 5 1, keyed_path 9 2]\<rparr>"
  have dom: "partial_dominates (keyed_path t k) (keyed_path u m) \<longleftrightarrow> t \<le> u * STD_FUZZ_FACTOR \<and> k = m" for t k u m
    by (auto simp: partial_dominates_def keyed_path_facts sample_key_def)
  have "psafe (keyed_path 7 2)" "consider_parallel ?rel" "0 \<le> ptotal (keyed_path 7 2)"
    "\<forall>p\<in>set (partial_pathlist ?rel). 0 \<le> ptotal p" "sorted_by_total (partial_pathlist ?rel)"
    "undominated partial_dominates (partial_pathlist ?rel)"
    by (simp_all add: keyed_path_facts sample_rel_def sorted_by_total_def undominated_def dom)
  from add_partial_path_keeps_undominated [OF this] obtain ps where
    ps: "add_partial_path ?rel (keyed_path 7 2) = Inr (?rel\<lparr>partial_pathlist := ps\<rparr>)" "sorted_by_total ps"
      "undominated partial_dominates ps"
      "\<forall>p\<in>set (partial_pathlist ?rel). p \<in> set ps \<or> partial_dominates (keyed_path 7 2) p"
      "keyed_path 7 2 \<in> set ps \<or> (\<exists>p\<in>set (partial_pathlist ?rel). p \<in> set ps \<and> partial_dominates p (keyed_path 7 2))"
    by blast
  have "keyed_path 5 1 \<in> set ps" "keyed_path 7 2 \<in> set ps" using ps(4,5) by (auto simp: dom STD_FUZZ_FACTOR_def)
  with ps(1-3) show ?thesis by auto
qed

section \<open>Two divergences\<close>

text \<open>
  Among paths of fuzzily equal cost with the same keys and outer relations, parallel safety decides
  before the row count is looked at: the new path can remove an old one that returns fewer rows.
\<close>

lemma add_path_ignores_rows_for_parallel_safety:
  defines "old \<equiv> BasePath ((info (sample_path 0 5))\<lparr>parallel_safe := False, rows := 1\<rparr>)"
  shows "prows old < prows (sample_path 0 5) \<and>
    pathlist (add_path jop_off (sample_rel\<lparr>pathlist := [old]\<rparr>) (sample_path 0 5)) = [sample_path 0 5]"
  by (simp add: old_def sample_path_def add_path_def run_tournament_def add_path_verdict_def jop_off_def
      tie_verdict_def compare_path_costs_fuzzily_def STD_FUZZ_FACTOR_def effective_pathkeys_def
      compare_pathkeys_def PATH_REQ_OUTER_def bms_subset_compare_def Let_def)

text \<open>The precheck knows nothing of the collecting mode: it refuses paths that \<^verbatim>\<open>add_path\<close> keeps.\<close>

lemma precheck_refuses_collected_path:
  "\<not> add_path_precheck (startup_rel [sample_path 0 5]) 1 10 [] None \<and>
   sample_path 1 10 \<in> set (pathlist (add_path jop_collecting (startup_rel [sample_path 0 5]) (sample_path 1 10)))"
  by (simp add: add_path_precheck_def startup_rel_def sample_rel_def sample_path_def
      STD_FUZZ_FACTOR_def effective_pathkeys_def compare_pathkeys_def PATH_REQ_OUTER_def bms_equal_def
      add_path_def run_tournament_def add_path_verdict_def jop_collecting_def)

end
