(* ===== verification/Joinorder.thy ===== *)
theory Joinorder
  imports Addpath
begin

text \<open>
  Athena's record of join orders: \<^verbatim>\<open>src/backend/optimizer/jop/jop_extension.c\<close>. A byte buffer is a
  list of optional characters, \<open>None\<close> for bytes never written, as long as the allocation, so a
  write outside it is an error value. The loop that grows the capacity returns \<open>None\<close> when it does
  not end. A C string is the list of its characters before the terminating NUL.
\<close>

section \<open>Strings under construction\<close>

record string_builder =
  sb_data :: "char option list"
  sb_len :: nat
  sb_cap :: nat

definition NUL :: char where
  "NUL = CHR 0x00"

definition palloc_bytes :: "nat \<Rightarrow> char option list" where
  "palloc_bytes n = replicate n None"

definition memcpy_to :: "char option list \<Rightarrow> nat \<Rightarrow> char option list \<Rightarrow> char option list res" where
  "memcpy_to dst off src =
     (if off + length src \<le> length dst
      then Inr (take off dst @ src @ drop (off + length src) dst)
      else Inl BadAccess)"

definition memcpy_from :: "char option list \<Rightarrow> nat \<Rightarrow> char option list res" where
  "memcpy_from src n = (if n \<le> length src then Inr (take n src) else Inl BadAccess)"

definition string_builder_init :: string_builder where
  "string_builder_init = \<lparr>sb_data = (palloc_bytes 10)[0 := Some NUL], sb_len = 0, sb_cap = 10\<rparr>"

partial_function (option) grow_cap :: "nat \<Rightarrow> nat \<Rightarrow> nat option" where
  "grow_cap new_cap new_len =
     (if new_cap < new_len + 1 then grow_cap (new_cap * 2) new_len else Some new_cap)"

definition string_builder_append :: "string_builder \<Rightarrow> string \<Rightarrow> string_builder res option" where
  "string_builder_append self app =
     (let append_len = length app;
          new_len = sb_len self + append_len
      in case grow_cap (sb_cap self) new_len of
           None \<Rightarrow> None
         | Some new_cap \<Rightarrow>
             Some (res_bind
               (if new_cap \<noteq> sb_cap self
                then res_bind (memcpy_from (sb_data self) (sb_len self)) (\<lambda>old.
                       res_bind (memcpy_to (palloc_bytes new_cap) 0 old) (\<lambda>new_data.
                         Inr (self\<lparr>sb_data := new_data, sb_cap := new_cap\<rparr>)))
                else Inr self)
               (\<lambda>sb. res_bind (memcpy_to (sb_data sb) (sb_len sb) (map Some (app @ [NUL]))) (\<lambda>d.
                  Inr (sb\<lparr>sb_data := d, sb_len := new_len\<rparr>)))))"

text \<open>Appending several strings in turn, and the copy of the result that is handed back.\<close>

fun append_all :: "string_builder \<Rightarrow> string list \<Rightarrow> string_builder res option" where
  "append_all sb [] = Some (Inr sb)"
| "append_all sb (s # ss) =
     (case string_builder_append sb s of
        None \<Rightarrow> None
      | Some (Inl e) \<Rightarrow> Some (Inl e)
      | Some (Inr sb') \<Rightarrow> append_all sb' ss)"

definition build_string :: "string list \<Rightarrow> char option list res option" where
  "build_string ss =
     (case append_all string_builder_init ss of
        None \<Rightarrow> None
      | Some (Inl e) \<Rightarrow> Some (Inl e)
      | Some (Inr sb) \<Rightarrow> Some (memcpy_from (sb_data sb) (sb_len sb)))"

section \<open>The join order of a path\<close>

text \<open>What the switch on \<^verbatim>\<open>pathtype\<close> does with a node.\<close>

datatype jop_action = JopScan | JopJoin | JopSub | JopWarn | JopAssert | JopError

definition jop_action_of :: "path_info \<Rightarrow> jop_action" where
  "jop_action_of pinf =
     (case pathtype pinf of
        T_SeqScan \<Rightarrow> JopScan | T_IndexScan \<Rightarrow> JopScan | T_IndexOnlyScan \<Rightarrow> JopScan
      | T_BitmapHeapScan \<Rightarrow> JopScan
      | T_HashJoin \<Rightarrow> JopJoin | T_MergeJoin \<Rightarrow> JopJoin | T_NestLoop \<Rightarrow> JopJoin
      | T_Material \<Rightarrow> JopSub | T_Sort \<Rightarrow> JopSub | T_Gather \<Rightarrow> JopSub
      | T_Agg \<Rightarrow> if path_type pinf = T_GroupingSetsPath \<or> path_type pinf = T_AggPath then JopSub else JopAssert
      | T_GatherMerge \<Rightarrow> JopSub | T_Memoize \<Rightarrow> JopSub
      | T_Result \<Rightarrow> if path_type pinf = T_ProjectionPath then JopSub else JopWarn
      | T_SampleScan \<Rightarrow> JopWarn | T_TidScan \<Rightarrow> JopWarn | T_SubqueryScan \<Rightarrow> JopWarn
      | T_FunctionScan \<Rightarrow> JopWarn | T_TableFuncScan \<Rightarrow> JopWarn | T_ValuesScan \<Rightarrow> JopWarn
      | T_CteScan \<Rightarrow> JopWarn | T_WorkTableScan \<Rightarrow> JopWarn | T_NamedTuplestoreScan \<Rightarrow> JopWarn
      | T_ForeignScan \<Rightarrow> JopWarn | T_CustomScan \<Rightarrow> JopWarn | T_Append \<Rightarrow> JopWarn
      | T_MergeAppend \<Rightarrow> JopWarn | T_ProjectSet \<Rightarrow> JopWarn | T_Unique \<Rightarrow> JopWarn
      | T_Group \<Rightarrow> JopWarn | T_WindowAgg \<Rightarrow> JopWarn | T_RecursiveUnion \<Rightarrow> JopWarn
      | T_LockRows \<Rightarrow> JopWarn | T_ModifyTable \<Rightarrow> JopWarn
      | _ \<Rightarrow> JopError)"

text \<open>\<^verbatim>\<open>rt_fetch\<close> counts from 1; \<open>list_nth\<close> outside the list is an access error.\<close>

definition rt_fetch_alias :: "PlannerInfo \<Rightarrow> nat \<Rightarrow> string res" where
  "rt_fetch_alias rt idx =
     (if 1 \<le> idx \<and> idx \<le> length (rtable_alias rt) then Inr (rtable_alias rt ! (idx - 1))
      else Inl BadAccess)"

text \<open>The tail of the function: the finished string as a C string, read back from the buffer.\<close>

definition finish_string :: "string list \<Rightarrow> path_tag list \<Rightarrow> (string \<times> path_tag list) res option" where
  "finish_string ss ws =
     (case build_string ss of
        None \<Rightarrow> None
      | Some (Inl e) \<Rightarrow> Some (Inl e)
      | Some (Inr bytes) \<Rightarrow>
          Some (if None \<in> set bytes then Inl BadAccess
                else Inr (takeWhile (\<lambda>c. c \<noteq> NUL) (map the bytes), ws)))"

text \<open>
  The result is the string and the node types of the warnings raised, in order. The inner input of a
  join is visited first and printed last.
\<close>

fun catch_join_order :: "PlannerInfo \<Rightarrow> path \<Rightarrow> (string \<times> path_tag list) res option" where
  "catch_join_order rt (BasePath pinf) =
     (case jop_action_of pinf of
        JopScan \<Rightarrow>
          run_bind (Some (rt_fetch_alias rt (relid (parent pinf)))) (\<lambda>s. finish_string [s] [])
      | JopJoin \<Rightarrow> Some (Inl BadAccess)
      | JopSub \<Rightarrow> Some (Inl BadAccess)
      | JopWarn \<Rightarrow> finish_string [] [path_type pinf]
      | JopAssert \<Rightarrow> Some (Inl AssertFail)
      | JopError \<Rightarrow> Some (Inl (Elog ''unrecognized node type'')))"
| "catch_join_order rt (SubPath pinf sub) =
     (case jop_action_of pinf of
        JopScan \<Rightarrow>
          run_bind (Some (rt_fetch_alias rt (relid (parent pinf)))) (\<lambda>s. finish_string [s] [])
      | JopJoin \<Rightarrow> Some (Inl BadAccess)
      | JopSub \<Rightarrow>
          run_bind (catch_join_order rt sub) (\<lambda>(outer, ws). finish_string [outer] ws)
      | JopWarn \<Rightarrow> finish_string [] [path_type pinf]
      | JopAssert \<Rightarrow> Some (Inl AssertFail)
      | JopError \<Rightarrow> Some (Inl (Elog ''unrecognized node type'')))"
| "catch_join_order rt (JoinPath pinf outerp innerp) =
     (case jop_action_of pinf of
        JopScan \<Rightarrow>
          run_bind (Some (rt_fetch_alias rt (relid (parent pinf)))) (\<lambda>s. finish_string [s] [])
      | JopJoin \<Rightarrow>
          run_bind (catch_join_order rt innerp) (\<lambda>(inner, ws1).
            run_bind (catch_join_order rt outerp) (\<lambda>(outer, ws2).
              finish_string [''('', outer, '' '', inner, '')''] (ws1 @ ws2)))
      | JopSub \<Rightarrow> Some (Inl BadAccess)
      | JopWarn \<Rightarrow> finish_string [] [path_type pinf]
      | JopAssert \<Rightarrow> Some (Inl AssertFail)
      | JopError \<Rightarrow> Some (Inl (Elog ''unrecognized node type'')))"

text \<open>
  A stream is what \<^verbatim>\<open>fopen\<close> returned: \<open>None\<close> for the null pointer, else the text written to the file
  so far. The C library gives no meaning to writing to or closing a null stream.
\<close>

type_synonym FILE = "string option"

definition fprintf_line :: "FILE \<Rightarrow> string \<Rightarrow> FILE res" where
  "fprintf_line fp line =
     (case fp of None \<Rightarrow> Inl BadAccess | Some written \<Rightarrow> Inr (Some (written @ line @ [CHR 0x0A])))"

definition fclose :: "FILE \<Rightarrow> string res" where
  "fclose fp = (case fp of None \<Rightarrow> Inl BadAccess | Some written \<Rightarrow> Inr written)"

fun save_plans_loop :: "PlannerInfo \<Rightarrow> path list \<Rightarrow> FILE \<Rightarrow> FILE res option" where
  "save_plans_loop rt [] fp = Some (Inr fp)"
| "save_plans_loop rt (p # ps) fp =
     run_bind (catch_join_order rt p) (\<lambda>(join_order, ws).
       run_bind (Some (fprintf_line fp join_order)) (save_plans_loop rt ps))"

text \<open>The argument is the result of \<^verbatim>\<open>fopen\<close>, which is not tested; the result is the content of the file.\<close>

definition save_join_order_plans :: "FILE \<Rightarrow> PlannerInfo \<Rightarrow> path list \<Rightarrow> string res option" where
  "save_join_order_plans fopened rt pathlis =
     run_bind (save_plans_loop rt pathlis fopened) (\<lambda>fp. Some (fclose fp))"

section \<open>The string builder\<close>

lemma grow_cap_returns:
  "0 < c \<Longrightarrow> \<exists>k. grow_cap c n = Some (c * 2 ^ k) \<and> n + 1 \<le> c * 2 ^ k"
proof (induction "n + 1 - c" arbitrary: c rule: less_induct)
  case less
  show ?case
  proof (cases "c < n + 1")
    case True
    with less.prems have "n + 1 - c * 2 < n + 1 - c" "0 < c * 2" by linarith+
    from less.hyps [OF this] obtain k where "grow_cap (c * 2) n = Some (c * 2 * 2 ^ k)"
      "n + 1 \<le> c * 2 * 2 ^ k" by blast
    with True show ?thesis
      by (intro exI [of _ "Suc k"]) (simp add: grow_cap.simps [of c n] mult.assoc)
  next
    case False
    then show ?thesis by (intro exI [of _ 0]) (simp add: grow_cap.simps [of c n])
  qed
qed

text \<open>The builder holds the string \<open>s\<close>: it fits with its terminator, and the bytes are written.\<close>

definition sb_holds :: "string_builder \<Rightarrow> string \<Rightarrow> bool" where
  "sb_holds sb s \<longleftrightarrow>
     sb_len sb = length s \<and> length (sb_data sb) = sb_cap sb \<and> length s < sb_cap sb \<and>
     take (length s) (sb_data sb) = map Some s \<and> sb_data sb ! length s = Some NUL"

lemma init_holds: "sb_holds string_builder_init []"
  by (simp add: sb_holds_def string_builder_init_def palloc_bytes_def)

lemma write_terminated:
  assumes "length s + length t < length d" "take (length s) d = map Some s"
  shows "\<exists>d'. memcpy_to d (length s) (map Some (t @ [NUL])) = Inr d' \<and> length d' = length d \<and>
    take (length (s @ t)) d' = map Some (s @ t) \<and> d' ! length (s @ t) = Some NUL"
  using assms by (auto simp: memcpy_to_def nth_append)

lemma append_holds:
  assumes "sb_holds sb s"
  shows "\<exists>sb'. string_builder_append sb t = Some (Inr sb') \<and> sb_holds sb' (s @ t)"
proof -
  have sb: "sb_len sb = length s" "length (sb_data sb) = sb_cap sb" "length s < sb_cap sb"
    "take (length s) (sb_data sb) = map Some s" using assms by (auto simp: sb_holds_def)
  then obtain c where c: "grow_cap (sb_cap sb) (length s + length t) = Some c" "length s + length t < c"
    using grow_cap_returns [of "sb_cap sb" "length s + length t"] by fastforce
  define sb1 where "sb1 = (if c \<noteq> sb_cap sb
    then sb\<lparr>sb_data := map Some s @ replicate (c - length s) None, sb_cap := c\<rparr> else sb)"
  have grown: "(if c \<noteq> sb_cap sb
      then res_bind (memcpy_from (sb_data sb) (sb_len sb)) (\<lambda>old.
             res_bind (memcpy_to (palloc_bytes c) 0 old) (\<lambda>new_data.
               Inr (sb\<lparr>sb_data := new_data, sb_cap := c\<rparr>)))
      else Inr sb) = Inr sb1"
    using sb c(2) by (simp add: sb1_def memcpy_from_def memcpy_to_def palloc_bytes_def res_bind_def)
  have sb1: "length s + length t < length (sb_data sb1)" "take (length s) (sb_data sb1) = map Some s"
    "sb_len sb1 = length s" "length (sb_data sb1) = sb_cap sb1"
    using sb c(2) by (auto simp: sb1_def)
  from write_terminated [OF sb1(1,2)] obtain d where
    d: "memcpy_to (sb_data sb1) (length s) (map Some (t @ [NUL])) = Inr d"
      "length d = length (sb_data sb1)" "take (length (s @ t)) d = map Some (s @ t)"
      "d ! length (s @ t) = Some NUL" by blast
  have "string_builder_append sb t = Some (Inr (sb1\<lparr>sb_data := d, sb_len := length s + length t\<rparr>))"
    unfolding string_builder_append_def Let_def grown [unfolded sb(1)] sb(1) c(1) option.case
    unfolding res_bind_def sum.case sb1(3) d(1) by (rule refl)
  moreover have "sb_holds (sb1\<lparr>sb_data := d, sb_len := length s + length t\<rparr>) (s @ t)"
    using d(2-4) sb1 by (simp add: sb_holds_def)
  ultimately show ?thesis by blast
qed

lemma append_all_holds:
  "sb_holds sb s \<Longrightarrow> \<exists>sb'. append_all sb ts = Some (Inr sb') \<and> sb_holds sb' (s @ concat ts)"
proof (induction ts arbitrary: sb s)
  case (Cons t ts)
  from append_holds [OF Cons.prems] obtain sb1
    where sb1: "string_builder_append sb t = Some (Inr sb1)" "sb_holds sb1 (s @ t)" by blast
  from Cons.IH [OF sb1(2)] sb1(1) show ?case by auto
qed simp

lemma build_string_correct: "build_string ss = Some (Inr (map Some (concat ss)))"
proof -
  from append_all_holds [OF init_holds, of ss] obtain sb
    where "append_all string_builder_init ss = Some (Inr sb)" "sb_holds sb (concat ss)" by auto
  then show ?thesis by (simp add: build_string_def sb_holds_def memcpy_from_def)
qed

lemma finish_string_correct:
  "finish_string ss ws = Some (Inr (takeWhile (\<lambda>c. c \<noteq> NUL) (concat ss), ws))"
  by (auto simp: finish_string_def build_string_correct comp_def)

section \<open>Join trees\<close>

text \<open>What a recorded line stands for: the scanned tables, and which pairs are joined.\<close>

datatype jtree = JLeaf string | JNode jtree jtree

primrec jprint :: "jtree \<Rightarrow> string" where
  "jprint (JLeaf a) = a"
| "jprint (JNode l r) = ''('' @ jprint l @ '' '' @ jprint r @ '')''"

primrec jleaves :: "jtree \<Rightarrow> string list" where
  "jleaves (JLeaf a) = [a]"
| "jleaves (JNode l r) = jleaves l @ jleaves r"

definition scan_tree :: "PlannerInfo \<Rightarrow> path_info \<Rightarrow> jtree option" where
  "scan_tree rt pinf =
     (case rt_fetch_alias rt (relid (parent pinf)) of Inl _ \<Rightarrow> None | Inr a \<Rightarrow> Some (JLeaf a))"

text \<open>The join tree of a path made of scans, joins and the one-input nodes that are looked through.\<close>

fun join_tree :: "PlannerInfo \<Rightarrow> path \<Rightarrow> jtree option" where
  "join_tree rt (BasePath pinf) = (if jop_action_of pinf = JopScan then scan_tree rt pinf else None)"
| "join_tree rt (SubPath pinf sub) =
     (case jop_action_of pinf of JopScan \<Rightarrow> scan_tree rt pinf | JopSub \<Rightarrow> join_tree rt sub | _ \<Rightarrow> None)"
| "join_tree rt (JoinPath pinf outerp innerp) =
     (case jop_action_of pinf of
        JopScan \<Rightarrow> scan_tree rt pinf
      | JopJoin \<Rightarrow>
          (case (join_tree rt outerp, join_tree rt innerp) of
             (Some l, Some r) \<Rightarrow> Some (JNode l r)
           | _ \<Rightarrow> None)
      | _ \<Rightarrow> None)"

definition aliases_plain :: "PlannerInfo \<Rightarrow> bool" where
  "aliases_plain rt \<longleftrightarrow>
     (\<forall>a\<in>set (rtable_alias rt). a \<noteq> '''' \<and> set a \<inter> {NUL, CHR 0x28, CHR 0x29, CHR 0x20} = {})"

definition plain_tree :: "jtree \<Rightarrow> bool" where
  "plain_tree t \<longleftrightarrow>
     (\<forall>a\<in>set (jleaves t). a \<noteq> '''' \<and> set a \<inter> {NUL, CHR 0x28, CHR 0x29, CHR 0x20} = {})"

lemma plain_tree_simps [simp]: "plain_tree (JNode l r) \<longleftrightarrow> plain_tree l \<and> plain_tree r"
  by (auto simp: plain_tree_def)

lemma rt_fetch_alias_mem: "rt_fetch_alias rt i = Inr a \<Longrightarrow> a \<in> set (rtable_alias rt)"
  by (auto simp: rt_fetch_alias_def split: if_splits)

lemma scan_tree_plain: "aliases_plain rt \<Longrightarrow> scan_tree rt p = Some t \<Longrightarrow> plain_tree t"
  using rt_fetch_alias_mem [of rt "relid (parent p)"]
  by (auto simp: scan_tree_def aliases_plain_def plain_tree_def split: sum.splits)

lemma join_tree_plain: "aliases_plain rt \<Longrightarrow> join_tree rt p = Some t \<Longrightarrow> plain_tree t"
proof (induction p arbitrary: t)
  case (BasePath p)
  then show ?case using scan_tree_plain by (auto split: if_splits)
next
  case (SubPath p sub)
  then show ?case using scan_tree_plain by (auto split: jop_action.splits)
next
  case (JoinPath p l r)
  then show ?case using scan_tree_plain by (auto split: jop_action.splits option.splits)
qed

lemma jprint_no_nul: "plain_tree t \<Longrightarrow> NUL \<notin> set (jprint t)"
proof (induction t)
  case (JLeaf a)
  then show ?case by (simp add: plain_tree_def)
next
  case (JNode l r)
  then show ?case by (auto simp: NUL_def)
qed

lemma takeWhile_no_nul: "NUL \<notin> set s \<Longrightarrow> takeWhile (\<lambda>c. c \<noteq> NUL) s = s"
  by (auto simp: takeWhile_eq_all_conv)

lemma catch_scan:
  assumes "aliases_plain rt" "scan_tree rt p = Some t"
  shows "run_bind (Some (rt_fetch_alias rt (relid (parent p)))) (\<lambda>s. finish_string [s] []) =
    Some (Inr (jprint t, []))"
proof -
  from assms(2) obtain a where a: "rt_fetch_alias rt (relid (parent p)) = Inr a" "t = JLeaf a"
    by (auto simp: scan_tree_def split: sum.splits)
  have "NUL \<notin> set a" using jprint_no_nul [OF scan_tree_plain [OF assms]] a(2) by simp
  then show ?thesis by (simp add: run_bind_def a finish_string_correct takeWhile_no_nul)
qed

lemma catch_join_order_prints:
  "aliases_plain rt \<Longrightarrow> join_tree rt p = Some t \<Longrightarrow> catch_join_order rt p = Some (Inr (jprint t, []))"
proof (induction p arbitrary: t)
  case (BasePath p)
  then show ?case using catch_scan by (auto split: if_splits)
next
  case (SubPath p sub)
  show ?case
  proof (cases "jop_action_of p")
    case JopScan
    with SubPath.prems catch_scan show ?thesis by auto
  next
    case JopSub
    with SubPath.prems have t: "join_tree rt sub = Some t" by simp
    have "NUL \<notin> set (jprint t)" by (rule jprint_no_nul [OF join_tree_plain [OF SubPath.prems(1) t]])
    then show ?thesis using SubPath.IH [OF SubPath.prems(1) t] JopSub
      by (simp add: run_bind_def finish_string_correct takeWhile_no_nul)
  qed (use SubPath.prems in auto)
next
  case (JoinPath p outerp innerp)
  show ?case
  proof (cases "jop_action_of p")
    case JopScan
    with JoinPath.prems catch_scan show ?thesis by auto
  next
    case JopJoin
    with JoinPath.prems(2) obtain l r where t: "join_tree rt outerp = Some l" "join_tree rt innerp = Some r"
      "t = JNode l r" by (auto split: option.splits)
    have "NUL \<notin> set (jprint t)" by (rule jprint_no_nul [OF join_tree_plain [OF JoinPath.prems]])
    moreover have "concat [''('', jprint l, '' '', jprint r, '')''] = jprint t" by (simp add: t(3))
    ultimately have "finish_string [''('', jprint l, '' '', jprint r, '')''] [] = Some (Inr (jprint t, []))"
      by (simp only: finish_string_correct takeWhile_no_nul simp_thms)
    then show ?thesis using JoinPath.IH(1) [OF JoinPath.prems(1) t(1)] JoinPath.IH(2) [OF JoinPath.prems(1) t(2)]
        JopJoin by (simp add: run_bind_def)
  qed (use JoinPath.prems in auto)
qed

text \<open>A printed tree can be read back: what follows it does not begin like the rest of an alias.\<close>

definition stops :: "string \<Rightarrow> bool" where
  "stops s \<longleftrightarrow> s = [] \<or> hd s \<in> {CHR 0x29, CHR 0x20}"

lemma plain_alias_split:
  assumes "a @ r = b @ q" "stops r" "stops q"
    "set a \<inter> {CHR 0x29, CHR 0x20} = {}" "set b \<inter> {CHR 0x29, CHR 0x20} = {}"
  shows "a = b \<and> r = q"
proof -
  have tw: "takeWhile (\<lambda>c. c \<notin> {CHR 0x29, CHR 0x20}) (x @ y) = x"
    if "set x \<inter> {CHR 0x29, CHR 0x20} = {}" "stops y" for x y
    using that by (cases y) (auto simp: stops_def takeWhile_append takeWhile_eq_all_conv)
  show ?thesis using tw [OF assms(4,2)] tw [OF assms(5,3)] assms(1) by auto
qed

lemma jprint_hd:
  assumes "plain_tree t"
  shows "\<exists>c s. jprint t = c # s \<and> (c = CHR 0x28 \<longleftrightarrow> (\<exists>l r. t = JNode l r))"
proof (cases t)
  case (JLeaf a)
  with assms show ?thesis by (cases a) (auto simp: plain_tree_def)
qed auto

lemma jprint_unique:
  "plain_tree s \<Longrightarrow> plain_tree t \<Longrightarrow> jprint s @ r = jprint t @ q \<Longrightarrow> stops r \<Longrightarrow> stops q \<Longrightarrow> s = t \<and> r = q"
proof (induction s arbitrary: t r q)
  case (JLeaf a)
  show ?case
  proof (cases t)
    case (JLeaf b)
    with plain_alias_split [of a r b q] JLeaf.prems show ?thesis by (auto simp: plain_tree_def)
  next
    case (JNode l' r')
    with jprint_hd [OF JLeaf.prems(1)] JLeaf.prems(3) show ?thesis by auto
  qed
next
  case (JNode l1 r1)
  show ?case
  proof (cases t)
    case (JLeaf b)
    with jprint_hd [OF JNode.prems(2)] JNode.prems(3) show ?thesis by auto
  next
    case (JNode l2 r2)
    then have "jprint l1 @ '' '' @ jprint r1 @ '')'' @ r = jprint l2 @ '' '' @ jprint r2 @ '')'' @ q"
      using JNode.prems(3) by simp
    then have l: "l1 = l2" "'' '' @ jprint r1 @ '')'' @ r = '' '' @ jprint r2 @ '')'' @ q"
      using JNode.IH(1) [of l2 "'' '' @ jprint r1 @ '')'' @ r" "'' '' @ jprint r2 @ '')'' @ q"]
        JNode.prems(1,2) \<open>t = JNode l2 r2\<close> by (auto simp: stops_def)
    then have "r1 = r2 \<and> '')'' @ r = '')'' @ q"
      using JNode.IH(2) [of r2 "'')'' @ r" "'')'' @ q"] JNode.prems(1,2) \<open>t = JNode l2 r2\<close> by (auto simp: stops_def)
    with l \<open>t = JNode l2 r2\<close> show ?thesis by simp
  qed
qed

section \<open>Correctness\<close>

text \<open>A path whose nodes have the C struct their \<^verbatim>\<open>pathtype\<close> promises, over the range table.\<close>

fun path_shape_ok :: "PlannerInfo \<Rightarrow> path \<Rightarrow> bool" where
  "path_shape_ok rt (BasePath pinf) =
     (case jop_action_of pinf of
        JopScan \<Rightarrow> 1 \<le> relid (parent pinf) \<and> relid (parent pinf) \<le> length (rtable_alias rt)
      | JopJoin \<Rightarrow> False | JopSub \<Rightarrow> False | JopAssert \<Rightarrow> False | _ \<Rightarrow> True)"
| "path_shape_ok rt (SubPath pinf sub) =
     (case jop_action_of pinf of
        JopScan \<Rightarrow> 1 \<le> relid (parent pinf) \<and> relid (parent pinf) \<le> length (rtable_alias rt)
      | JopJoin \<Rightarrow> False | JopSub \<Rightarrow> path_shape_ok rt sub | JopAssert \<Rightarrow> False | _ \<Rightarrow> True)"
| "path_shape_ok rt (JoinPath pinf outerp innerp) =
     (case jop_action_of pinf of
        JopScan \<Rightarrow> 1 \<le> relid (parent pinf) \<and> relid (parent pinf) \<le> length (rtable_alias rt)
      | JopJoin \<Rightarrow> path_shape_ok rt outerp \<and> path_shape_ok rt innerp | JopSub \<Rightarrow> False
      | JopAssert \<Rightarrow> False | _ \<Rightarrow> True)"

definition runs_safely :: "'a res option \<Rightarrow> bool" where
  "runs_safely m =
     (case m of None \<Rightarrow> False | Some (Inl e) \<Rightarrow> e \<noteq> BadAccess \<and> e \<noteq> AssertFail | Some (Inr _) \<Rightarrow> True)"

lemma run_bind_safe:
  "runs_safely m \<Longrightarrow> (\<And>x. runs_safely (f x)) \<Longrightarrow> runs_safely (run_bind m f)"
  unfolding run_bind_def by (simp add: runs_safely_def [of m] runs_safely_def [of "Some (Inl _)"]
      split: option.splits sum.splits)

lemma finish_string_safe [simp]: "runs_safely (finish_string ss ws)"
  by (simp add: finish_string_correct runs_safely_def)

lemma catch_join_order_safe: "path_shape_ok rt p \<Longrightarrow> runs_safely (catch_join_order rt p)"
proof (induction p)
  case (BasePath p)
  then show ?case
    by (auto simp: rt_fetch_alias_def runs_safely_def run_bind_def finish_string_correct
        split: jop_action.splits)
next
  case (SubPath p sub)
  then show ?case
    by (cases "jop_action_of p")
      (auto simp: rt_fetch_alias_def runs_safely_def [of "Some _"] run_bind_def [of "Some _"]
        intro!: run_bind_safe)
next
  case (JoinPath p outerp innerp)
  then show ?case
    by (cases "jop_action_of p")
      (auto simp: rt_fetch_alias_def runs_safely_def [of "Some _"] run_bind_def [of "Some _"]
        intro!: run_bind_safe)
qed

definition sample_scan :: "nat \<Rightarrow> path" where
  "sample_scan i =
     BasePath ((info (sample_path 0 5))\<lparr>parent := \<lparr>relid = i, consider_startup = False,
       consider_param_startup = False\<rparr>\<rparr>)"

definition sample_join :: path where
  "sample_join =
     JoinPath ((info (sample_path 1 9))\<lparr>pathtype := T_HashJoin, path_type := T_HashPath\<rparr>)
       (sample_scan 1) (sample_scan 2)"

text \<open>The string builder: starting from \<^verbatim>\<open>string_builder_init\<close>, every sequence of appends returns,
  writes only inside the allocation, keeps room for the terminator, and leaves the concatenation
  in the buffer.\<close>

theorem string_builder_correct:
  "\<exists>sb. append_all string_builder_init ss = Some (Inr sb) \<and>
     length (sb_data sb) = sb_cap sb \<and> sb_len sb < sb_cap sb \<and>
     take (sb_len sb) (sb_data sb) = map Some (concat ss) \<and> sb_data sb ! sb_len sb = Some NUL"
  using append_all_holds [OF init_holds, of ss] by (auto simp: sb_holds_def)

text \<open>C27. Recording a path is safe: on a well-formed path tree \<^verbatim>\<open>catch_join_order\<close> returns without a
  bad memory access and without a failed assertion, with a string or with its error for an unknown
  node.\<close>

theorem catch_join_order_returns:
  assumes "path_shape_ok rt p"
  shows "\<exists>r. catch_join_order rt p = Some r \<and> r \<noteq> Inl BadAccess \<and> r \<noteq> Inl AssertFail"
  using catch_join_order_safe [OF assms] by (auto simp: runs_safely_def split: option.splits sum.splits)

theorem catch_join_order_returns_witness:
  "path_shape_ok sample_planner sample_join \<and>
   (\<exists>r. catch_join_order sample_planner sample_join = Some r \<and> r \<noteq> Inl BadAccess \<and> r \<noteq> Inl AssertFail)"
proof -
  have "path_shape_ok sample_planner sample_join"
    by (simp add: sample_join_def sample_scan_def sample_path_def sample_planner_def jop_action_of_def)
  with catch_join_order_returns show ?thesis by blast
qed

text \<open>C4. The recorded line is the join order: for paths made of table scans, joins and the nodes that
  are looked through, over aliases without blanks and parentheses, the line is the
  fully parenthesised join tree, and two such paths give the same line exactly when they
  join the same tables in the same order.\<close>

theorem join_order_line_faithful:
  assumes "aliases_plain rt" and "join_tree rt p = Some s" and "join_tree rt q = Some t"
  shows "catch_join_order rt p = Some (Inr (jprint s, [])) \<and>
    (catch_join_order rt p = catch_join_order rt q \<longleftrightarrow> s = t)"
proof -
  have c: "catch_join_order rt p = Some (Inr (jprint s, []))" "catch_join_order rt q = Some (Inr (jprint t, []))"
    using catch_join_order_prints [OF assms(1)] assms(2,3) by blast+
  have "s = t" if "jprint s = jprint t"
    using jprint_unique [of s t "[]" "[]"] that join_tree_plain [OF assms(1)] assms(2,3)
    by (simp add: stops_def)
  then show ?thesis using c by auto
qed

theorem join_order_line_faithful_witness:
  "catch_join_order sample_planner sample_join = Some (Inr (''(a b)'', []))"
proof -
  have a: "aliases_plain sample_planner"
    by (simp add: aliases_plain_def sample_planner_def NUL_def)
  have t: "join_tree sample_planner sample_join = Some (JNode (JLeaf ''a'') (JLeaf ''b''))"
    by (simp add: sample_join_def sample_scan_def sample_path_def sample_planner_def jop_action_of_def
        scan_tree_def rt_fetch_alias_def)
  from join_order_line_faithful [OF a t t] show ?thesis by simp
qed

lemma save_plans_loop_content:
  assumes "aliases_plain rt" "list_all2 (\<lambda>p t. join_tree rt p = Some t) ps ts"
  shows "save_plans_loop rt ps (Some out) =
    Some (Inr (Some (out @ concat (map (\<lambda>t. jprint t @ [CHR 0x0A]) ts))))"
  using assms(2)
proof (induction ps ts arbitrary: out rule: list_all2_induct)
  case (Cons p ps t ts)
  then show ?case using catch_join_order_prints [OF assms(1)] by (simp add: run_bind_def fprintf_line_def)
qed simp

text \<open>Without a stream nothing is ever saved: the first line, or the closing, goes through the null pointer.\<close>

lemma save_without_stream:
  assumes "ps = [] \<or> (\<exists>line. catch_join_order rt (hd ps) = Some (Inr line))"
  shows "save_join_order_plans None rt ps = Some (Inl BadAccess)"
  using assms by (cases ps) (auto simp: save_join_order_plans_def run_bind_def fprintf_line_def fclose_def)

text \<open>C26. The file of join orders, for a list of paths each of which is made of table scans, joins and
  nodes that are looked through, so that it has a join tree: if \<^verbatim>\<open>fopen\<close> gave a stream, the file
  ends up with one line per path, the printed join tree, in the order of the path list; if it gave
  the null pointer, the backend makes a bad access.\<close>

theorem save_join_order_plans_content:
  assumes "aliases_plain rt" and "list_all2 (\<lambda>p t. join_tree rt p = Some t) ps ts"
  shows "save_join_order_plans (Some []) rt ps =
      Some (Inr (concat (map (\<lambda>t. jprint t @ [CHR 0x0A]) ts))) \<and>
    save_join_order_plans None rt ps = Some (Inl BadAccess)"
proof
  show "save_join_order_plans (Some []) rt ps = Some (Inr (concat (map (\<lambda>t. jprint t @ [CHR 0x0A]) ts)))"
    by (simp add: save_join_order_plans_def save_plans_loop_content [OF assms] run_bind_def fclose_def)
  have "\<exists>line. catch_join_order rt (hd ps) = Some (Inr line)" if "ps \<noteq> []"
    using assms(2) that catch_join_order_prints [OF assms(1)] by (cases ps) (auto simp: list_all2_Cons1)
  then show "save_join_order_plans None rt ps = Some (Inl BadAccess)"
    by (blast intro: save_without_stream)
qed

theorem save_join_order_plans_content_witness:
  "save_join_order_plans (Some []) sample_planner [sample_join, sample_scan 2] =
     Some (Inr (''(a b)'' @ [CHR 0x0A] @ ''b'' @ [CHR 0x0A])) \<and>
   save_join_order_plans None sample_planner [sample_join, sample_scan 2] = Some (Inl BadAccess)"
proof -
  have a: "aliases_plain sample_planner"
    by (simp add: aliases_plain_def sample_planner_def NUL_def)
  have t: "list_all2 (\<lambda>p t. join_tree sample_planner p = Some t) [sample_join, sample_scan 2]
      [JNode (JLeaf ''a'') (JLeaf ''b''), JLeaf ''b'']"
    by (simp add: sample_join_def sample_scan_def sample_path_def sample_planner_def jop_action_of_def
        scan_tree_def rt_fetch_alias_def)
  from save_join_order_plans_content [OF a t] show ?thesis by simp
qed

section \<open>Limits of the recorder\<close>

text \<open>
  A query with \<^verbatim>\<open>LIMIT\<close> has a \<^verbatim>\<open>LimitPath\<close> on top of each final path, and its node is not in the
  switch: recording ends the query with an error.
\<close>

lemma limit_path_is_an_error:
  assumes "pathtype pinf \<in> {T_Limit, T_IncrementalSort}"
  shows "save_join_order_plans fp rt (SubPath pinf p # ps) = Some (Inl (Elog ''unrecognized node type''))"
  using assms by (auto simp: save_join_order_plans_def run_bind_def jop_action_of_def)

text \<open>A \<^verbatim>\<open>Result\<close> node that is not a projection falls through to the warning and an empty line.\<close>

lemma result_path_prints_nothing:
  assumes "pathtype pinf = T_Result" "path_type pinf \<noteq> T_ProjectionPath"
  shows "catch_join_order rt (BasePath pinf) = Some (Inr ('''', [path_type pinf]))"
  using assms by (simp add: jop_action_of_def finish_string_correct)

end
