(* ===== verification/Joinpath.thy ===== *)
theory Joinpath
  imports Joinorder
begin

text \<open>
  \<^verbatim>\<open>add_paths_to_joinrel\<close> of \<^verbatim>\<open>src/backend/optimizer/path/joinpath.c\<close>, with Athena's part of it: the
  paths of the topmost join relation are collected separately for each pair of input relations and
  concatenated, so that every join order keeps its paths. The routines it calls, which prove
  uniqueness, select merge clauses and build paths of one kind, are arguments; a path builder sees
  the join relation and the data collected for the pair, and returns the new contents of
  \<^verbatim>\<open>pathlist\<close> and \<^verbatim>\<open>partial_pathlist\<close>.
\<close>

section \<open>The operations\<close>

definition join_relids :: "RelOptInfo \<Rightarrow> Relids" where
  "join_relids joinrel =
     (if reloptkind joinrel = RELOPT_OTHER_JOINREL then top_parent_relids joinrel else relids joinrel)"

text \<open>\<^verbatim>\<open>(int) set->words[0]\<close>: the low 32 bits of the first word, as a signed integer.\<close>

definition first_word_int :: "Relids \<Rightarrow> int res" where
  "first_word_int a =
     (case a of
        None \<Rightarrow> Inl BadAccess
      | Some b \<Rightarrow> if words b = [] then Inl BadAccess else Inr (sint (ucast (words b ! 0) :: 32 word)))"

definition rootrel_candidate :: "jop_state \<Rightarrow> PlannerInfo \<Rightarrow> RelOptInfo \<Rightarrow> bool res" where
  "rootrel_candidate g rt joinrel =
     (if enable_join_order_plans g
      then res_bind (first_word_int (all_baserels rt)) (\<lambda>root_relids.
           res_bind (first_word_int (join_relids joinrel)) (\<lambda>joinrelids.
             Inr (root_relids = joinrelids)))
      else Inr False)"

fun param_source_loop :: "PlannerInfo \<Rightarrow> Relids \<Rightarrow> SpecialJoinInfo list \<Rightarrow> Relids \<Rightarrow> Relids" where
  "param_source_loop rt joinrelids [] rels = rels"
| "param_source_loop rt joinrelids (sjinfo2 # sjs) rels =
     (let rels1 = (if bms_overlap joinrelids (min_righthand sjinfo2) \<and>
                      \<not> bms_overlap joinrelids (min_lefthand sjinfo2)
                   then bms_join rels (bms_difference (all_baserels rt) (min_righthand sjinfo2))
                   else rels);
          rels2 = (if jointype sjinfo2 = JOIN_FULL \<and>
                      bms_overlap joinrelids (min_lefthand sjinfo2) \<and>
                      \<not> bms_overlap joinrelids (min_righthand sjinfo2)
                   then bms_join rels1 (bms_difference (all_baserels rt) (min_lefthand sjinfo2))
                   else rels1)
      in param_source_loop rt joinrelids sjs rels2)"

definition param_source_rels :: "PlannerInfo \<Rightarrow> RelOptInfo \<Rightarrow> Relids" where
  "param_source_rels rt joinrel =
     bms_add_members (param_source_loop rt (join_relids joinrel) (join_info_list rt) None)
       (lateral_relids joinrel)"

record SemiAntiJoinFactors =
  outer_match_frac :: real
  match_count :: real

record JoinPathExtraData =
  extra_restrictlist :: "RestrictInfo list"
  mergeclause_list :: "RestrictInfo list"
  inner_unique :: bool
  extra_sjinfo :: SpecialJoinInfo
  semifactors :: "SemiAntiJoinFactors option"
  extra_param_source_rels :: Relids

text \<open>One call: the two input relations, the join type, the special join and the clauses.\<close>

record join_pair =
  pair_outer :: RelOptInfo
  pair_inner :: RelOptInfo
  pair_jointype :: JoinType
  pair_sjinfo :: SpecialJoinInfo
  pair_restrictlist :: "RestrictInfo list"

type_synonym path_lists = "path list \<times> path list"

definition set_paths :: "RelOptInfo \<Rightarrow> path_lists \<Rightarrow> RelOptInfo" where
  "set_paths r pls = r\<lparr>pathlist := fst pls, partial_pathlist := snd pls\<rparr>"

type_synonym path_builder =
  "PlannerInfo \<Rightarrow> RelOptInfo \<Rightarrow> RelOptInfo \<Rightarrow> RelOptInfo \<Rightarrow> JoinType \<Rightarrow> JoinPathExtraData \<Rightarrow> path_lists"

text \<open>
  The routines called. \<^verbatim>\<open>GetForeignJoinPaths\<close> is the entry of the join relation's \<^verbatim>\<open>fdwroutine\<close>, if it
  has one; \<^verbatim>\<open>set_join_pathlist_hook\<close> is set when an extension is loaded.
\<close>

record path_services =
  innerrel_is_unique ::
    "PlannerInfo \<Rightarrow> Relids \<Rightarrow> Relids \<Rightarrow> RelOptInfo \<Rightarrow> JoinType \<Rightarrow> RestrictInfo list \<Rightarrow> bool"
  select_mergejoin_clauses ::
    "PlannerInfo \<Rightarrow> RelOptInfo \<Rightarrow> RelOptInfo \<Rightarrow> RelOptInfo \<Rightarrow> RestrictInfo list \<Rightarrow> JoinType \<Rightarrow>
     RestrictInfo list \<times> bool"
  compute_semi_anti_join_factors ::
    "PlannerInfo \<Rightarrow> RelOptInfo \<Rightarrow> RelOptInfo \<Rightarrow> RelOptInfo \<Rightarrow> JoinType \<Rightarrow> SpecialJoinInfo \<Rightarrow>
     RestrictInfo list \<Rightarrow> SemiAntiJoinFactors"
  sort_inner_and_outer :: path_builder
  match_unsorted_outer :: path_builder
  hash_inner_and_outer :: path_builder
  has_pseudoconstant_clauses :: "PlannerInfo \<Rightarrow> RestrictInfo list \<Rightarrow> bool"
  GetForeignJoinPaths :: "RelOptInfo \<Rightarrow> path_builder option"
  set_join_pathlist_hook :: "path_builder option"
  enable_mergejoin :: bool
  enable_hashjoin :: bool

definition inner_unique_of :: "path_services \<Rightarrow> PlannerInfo \<Rightarrow> RelOptInfo \<Rightarrow> join_pair \<Rightarrow> bool" where
  "inner_unique_of svc rt joinrel pr =
     (case pair_jointype pr of
        JOIN_SEMI \<Rightarrow> False
      | JOIN_ANTI \<Rightarrow> False
      | JOIN_UNIQUE_INNER \<Rightarrow> bms_is_subset (min_lefthand (pair_sjinfo pr)) (relids (pair_outer pr))
      | JOIN_UNIQUE_OUTER \<Rightarrow>
          innerrel_is_unique svc rt (relids joinrel) (relids (pair_outer pr)) (pair_inner pr) JOIN_INNER
            (pair_restrictlist pr)
      | jt \<Rightarrow>
          innerrel_is_unique svc rt (relids joinrel) (relids (pair_outer pr)) (pair_inner pr) jt (pair_restrictlist pr))"

text \<open>What is collected for the pair, and whether a merge join is allowed.\<close>

definition join_extra :: "path_services \<Rightarrow> PlannerInfo \<Rightarrow> RelOptInfo \<Rightarrow> join_pair \<Rightarrow> JoinPathExtraData \<times> bool" where
  "join_extra svc rt joinrel pr =
     (let jt = pair_jointype pr;
          unique = inner_unique_of svc rt joinrel pr;
          (mergeclauses, mergejoin_allowed) =
            (if enable_mergejoin svc \<or> jt = JOIN_FULL
             then select_mergejoin_clauses svc rt joinrel (pair_outer pr) (pair_inner pr) (pair_restrictlist pr) jt
             else ([], True));
          factors =
            (if jt = JOIN_SEMI \<or> jt = JOIN_ANTI \<or> unique
             then Some (compute_semi_anti_join_factors svc rt joinrel (pair_outer pr) (pair_inner pr) jt
                          (pair_sjinfo pr) (pair_restrictlist pr))
             else None)
      in (\<lparr>extra_restrictlist = pair_restrictlist pr, mergeclause_list = mergeclauses, inner_unique = unique,
           extra_sjinfo = pair_sjinfo pr, semifactors = factors,
           extra_param_source_rels = param_source_rels rt joinrel\<rparr>, mergejoin_allowed))"

text \<open>The path builders, in order; each works on the join relation the one before it left.\<close>

definition build_pair_paths :: "path_services \<Rightarrow> PlannerInfo \<Rightarrow> join_pair \<Rightarrow> RelOptInfo \<Rightarrow> RelOptInfo" where
  "build_pair_paths svc rt pr joinrel =
     (let (extra, mergejoin_allowed) = join_extra svc rt joinrel pr;
          run = (\<lambda>builder rel.
            set_paths rel (builder rt rel (pair_outer pr) (pair_inner pr) (pair_jointype pr) extra));
          rel1 = (if mergejoin_allowed then run (sort_inner_and_outer svc) joinrel else joinrel);
          rel2 = (if mergejoin_allowed then run (match_unsorted_outer svc) rel1 else rel1);
          rel3 = (if enable_hashjoin svc \<or> pair_jointype pr = JOIN_FULL
                  then run (hash_inner_and_outer svc) rel2 else rel2);
          consider_join_pushdown =
            (if GetForeignJoinPaths svc rel3 \<noteq> None \<or> set_join_pathlist_hook svc \<noteq> None
             then \<not> has_pseudoconstant_clauses svc rt (pair_restrictlist pr) else False);
          rel4 = (case GetForeignJoinPaths svc rel3 of
                    Some foreign_paths \<Rightarrow> if consider_join_pushdown then run foreign_paths rel3 else rel3
                  | None \<Rightarrow> rel3)
      in case set_join_pathlist_hook svc of
           Some hook \<Rightarrow> if consider_join_pushdown then run hook rel4 else rel4
         | None \<Rightarrow> rel4)"

definition add_paths_to_joinrel ::
  "path_services \<Rightarrow> jop_state \<Rightarrow> PlannerInfo \<Rightarrow> RelOptInfo \<Rightarrow> join_pair \<Rightarrow> RelOptInfo res" where
  "add_paths_to_joinrel svc g rt joinrel pr =
     res_bind (rootrel_candidate g rt joinrel) (\<lambda>candidate.
       let tmp_list = pathlist joinrel;
           joinrel1 = (if candidate then joinrel\<lparr>pathlist := []\<rparr> else joinrel);
           joinrel2 = build_pair_paths svc rt pr joinrel1
       in Inr (if enable_join_order_plans g \<and> candidate \<and> tmp_list \<noteq> []
               then joinrel2\<lparr>pathlist := tmp_list @ pathlist joinrel2\<rparr>
               else joinrel2))"

text \<open>The calls made for one join relation, one for each pair of input relations, in order.\<close>

fun add_paths_for_pairs ::
  "path_services \<Rightarrow> jop_state \<Rightarrow> PlannerInfo \<Rightarrow> RelOptInfo \<Rightarrow> join_pair list \<Rightarrow> RelOptInfo res" where
  "add_paths_for_pairs svc g rt joinrel [] = Inr joinrel"
| "add_paths_for_pairs svc g rt joinrel (pr # prs) =
     res_bind (add_paths_to_joinrel svc g rt joinrel pr) (\<lambda>joinrel'.
       add_paths_for_pairs svc g rt joinrel' prs)"

section \<open>Which relation is the topmost one\<close>

lemma first_word_int_eq_iff:
  assumes "words a \<noteq> []" "words b \<noteq> []"
  shows "first_word_int (Some a) = first_word_int (Some b) \<longleftrightarrow>
    bms_set (Some a) \<inter> {..<32} = bms_set (Some b) \<inter> {..<32}"
proof -
  let ?lo = "\<lambda>c. ucast (words c ! 0) :: 32 word"
  have mem: "x \<in> bms_set (Some c) \<longleftrightarrow> bit (?lo c) x" if "words c \<noteq> []" "x < 32" for c x
    using that words_set_mem [of x 0 "words c"] by (simp add: bms_set_def wnth_def bit_unsigned_iff)
  have "first_word_int (Some a) = first_word_int (Some b) \<longleftrightarrow> ?lo a = ?lo b"
    using assms by (auto simp: first_word_int_def dest: signed_word_eqI)
  also have "\<dots> \<longleftrightarrow> (\<forall>x<32. bit (?lo a) x = bit (?lo b) x)"
    by (auto intro!: bit_word_eqI)
  also have "\<dots> \<longleftrightarrow> bms_set (Some a) \<inter> {..<32} = bms_set (Some b) \<inter> {..<32}"
    using mem [OF assms(1)] mem [OF assms(2)] by auto
  finally show ?thesis .
qed

lemma bms_wf_words: "bms_wf (Some a) \<Longrightarrow> words a \<noteq> []"
  by (auto simp: bms_wf_def)

lemma first_word_int_Some: "words a \<noteq> [] \<Longrightarrow> \<exists>i. first_word_int (Some a) = Inr i"
  by (simp add: first_word_int_def)

section \<open>Parameter sources\<close>

definition sources_of :: "PlannerInfo \<Rightarrow> Relids \<Rightarrow> SpecialJoinInfo \<Rightarrow> nat set" where
  "sources_of rt joinrelids sj =
     (if bms_set joinrelids \<inter> bms_set (min_righthand sj) \<noteq> {} \<and>
         bms_set joinrelids \<inter> bms_set (min_lefthand sj) = {}
      then bms_set (all_baserels rt) - bms_set (min_righthand sj) else {}) \<union>
     (if jointype sj = JOIN_FULL \<and> bms_set joinrelids \<inter> bms_set (min_lefthand sj) \<noteq> {} \<and>
         bms_set joinrelids \<inter> bms_set (min_righthand sj) = {}
      then bms_set (all_baserels rt) - bms_set (min_lefthand sj) else {})"

lemma param_source_loop_set:
  "bms_set (param_source_loop rt joinrelids sjs rels) =
     bms_set rels \<union> \<Union> (sources_of rt joinrelids ` set sjs)"
proof (induction sjs arbitrary: rels)
  case (Cons sj sjs)
  have "bms_set (param_source_loop rt joinrelids (sj # sjs) rels) =
      (bms_set rels \<union> sources_of rt joinrelids sj) \<union> \<Union> (sources_of rt joinrelids ` set sjs)"
    unfolding param_source_loop.simps Let_def Cons.IH
    by (simp add: sources_of_def refine_simps bms_overlap_refines)
  then show ?case by (simp add: Un_assoc)
qed simp

section \<open>Correctness\<close>

text \<open>Relations a parameterized join path may depend on: the base relations outside the right-hand
  side of every special join that has some of its right-hand side in this join and none of its
  left-hand side (both ways round for full joins), and the residual lateral references.\<close>

theorem param_source_rels_correct:
  "bms_set (param_source_rels rt joinrel) =
     \<Union> (sources_of rt (join_relids joinrel) ` set (join_info_list rt)) \<union> bms_set (lateral_relids joinrel)"
  by (simp add: param_source_rels_def param_source_loop_set refine_simps)

definition same_join :: "RelOptInfo \<Rightarrow> RelOptInfo \<Rightarrow> bool" where
  "same_join r r' \<longleftrightarrow> r' = set_paths r (pathlist r', partial_pathlist r')"

lemma same_join_simps [simp]: "same_join r r" "same_join r (r\<lparr>pathlist := ps\<rparr>)" "same_join r (set_paths r pls)"
  by (simp_all add: same_join_def set_paths_def)

lemma same_join_trans [trans]:
  assumes "same_join r s" "same_join s t"
  shows "same_join r t"
proof -
  have "t = set_paths (set_paths r (pathlist s, partial_pathlist s)) (pathlist t, partial_pathlist t)"
    using assms unfolding same_join_def by metis
  then show ?thesis by (simp add: same_join_def set_paths_def)
qed

lemma rootrel_candidate_same:
  assumes "same_join r r'"
  shows "rootrel_candidate g rt r' = rootrel_candidate g rt r"
proof -
  have "join_relids (set_paths r pls) = join_relids r" for pls by (simp add: join_relids_def set_paths_def)
  then show ?thesis using assms unfolding same_join_def rootrel_candidate_def by metis
qed

lemma builder_step: "same_join r s \<Longrightarrow> same_join r (if c then set_paths s pls else s)"
  using same_join_trans [of r s] by simp

lemma optional_builder_step:
  "same_join r s \<Longrightarrow> same_join r (case ob of Some b \<Rightarrow> if c then set_paths s (f b) else s | None \<Rightarrow> s)"
  using builder_step [of r s c] by (cases ob) simp_all

text \<open>The path builders change the two path lists of the join relation and nothing else.\<close>

lemma build_pair_paths_same: "same_join r (build_pair_paths svc rt pr r)"
  unfolding build_pair_paths_def Let_def case_prod_unfold
  by (intro optional_builder_step builder_step same_join_simps)

text \<open>
  The reference: every pair on its own. The builders start from an empty list, what they leave is
  put aside, and the lists are concatenated in the order of the pairs.
\<close>

fun collect_pairs :: "path_services \<Rightarrow> PlannerInfo \<Rightarrow> RelOptInfo \<Rightarrow> join_pair list \<Rightarrow> RelOptInfo \<times> path list list" where
  "collect_pairs svc rt r [] = (r, [])"
| "collect_pairs svc rt r (pr # prs) =
     (let r1 = build_pair_paths svc rt pr (r\<lparr>pathlist := []\<rparr>);
          (r2, rest) = collect_pairs svc rt r1 prs
      in (r2, pathlist r1 # rest))"

lemma collect_pairs_start: "prs \<noteq> [] \<Longrightarrow> collect_pairs svc rt (r\<lparr>pathlist := ps\<rparr>) prs = collect_pairs svc rt r prs"
  by (cases prs) simp_all

lemma pairs_collected:
  assumes "enable_join_order_plans g" "rootrel_candidate g rt joinrel = Inr True"
    and "collect_pairs svc rt joinrel prs = (r, found)"
  shows "add_paths_for_pairs svc g rt joinrel prs =
    Inr (if prs = [] then joinrel else r\<lparr>pathlist := pathlist joinrel @ concat found\<rparr>)"
  using assms(2,3)
proof (induction prs arbitrary: joinrel r found)
  case (Cons pr prs)
  define r1 where "r1 = build_pair_paths svc rt pr (joinrel\<lparr>pathlist := []\<rparr>)"
  define r1' where "r1' = r1\<lparr>pathlist := pathlist joinrel @ pathlist r1\<rparr>"
  obtain found' where f: "collect_pairs svc rt r1 prs = (r, found')" "found = pathlist r1 # found'"
    using Cons.prems(2) by (auto simp: Let_def r1_def split: prod.splits)
  have "same_join (joinrel\<lparr>pathlist := []\<rparr>) r1" unfolding r1_def by (rule build_pair_paths_same)
  then have "same_join joinrel r1" using same_join_trans [of joinrel "joinrel\<lparr>pathlist := []\<rparr>" r1] by simp
  also have "same_join r1 r1'" by (simp add: r1'_def)
  finally have "same_join joinrel r1'" .
  then have cand: "rootrel_candidate g rt r1' = Inr True" using rootrel_candidate_same Cons.prems(1) by simp
  have step: "add_paths_to_joinrel svc g rt joinrel pr = Inr r1'"
    using Cons.prems(1) assms(1) by (simp add: add_paths_to_joinrel_def Let_def r1_def [symmetric] r1'_def)
  show ?case
  proof (cases "prs = []")
    case True
    then show ?thesis using step f by (auto simp: r1'_def)
  next
    case False
    then have "collect_pairs svc rt r1' prs = (r, found')" using f(1) collect_pairs_start by (simp add: r1'_def)
    from Cons.IH [OF cand this] show ?thesis using step f(2) False by (simp add: r1'_def)
  qed
qed simp


definition sample_root :: PlannerInfo where
  "sample_root = sample_planner\<lparr>all_baserels := mk_bms [6]\<rparr>"

definition sample_builder :: path_builder where
  "sample_builder rt r ou inn jt ex =
     (pathlist (add_path jop_collecting r (sample_path (rel_rows ou) (rel_rows inn))), partial_pathlist r)"

definition sample_path_services :: path_services where
  "sample_path_services =
     \<lparr>innerrel_is_unique = \<lambda>_ _ _ _ _ _. False, select_mergejoin_clauses = \<lambda>_ _ _ _ cl _. (cl, True),
      compute_semi_anti_join_factors = \<lambda>_ _ _ _ _ _ _. \<lparr>outer_match_frac = 1, match_count = 1\<rparr>,
      sort_inner_and_outer = \<lambda>_ r _ _ _ _. (pathlist r, partial_pathlist r), match_unsorted_outer = sample_builder,
      hash_inner_and_outer = \<lambda>_ r _ _ _ _. (pathlist r, partial_pathlist r), has_pseudoconstant_clauses = \<lambda>_ _. False,
      GetForeignJoinPaths = \<lambda>_. None, set_join_pathlist_hook = None,
      enable_mergejoin = True, enable_hashjoin = False\<rparr>"

definition sample_pair :: "real \<Rightarrow> real \<Rightarrow> join_pair" where
  "sample_pair a b =
     \<lparr>pair_outer = sample_rel\<lparr>rel_rows := a\<rparr>, pair_inner = sample_rel\<lparr>rel_rows := b\<rparr>, pair_jointype = JOIN_INNER,
      pair_sjinfo = \<lparr>min_lefthand = None, min_righthand = None, syn_righthand = None, jointype = JOIN_INNER,
        ojrelid = 0, commute_above_l = None, commute_below_l = None, lhs_strict = False\<rparr>,
      pair_restrictlist = []\<rparr>"

lemma sample_builder_paths:
  "build_pair_paths sample_path_services rt (sample_pair a b) r = add_path jop_collecting r (sample_path a b)"
  by (simp add: build_pair_paths_def join_extra_def sample_path_services_def sample_pair_def sample_builder_def
      set_paths_def add_path_def Let_def)

lemma sample_candidate: "rootrel_candidate jop_collecting sample_root (sample_rel\<lparr>pathlist := ps\<rparr>) = Inr True"
  by (simp add: rootrel_candidate_def jop_collecting_def sample_root_def first_word_int_def mk_bms_def
      join_relids_def sample_rel_def)


text \<open>C38. What the test for the topmost relation decides: the members below 32 of the relation's set
  are those of the set of all base relations.\<close>

theorem rootrel_test_meaning:
  assumes "enable_join_order_plans g" and "bms_wf (all_baserels rt)" and "bms_wf (join_relids joinrel)"
    and "all_baserels rt \<noteq> None" and "join_relids joinrel \<noteq> None"
  shows "rootrel_candidate g rt joinrel =
    Inr (bms_set (all_baserels rt) \<inter> {..<32} = bms_set (join_relids joinrel) \<inter> {..<32})"
proof -
  obtain a b where ab: "all_baserels rt = Some a" "join_relids joinrel = Some b" using assms by auto
  then have w: "words a \<noteq> []" "words b \<noteq> []" using assms(2,3) bms_wf_words by auto
  obtain i j where "first_word_int (Some a) = Inr i" "first_word_int (Some b) = Inr j"
    using first_word_int_Some w by meson
  then show ?thesis using first_word_int_eq_iff [OF w] assms(1) ab by (simp add: rootrel_candidate_def)
qed

theorem rootrel_test_meaning_witness:
  "rootrel_candidate jop_collecting sample_root sample_rel =
   Inr (bms_set (mk_bms [6]) \<inter> {..<32} = bms_set (mk_bms [6]) \<inter> {..<32})"
  using rootrel_test_meaning [of jop_collecting sample_root sample_rel]
  by (simp add: jop_collecting_def sample_root_def sample_rel_def join_relids_def mk_bms_def bms_wf_def)

section \<open>Limits of the test\<close>

text \<open>
  A query with range table entries 1, 2 and 40: the join of 1 and 2 alone is taken for the topmost
  relation.
\<close>

lemma partial_join_taken_for_root:
  "rootrel_candidate jop_collecting (sample_planner\<lparr>all_baserels := mk_bms [0x10000000006]\<rparr>)
     (sample_rel\<lparr>relids := mk_bms [6]\<rparr>) = Inr True"
  by (simp add: rootrel_candidate_def jop_collecting_def first_word_int_def mk_bms_def join_relids_def
      sample_rel_def)

text \<open>
  The relation set of a join above an outer join contains the outer join's own index, which is no
  base relation: the topmost relation of such a query is not recognized.
\<close>

lemma outer_join_root_not_recognized:
  "rootrel_candidate jop_collecting (sample_planner\<lparr>all_baserels := mk_bms [6]\<rparr>)
     (sample_rel\<lparr>relids := mk_bms [14]\<rparr>) = Inr False"
  by (simp add: rootrel_candidate_def jop_collecting_def first_word_int_def mk_bms_def join_relids_def
      sample_rel_def)

text \<open>Concatenation gives up the order by total cost that \<^verbatim>\<open>add_path_precheck\<close> relies on.\<close>

lemma collected_paths_unsorted:
  "\<exists>r. add_paths_to_joinrel sample_path_services jop_collecting sample_root
      (sample_rel\<lparr>pathlist := [sample_path 1 9]\<rparr>) (sample_pair 0 7) = Inr r \<and> \<not> sorted_by_total (pathlist r)"
proof -
  have "enable_join_order_plans jop_collecting" by (simp add: jop_collecting_def)
  then show ?thesis
    by (simp add: add_paths_to_joinrel_def sample_candidate sample_builder_paths add_path_def run_tournament_def
        sorted_by_total_def Let_def) (simp add: sample_path_def)
qed

end
