(* ===== verification/Joinlegal.thy ===== *)
theory Joinlegal
  imports Joinpath
begin

text \<open>
  Which joins are legal and which are worth trying: \<^verbatim>\<open>join_is_legal\<close> and the order restrictions of
  \<^verbatim>\<open>src/backend/optimizer/path/joinrels.c\<close>, \<^verbatim>\<open>have_relevant_joinclause\<close> of
  \<^verbatim>\<open>src/backend/optimizer/util/joininfo.c\<close>, and the clause lists and the least parameterization of a join
  relation in \<^verbatim>\<open>src/backend/optimizer/util/relnode.c\<close>.
\<close>

section \<open>Planner services\<close>

text \<open>
  Parts of the planner that this code calls and that are not modelled here. The path builders see
  the relations and return the new contents of \<^verbatim>\<open>pathlist\<close> and \<^verbatim>\<open>partial_pathlist\<close>.
\<close>

record join_services =
  have_relevant_eclass_joinclause :: "PlannerInfo \<Rightarrow> RelOptInfo \<Rightarrow> RelOptInfo \<Rightarrow> bool"
  has_relevant_eclass_joinclause :: "PlannerInfo \<Rightarrow> RelOptInfo \<Rightarrow> bool"
  generate_join_implied_equalities ::
    "PlannerInfo \<Rightarrow> Relids \<Rightarrow> Relids \<Rightarrow> RelOptInfo \<Rightarrow> SpecialJoinInfo \<Rightarrow> RestrictInfo list"
  can_create_unique_path :: "PlannerInfo \<Rightarrow> RelOptInfo \<Rightarrow> SpecialJoinInfo \<Rightarrow> bool"
  placeholder_lateral_relids ::
    "PlannerInfo \<Rightarrow> RelOptInfo \<Rightarrow> RelOptInfo \<Rightarrow> RelOptInfo \<Rightarrow> SpecialJoinInfo \<Rightarrow> Relids"
  joinrel_size_estimate ::
    "PlannerInfo \<Rightarrow> RelOptInfo \<Rightarrow> RelOptInfo \<Rightarrow> RelOptInfo \<Rightarrow> SpecialJoinInfo \<Rightarrow> RestrictInfo list \<Rightarrow> Cardinality"
  is_parallel_safe :: "PlannerInfo \<Rightarrow> RelOptInfo \<Rightarrow> RestrictInfo list \<Rightarrow> bool"
  is_dummy_append :: "path \<Rightarrow> bool"
  create_dummy_append :: "RelOptInfo \<Rightarrow> path"
  path_builders :: path_services
  try_partitionwise_join ::
    "PlannerInfo \<Rightarrow> RelOptInfo \<Rightarrow> RelOptInfo \<Rightarrow> RelOptInfo \<Rightarrow> SpecialJoinInfo \<Rightarrow> RestrictInfo list \<Rightarrow> path_lists"
  generate_partitionwise_join_paths :: "PlannerInfo \<Rightarrow> RelOptInfo \<Rightarrow> path_lists"
  generate_useful_gather_paths :: "PlannerInfo \<Rightarrow> RelOptInfo \<Rightarrow> path_lists"

section \<open>Clauses and order restrictions\<close>

definition have_relevant_joinclause :: "join_services \<Rightarrow> PlannerInfo \<Rightarrow> RelOptInfo \<Rightarrow> RelOptInfo \<Rightarrow> bool" where
  "have_relevant_joinclause svc rt rel1 rel2 =
     (let (clauses, other_relids) =
            (if length (joininfo rel1) \<le> length (joininfo rel2) then (joininfo rel1, relids rel2)
             else (joininfo rel2, relids rel1));
          result = list_ex (\<lambda>rinfo. bms_overlap other_relids (required_relids rinfo)) clauses
      in if \<not> result \<and> has_eclass_joins rel1 \<and> has_eclass_joins rel2
         then have_relevant_eclass_joinclause svc rt rel1 rel2
         else result)"

definition have_dangerous_phv :: "PlannerInfo \<Rightarrow> Relids \<Rightarrow> Relids \<Rightarrow> bool" where
  "have_dangerous_phv rt outer_relids inner_params =
     list_ex (\<lambda>phinfo. bms_is_subset (ph_eval_at phinfo) inner_params \<and>
         bms_overlap (ph_eval_at phinfo) outer_relids \<and>
         \<not> bms_is_subset (ph_eval_at phinfo) outer_relids) (placeholder_list rt)"

definition min_join_parameterization :: "Relids \<Rightarrow> RelOptInfo \<Rightarrow> RelOptInfo \<Rightarrow> Relids" where
  "min_join_parameterization joinrelids outer_rel inner_rel =
     bms_del_members (bms_union (lateral_relids outer_rel) (lateral_relids inner_rel)) joinrelids"

definition has_join_restriction :: "PlannerInfo \<Rightarrow> RelOptInfo \<Rightarrow> bool" where
  "has_join_restriction rt rel =
     (lateral_relids rel \<noteq> None \<or> lateral_referencers rel \<noteq> None \<or>
      list_ex (\<lambda>phinfo. bms_is_subset (relids rel) (ph_eval_at phinfo) \<and>
          \<not> bms_equal (relids rel) (ph_eval_at phinfo)) (placeholder_list rt) \<or>
      list_ex (\<lambda>sj. jointype sj \<noteq> JOIN_FULL \<and>
          \<not> (bms_is_subset (min_lefthand sj) (relids rel) \<and> bms_is_subset (min_righthand sj) (relids rel)) \<and>
          (bms_overlap (min_lefthand sj) (relids rel) \<or> bms_overlap (min_righthand sj) (relids rel)))
        (join_info_list rt))"

section \<open>Legal joins\<close>

text \<open>The local variables of \<^verbatim>\<open>join_is_legal\<close>.\<close>

record legal_state =
  match_sjinfo :: "SpecialJoinInfo option"
  reversed :: bool
  unique_ified :: bool
  must_be_leftjoin :: bool

text \<open>A special join that the proposed join does not have to look at.\<close>

definition sj_irrelevant :: "RelOptInfo \<Rightarrow> RelOptInfo \<Rightarrow> Relids \<Rightarrow> SpecialJoinInfo \<Rightarrow> bool" where
  "sj_irrelevant rel1 rel2 joinrelids sj =
     (\<not> bms_overlap (min_righthand sj) joinrelids \<or>
      bms_is_subset joinrelids (min_righthand sj) \<or>
      (bms_is_subset (min_lefthand sj) (relids rel1) \<and> bms_is_subset (min_righthand sj) (relids rel1)) \<or>
      (bms_is_subset (min_lefthand sj) (relids rel2) \<and> bms_is_subset (min_righthand sj) (relids rel2)) \<or>
      (jointype sj = JOIN_SEMI \<and>
       ((bms_is_subset (syn_righthand sj) (relids rel1) \<and> \<not> bms_equal (syn_righthand sj) (relids rel1)) \<or>
        (bms_is_subset (syn_righthand sj) (relids rel2) \<and> \<not> bms_equal (syn_righthand sj) (relids rel2)))))"

text \<open>One special join; \<open>None\<close> is the early return of false.\<close>

definition sj_step ::
  "join_services \<Rightarrow> PlannerInfo \<Rightarrow> RelOptInfo \<Rightarrow> RelOptInfo \<Rightarrow> Relids \<Rightarrow> SpecialJoinInfo \<Rightarrow> legal_state \<Rightarrow>
   legal_state option" where
  "sj_step svc rt rel1 rel2 joinrelids sj ls =
     (if sj_irrelevant rel1 rel2 joinrelids sj then Some ls
      else if bms_is_subset (min_lefthand sj) (relids rel1) \<and> bms_is_subset (min_righthand sj) (relids rel2)
      then (if match_sjinfo ls \<noteq> None then None
            else Some (ls\<lparr>match_sjinfo := Some sj, reversed := False\<rparr>))
      else if bms_is_subset (min_lefthand sj) (relids rel2) \<and> bms_is_subset (min_righthand sj) (relids rel1)
      then (if match_sjinfo ls \<noteq> None then None
            else Some (ls\<lparr>match_sjinfo := Some sj, reversed := True\<rparr>))
      else if jointype sj = JOIN_SEMI \<and> bms_equal (syn_righthand sj) (relids rel2) \<and>
        can_create_unique_path svc rt rel2 sj
      then (if match_sjinfo ls \<noteq> None then None
            else Some (ls\<lparr>match_sjinfo := Some sj, reversed := False, unique_ified := True\<rparr>))
      else if jointype sj = JOIN_SEMI \<and> bms_equal (syn_righthand sj) (relids rel1) \<and>
        can_create_unique_path svc rt rel1 sj
      then (if match_sjinfo ls \<noteq> None then None
            else Some (ls\<lparr>match_sjinfo := Some sj, reversed := True, unique_ified := True\<rparr>))
      else if bms_overlap (relids rel1) (min_righthand sj) \<and> bms_overlap (relids rel2) (min_righthand sj)
      then Some ls
      else if jointype sj \<noteq> JOIN_LEFT \<or> bms_overlap joinrelids (min_lefthand sj) then None
      else Some (ls\<lparr>must_be_leftjoin := True\<rparr>))"

fun sj_loop ::
  "join_services \<Rightarrow> PlannerInfo \<Rightarrow> RelOptInfo \<Rightarrow> RelOptInfo \<Rightarrow> Relids \<Rightarrow> SpecialJoinInfo list \<Rightarrow> legal_state \<Rightarrow>
   legal_state option" where
  "sj_loop svc rt rel1 rel2 joinrelids [] ls = Some ls"
| "sj_loop svc rt rel1 rel2 joinrelids (sj # sjs) ls =
     (case sj_step svc rt rel1 rel2 joinrelids sj ls of
        None \<Rightarrow> None
      | Some ls' \<Rightarrow> sj_loop svc rt rel1 rel2 joinrelids sjs ls')"

text \<open>One pass of the loop that finds what is indirectly on the inner side of an outer join.\<close>

fun rhs_pass :: "SpecialJoinInfo list \<Rightarrow> Relids \<Rightarrow> bool \<Rightarrow> Relids \<times> bool" where
  "rhs_pass [] join_plus_rhs again = (join_plus_rhs, again)"
| "rhs_pass (sj # sjs) join_plus_rhs again =
     (if jointype sj = JOIN_FULL then rhs_pass sjs join_plus_rhs again
      else if bms_overlap (min_lefthand sj) join_plus_rhs \<and> \<not> bms_is_subset (min_righthand sj) join_plus_rhs
      then rhs_pass sjs (bms_add_members join_plus_rhs (min_righthand sj)) True
      else rhs_pass sjs join_plus_rhs again)"


lemma bms_is_subset_cases:
  "bms_is_subset a b \<longleftrightarrow> (case b of None \<Rightarrow> a = None | Some _ \<Rightarrow> bms_set a \<subseteq> bms_set b)"
  by (cases a; cases b) (simp_all add: bms_is_subset_def words_set_subset)

lemma bms_add_members_None: "bms_add_members a b = None \<longleftrightarrow> a = None \<and> b = None"
  by (cases a; cases b) (simp_all add: bms_add_members_def bms_copy_def mk_bms_def)

lemma add_members_grows:
  "bms_is_subset b (bms_add_members a b)"
  "bms_is_subset c a \<Longrightarrow> bms_is_subset c (bms_add_members a b)"
  using bms_add_members_refines [of a b] bms_add_members_None [of a b]
  by (auto simp only: bms_is_subset_cases split: option.splits)

definition uncovered :: "SpecialJoinInfo list \<Rightarrow> Relids \<Rightarrow> SpecialJoinInfo set" where
  "uncovered sjs r = {sj \<in> set sjs. \<not> bms_is_subset (min_righthand sj) r}"

lemma rhs_pass_monotone: "bms_is_subset c r \<Longrightarrow> bms_is_subset c (fst (rhs_pass sjs r again))"
  by (induction sjs r again rule: rhs_pass.induct) (auto intro: add_members_grows)

lemma rhs_pass_again:
  "snd (rhs_pass sjs r again) \<Longrightarrow> \<not> again \<Longrightarrow>
   \<exists>sj\<in>set sjs. \<not> bms_is_subset (min_righthand sj) r \<and>
     bms_is_subset (min_righthand sj) (fst (rhs_pass sjs r again))"
proof (induction sjs)
  case (Cons sj sjs)
  show ?case
  proof (cases "jointype sj \<noteq> JOIN_FULL \<and> bms_overlap (min_lefthand sj) r \<and> \<not> bms_is_subset (min_righthand sj) r")
    case True
    then show ?thesis using rhs_pass_monotone [OF add_members_grows(1)] by auto
  next
    case False
    then have eq: "rhs_pass (sj # sjs) r again = rhs_pass sjs r again" by auto
    show ?thesis using Cons unfolding eq list.set by blast
  qed
qed simp

lemma rhs_pass_measure:
  assumes "rhs_pass sjs r False = (r', True)"
  shows "card (uncovered sjs r') < card (uncovered sjs r)"
proof -
  obtain sj where "sj \<in> uncovered sjs r" "sj \<notin> uncovered sjs r'"
    using rhs_pass_again [of sjs r False] assms by (auto simp: uncovered_def)
  moreover have "uncovered sjs r' \<subseteq> uncovered sjs r"
    using rhs_pass_monotone [of _ r sjs False] assms by (auto simp: uncovered_def)
  moreover have "finite (uncovered sjs r)" by (simp add: uncovered_def)
  ultimately show ?thesis by (intro psubset_card_mono) auto
qed

function close_rhs :: "SpecialJoinInfo list \<Rightarrow> Relids \<Rightarrow> Relids" where
  "close_rhs sjs join_plus_rhs =
     (case rhs_pass sjs join_plus_rhs False of
        (r, again) \<Rightarrow> if again then close_rhs sjs r else r)"
  by pat_completeness auto
termination
  by (relation "measure (\<lambda>(sjs, r). card (uncovered sjs r))") (auto intro: rhs_pass_measure)

definition lateral_ok ::
  "PlannerInfo \<Rightarrow> RelOptInfo \<Rightarrow> RelOptInfo \<Rightarrow> Relids \<Rightarrow> legal_state \<Rightarrow> bool" where
  "lateral_ok rt rel1 rel2 joinrelids ls =
     (let lateral_fwd = bms_overlap (relids rel1) (lateral_relids rel2);
          lateral_rev = bms_overlap (relids rel2) (lateral_relids rel1);
          full_match = (case match_sjinfo ls of None \<Rightarrow> False | Some sj \<Rightarrow> jointype sj = JOIN_FULL)
      in if lateral_fwd \<and> lateral_rev then False
         else if lateral_fwd \<and>
           ((match_sjinfo ls \<noteq> None \<and> (reversed ls \<or> unique_ified ls \<or> full_match)) \<or>
            \<not> bms_overlap (relids rel1) (direct_lateral_relids rel2) \<or>
            have_dangerous_phv rt (relids rel1) (lateral_relids rel2)) then False
         else if \<not> lateral_fwd \<and> lateral_rev \<and>
           ((match_sjinfo ls \<noteq> None \<and> (\<not> reversed ls \<or> unique_ified ls \<or> full_match)) \<or>
            \<not> bms_overlap (relids rel2) (direct_lateral_relids rel1) \<or>
            have_dangerous_phv rt (relids rel2) (lateral_relids rel1)) then False
         else let join_lateral_rels = min_join_parameterization joinrelids rel1 rel2
              in if join_lateral_rels \<noteq> None
                 then \<not> bms_overlap (close_rhs (join_info_list rt) (bms_copy joinrelids)) join_lateral_rels
                 else True)"

text \<open>
  The result is \<open>None\<close> for false, or the special join to perform, if any, and whether the relations
  are to be swapped.
\<close>

definition join_is_legal ::
  "join_services \<Rightarrow> PlannerInfo \<Rightarrow> RelOptInfo \<Rightarrow> RelOptInfo \<Rightarrow> Relids \<Rightarrow> (SpecialJoinInfo option \<times> bool) option" where
  "join_is_legal svc rt rel1 rel2 joinrelids =
     (case sj_loop svc rt rel1 rel2 joinrelids (join_info_list rt)
             \<lparr>match_sjinfo = None, reversed = False, unique_ified = False, must_be_leftjoin = False\<rparr> of
        None \<Rightarrow> None
      | Some ls \<Rightarrow>
          if must_be_leftjoin ls \<and>
            (case match_sjinfo ls of None \<Rightarrow> True | Some sj \<Rightarrow> jointype sj \<noteq> JOIN_LEFT \<or> \<not> lhs_strict sj)
          then None
          else if hasLateralRTEs rt \<and> \<not> lateral_ok rt rel1 rel2 joinrelids ls then None
          else Some (match_sjinfo ls, reversed ls))"

text \<open>\<open>rels\<close> are the nodes of \<^verbatim>\<open>root->initial_rels\<close>.\<close>

definition has_legal_joinclause :: "join_services \<Rightarrow> PlannerInfo \<Rightarrow> RelOptInfo list \<Rightarrow> RelOptInfo \<Rightarrow> bool" where
  "has_legal_joinclause svc rt rels rel =
     list_ex (\<lambda>rel2. \<not> bms_overlap (relids rel) (relids rel2) \<and> have_relevant_joinclause svc rt rel rel2 \<and>
         join_is_legal svc rt rel rel2 (bms_union (relids rel) (relids rel2)) \<noteq> None) rels"

definition have_join_order_restriction ::
  "join_services \<Rightarrow> PlannerInfo \<Rightarrow> RelOptInfo list \<Rightarrow> RelOptInfo \<Rightarrow> RelOptInfo \<Rightarrow> bool" where
  "have_join_order_restriction svc rt rels rel1 rel2 =
     (if bms_overlap (relids rel1) (direct_lateral_relids rel2) \<or>
         bms_overlap (relids rel2) (direct_lateral_relids rel1) then True
      else if list_ex (\<lambda>phinfo. bms_is_subset (relids rel1) (ph_eval_at phinfo) \<and>
          bms_is_subset (relids rel2) (ph_eval_at phinfo)) (placeholder_list rt) then True
      else list_ex (\<lambda>sj. jointype sj \<noteq> JOIN_FULL \<and>
          ((bms_is_subset (min_lefthand sj) (relids rel1) \<and> bms_is_subset (min_righthand sj) (relids rel2)) \<or>
           (bms_is_subset (min_lefthand sj) (relids rel2) \<and> bms_is_subset (min_righthand sj) (relids rel1)) \<or>
           (bms_overlap (min_righthand sj) (relids rel1) \<and> bms_overlap (min_righthand sj) (relids rel2)) \<or>
           (bms_overlap (min_lefthand sj) (relids rel1) \<and> bms_overlap (min_lefthand sj) (relids rel2))))
        (join_info_list rt) \<and>
        \<not> (has_legal_joinclause svc rt rels rel1 \<or> has_legal_joinclause svc rt rels rel2))"

section \<open>Clause lists of a join relation\<close>

definition list_append_unique_ptr :: "RestrictInfo list \<Rightarrow> RestrictInfo \<Rightarrow> RestrictInfo list" where
  "list_append_unique_ptr list datum =
     (if list_ex (\<lambda>r. rinfo_addr r = rinfo_addr datum) list then list else list @ [datum])"

fun subbuild_joinrel_restrictlist ::
  "RelOptInfo \<Rightarrow> RestrictInfo list \<Rightarrow> Relids \<Rightarrow> RestrictInfo list \<Rightarrow> RestrictInfo list res" where
  "subbuild_joinrel_restrictlist joinrel [] both_input_relids new_restrictlist = Inr new_restrictlist"
| "subbuild_joinrel_restrictlist joinrel (rinfo # rinfos) both_input_relids new_restrictlist =
     (if bms_is_subset (required_relids rinfo) (relids joinrel)
      then if has_clone rinfo \<or> is_clone rinfo
           then if RINFO_IS_PUSHED_DOWN rinfo (relids joinrel) then Inl AssertFail
                else if \<not> bms_is_subset (required_relids rinfo) both_input_relids \<or>
                  bms_overlap (incompatible_relids rinfo) both_input_relids
                then subbuild_joinrel_restrictlist joinrel rinfos both_input_relids new_restrictlist
                else subbuild_joinrel_restrictlist joinrel rinfos both_input_relids
                       (list_append_unique_ptr new_restrictlist rinfo)
           else if RINFO_IS_PUSHED_DOWN rinfo (relids joinrel) \<or>
             bms_is_subset (required_relids rinfo) both_input_relids
           then subbuild_joinrel_restrictlist joinrel rinfos both_input_relids
                  (list_append_unique_ptr new_restrictlist rinfo)
           else Inl AssertFail
      else subbuild_joinrel_restrictlist joinrel rinfos both_input_relids new_restrictlist)"

definition build_joinrel_restrictlist ::
  "join_services \<Rightarrow> PlannerInfo \<Rightarrow> RelOptInfo \<Rightarrow> RelOptInfo \<Rightarrow> RelOptInfo \<Rightarrow> SpecialJoinInfo \<Rightarrow>
   RestrictInfo list res" where
  "build_joinrel_restrictlist svc rt joinrel outer_rel inner_rel sj =
     (let both_input_relids = bms_union (relids outer_rel) (relids inner_rel) in
      res_bind (subbuild_joinrel_restrictlist joinrel (joininfo outer_rel) both_input_relids []) (\<lambda>result.
      res_bind (subbuild_joinrel_restrictlist joinrel (joininfo inner_rel) both_input_relids result) (\<lambda>result.
        Inr (result @ generate_join_implied_equalities svc rt (relids joinrel) (relids outer_rel) inner_rel sj))))"

fun subbuild_joinrel_joinlist ::
  "RelOptInfo \<Rightarrow> RestrictInfo list \<Rightarrow> RestrictInfo list \<Rightarrow> RestrictInfo list" where
  "subbuild_joinrel_joinlist joinrel [] new_joininfo = new_joininfo"
| "subbuild_joinrel_joinlist joinrel (rinfo # rinfos) new_joininfo =
     (if bms_is_subset (required_relids rinfo) (relids joinrel)
      then subbuild_joinrel_joinlist joinrel rinfos new_joininfo
      else subbuild_joinrel_joinlist joinrel rinfos (list_append_unique_ptr new_joininfo rinfo))"

definition build_joinrel_joinlist :: "RelOptInfo \<Rightarrow> RelOptInfo \<Rightarrow> RelOptInfo \<Rightarrow> RelOptInfo res" where
  "build_joinrel_joinlist joinrel outer_rel inner_rel =
     (if reloptkind joinrel \<noteq> RELOPT_JOINREL then Inl AssertFail
      else Inr (joinrel\<lparr>joininfo :=
        subbuild_joinrel_joinlist joinrel (joininfo inner_rel)
          (subbuild_joinrel_joinlist joinrel (joininfo outer_rel) [])\<rparr>))"

section \<open>Legality does not depend on the order of the two relations\<close>

definition mirror :: "legal_state \<Rightarrow> legal_state" where
  "mirror ls = ls\<lparr>reversed := (match_sjinfo ls \<noteq> None \<and> \<not> reversed ls)\<rparr>"

lemma sj_irrelevant_sym: "sj_irrelevant rel2 rel1 j sj = sj_irrelevant rel1 rel2 j sj"
  unfolding sj_irrelevant_def by blast

lemma sj_step_mirror:
  assumes "bms_wf (relids rel1)" "bms_wf (relids rel2)" "\<not> bms_overlap (relids rel1) (relids rel2)"
    and "relids rel1 \<noteq> None" "bms_wf (min_lefthand sj)" "min_lefthand sj \<noteq> None" "bms_wf (syn_righthand sj)"
  shows "sj_step svc rt rel2 rel1 j sj (mirror ls) = map_option mirror (sj_step svc rt rel1 rel2 j sj ls)"
proof -
  have disj: "bms_set (relids rel1) \<inter> bms_set (relids rel2) = {}" "bms_set (relids rel1) \<noteq> {}"
    "bms_set (min_lefthand sj) \<noteq> {}"
    using assms by (simp_all add: bms_overlap_refines bms_wf_None_iff)
  have lhs: "\<not> (bms_is_subset (min_lefthand sj) (relids rel1) \<and> bms_is_subset (min_lefthand sj) (relids rel2))"
    using disj assms by (auto simp: bms_is_subset_refines)
  have rhs: "\<not> (bms_equal (syn_righthand sj) (relids rel1) \<and> bms_equal (syn_righthand sj) (relids rel2))"
    using disj assms by (auto simp: bms_equal_refines)
  define fwd and bwd and semi2 and semi1 and both where
    "fwd \<longleftrightarrow> bms_is_subset (min_lefthand sj) (relids rel1) \<and> bms_is_subset (min_righthand sj) (relids rel2)" and
    "bwd \<longleftrightarrow> bms_is_subset (min_lefthand sj) (relids rel2) \<and> bms_is_subset (min_righthand sj) (relids rel1)" and
    "semi2 \<longleftrightarrow> jointype sj = JOIN_SEMI \<and> bms_equal (syn_righthand sj) (relids rel2) \<and> can_create_unique_path svc rt rel2 sj" and
    "semi1 \<longleftrightarrow> jointype sj = JOIN_SEMI \<and> bms_equal (syn_righthand sj) (relids rel1) \<and> can_create_unique_path svc rt rel1 sj" and
    "both \<longleftrightarrow> bms_overlap (relids rel1) (min_righthand sj) \<and> bms_overlap (relids rel2) (min_righthand sj)"
  have excl: "\<not> (fwd \<and> bwd)" "\<not> (semi1 \<and> semi2)" using lhs rhs by (auto simp: fwd_def bwd_def semi1_def semi2_def)
  have sym: "bms_overlap (relids rel2) (min_righthand sj) \<and> bms_overlap (relids rel1) (min_righthand sj) \<longleftrightarrow> both"
    by (auto simp: both_def)
  show ?thesis
    using excl unfolding sj_step_def sj_irrelevant_sym [of rel2 rel1] sym both_def [symmetric] fwd_def [symmetric]
      bwd_def [symmetric] semi1_def [symmetric] semi2_def [symmetric]
    by (cases fwd; cases bwd; cases semi1; cases semi2; simp add: mirror_def)
qed

definition hands_ok :: "SpecialJoinInfo \<Rightarrow> bool" where
  "hands_ok sj \<longleftrightarrow> bms_wf (min_lefthand sj) \<and> min_lefthand sj \<noteq> None \<and>
     bms_wf (min_righthand sj) \<and> min_righthand sj \<noteq> None \<and> bms_wf (syn_righthand sj)"

lemma sj_loop_mirror:
  assumes "bms_wf (relids rel1)" "bms_wf (relids rel2)" "\<not> bms_overlap (relids rel1) (relids rel2)"
    and "relids rel1 \<noteq> None" "list_all hands_ok sjs"
  shows "sj_loop svc rt rel2 rel1 j sjs (mirror ls) = map_option mirror (sj_loop svc rt rel1 rel2 j sjs ls)"
  using assms(5)
proof (induction sjs arbitrary: ls)
  case (Cons sj sjs)
  then show ?case
    using sj_step_mirror [OF assms(1-4), of sj svc rt j ls]
    by (cases "sj_step svc rt rel1 rel2 j sj ls") (auto simp: hands_ok_def)
qed simp

lemma min_join_parameterization_sym:
  assumes "bms_wf (lateral_relids rel1)" "bms_wf (lateral_relids rel2)"
  shows "bms_set (min_join_parameterization j rel1 rel2) = bms_set (min_join_parameterization j rel2 rel1)"
    and "bms_wf (min_join_parameterization j rel1 rel2)"
  using assms by (auto simp: min_join_parameterization_def refine_simps intro!: inv_intros)

lemma lateral_ok_mirror:
  assumes "bms_wf (lateral_relids rel1)" "bms_wf (lateral_relids rel2)"
  shows "lateral_ok rt rel2 rel1 j (mirror ls) = lateral_ok rt rel1 rel2 j ls"
proof -
  have "(min_join_parameterization j rel2 rel1 \<noteq> None) = (min_join_parameterization j rel1 rel2 \<noteq> None)"
    using min_join_parameterization_sym [OF assms] min_join_parameterization_sym [OF assms(2,1)]
    by (metis bms_wf_None_iff)
  moreover have "bms_overlap c (min_join_parameterization j rel2 rel1) =
      bms_overlap c (min_join_parameterization j rel1 rel2)" for c
    by (simp add: bms_overlap_refines min_join_parameterization_sym(1) [OF assms])
  ultimately show ?thesis
    unfolding lateral_ok_def Let_def by (auto simp: mirror_def split: option.splits)
qed

lemma join_is_legal_mirror:
  assumes "bms_wf (relids rel1)" "bms_wf (relids rel2)" "\<not> bms_overlap (relids rel1) (relids rel2)"
    and "relids rel1 \<noteq> None" "list_all hands_ok (join_info_list rt)"
    and "bms_wf (lateral_relids rel1)" "bms_wf (lateral_relids rel2)"
  shows "join_is_legal svc rt rel2 rel1 j =
    map_option (\<lambda>(m, swapped). (m, m \<noteq> None \<and> \<not> swapped)) (join_is_legal svc rt rel1 rel2 j)"
proof -
  let ?i = "\<lparr>match_sjinfo = None, reversed = False, unique_ified = False, must_be_leftjoin = False\<rparr>"
  have "mirror ?i = ?i" by (simp add: mirror_def)
  then have "sj_loop svc rt rel2 rel1 j (join_info_list rt) ?i =
      map_option mirror (sj_loop svc rt rel1 rel2 j (join_info_list rt) ?i)"
    using sj_loop_mirror [OF assms(1-5), of svc rt j ?i] by simp
  then show ?thesis unfolding join_is_legal_def
    by (cases "sj_loop svc rt rel1 rel2 j (join_info_list rt) ?i")
      (simp_all add: lateral_ok_mirror [OF assms(6,7)], simp add: mirror_def)
qed

section \<open>The closure over inner sides of outer joins\<close>

definition rhs_closed :: "SpecialJoinInfo list \<Rightarrow> nat set \<Rightarrow> bool" where
  "rhs_closed sjs S \<longleftrightarrow>
     (\<forall>sj\<in>set sjs. jointype sj \<noteq> JOIN_FULL \<longrightarrow> bms_set (min_lefthand sj) \<inter> S \<noteq> {} \<longrightarrow>
        bms_set (min_righthand sj) \<subseteq> S)"

lemma bms_is_subset_sound: "bms_is_subset a b \<Longrightarrow> bms_set a \<subseteq> bms_set b"
  by (auto simp: bms_is_subset_cases split: option.splits)

lemma rhs_pass_grows: "bms_set r \<subseteq> bms_set (fst (rhs_pass sjs r again))"
  by (induction sjs r again rule: rhs_pass.induct) (auto simp: bms_add_members_refines)

lemma rhs_pass_bounded:
  "rhs_closed all S \<Longrightarrow> set sjs \<subseteq> set all \<Longrightarrow> bms_set r \<subseteq> S \<Longrightarrow> bms_set (fst (rhs_pass sjs r again)) \<subseteq> S"
proof (induction sjs arbitrary: r again)
  case (Cons sj sjs)
  have "sj \<in> set all" using Cons.prems by simp
  moreover have "bms_set (min_lefthand sj) \<inter> S \<noteq> {}" if "bms_overlap (min_lefthand sj) r"
    using that Cons.prems(3) unfolding bms_overlap_refines by blast
  ultimately have "jointype sj \<noteq> JOIN_FULL \<Longrightarrow> bms_overlap (min_lefthand sj) r \<Longrightarrow> bms_set (min_righthand sj) \<subseteq> S"
    using Cons.prems(1) unfolding rhs_closed_def by blast
  then show ?case using Cons by (simp add: bms_add_members_refines)
qed simp

lemma rhs_pass_again_keeps: "snd (rhs_pass sjs r True)"
  by (induction sjs arbitrary: r) auto

lemma rhs_pass_done:
  "\<not> snd (rhs_pass sjs r False) \<Longrightarrow> fst (rhs_pass sjs r False) = r \<and> rhs_closed sjs (bms_set r)"
proof (induction sjs)
  case (Cons sj sjs)
  let ?grow = "jointype sj \<noteq> JOIN_FULL \<and> bms_overlap (min_lefthand sj) r \<and> \<not> bms_is_subset (min_righthand sj) r"
  have "\<not> ?grow" using Cons.prems rhs_pass_again_keeps by (auto split: if_splits)
  then have eq: "rhs_pass (sj # sjs) r False = rhs_pass sjs r False" by auto
  have "jointype sj \<noteq> JOIN_FULL \<longrightarrow> bms_set (min_lefthand sj) \<inter> bms_set r \<noteq> {} \<longrightarrow>
      bms_set (min_righthand sj) \<subseteq> bms_set r"
    using \<open>\<not> ?grow\<close> bms_is_subset_sound by (auto simp: bms_overlap_refines)
  moreover have "fst (rhs_pass sjs r False) = r \<and> rhs_closed sjs (bms_set r)"
    using Cons unfolding eq by blast
  ultimately show ?case unfolding eq by (simp add: rhs_closed_def)
qed (simp add: rhs_closed_def)

declare close_rhs.simps [simp del]

lemma close_rhs_closed: "bms_set r \<subseteq> bms_set (close_rhs sjs r) \<and> rhs_closed sjs (bms_set (close_rhs sjs r))"
proof (induction sjs r rule: close_rhs.induct)
  case (1 sjs r)
  obtain r' again where p: "rhs_pass sjs r False = (r', again)" by (cases "rhs_pass sjs r False")
  show ?case
  proof (cases again)
    case True
    then have "close_rhs sjs r = close_rhs sjs r'" by (subst close_rhs.simps) (simp add: p)
    then show ?thesis using 1 [OF p [symmetric]] True rhs_pass_grows [of r sjs False] p by auto
  next
    case False
    then have "close_rhs sjs r = r'" by (subst close_rhs.simps) (simp add: p)
    then show ?thesis using rhs_pass_done [of sjs r] p False by simp
  qed
qed

lemma close_rhs_least: "rhs_closed sjs S \<Longrightarrow> bms_set r \<subseteq> S \<Longrightarrow> bms_set (close_rhs sjs r) \<subseteq> S"
proof (induction sjs r rule: close_rhs.induct)
  case (1 sjs r)
  obtain r' again where p: "rhs_pass sjs r False = (r', again)" by (cases "rhs_pass sjs r False")
  have "bms_set r' \<subseteq> S" using rhs_pass_bounded [OF 1(2) order_refl 1(3), of False] p by simp
  moreover have "close_rhs sjs r = (if again then close_rhs sjs r' else r')"
    by (subst close_rhs.simps) (simp add: p)
  ultimately show ?case using 1(1) [OF p [symmetric] _ 1(2)] by auto
qed

section \<open>Clause lists\<close>

text \<open>The clauses of a query that a relation takes part in but that it cannot evaluate alone.\<close>

definition join_clauses_of :: "RestrictInfo set \<Rightarrow> nat set \<Rightarrow> RestrictInfo set" where
  "join_clauses_of cl S = {c \<in> cl. bms_set (required_relids c) \<inter> S \<noteq> {} \<and> \<not> bms_set (required_relids c) \<subseteq> S}"

text \<open>Clause nodes are told apart by their addresses, and their relation sets are well formed.\<close>

definition clauses_ok :: "RestrictInfo set \<Rightarrow> bool" where
  "clauses_ok cl \<longleftrightarrow> inj_on rinfo_addr cl \<and> (\<forall>c\<in>cl. bms_wf (required_relids c))"

lemma append_unique:
  assumes "clauses_ok cl" "set xs \<subseteq> cl" "r \<in> cl"
  shows "set (list_append_unique_ptr xs r) = insert r (set xs)"
    and "distinct xs \<Longrightarrow> distinct (list_append_unique_ptr xs r)"
  using assms by (auto simp: list_append_unique_ptr_def list_ex_iff clauses_ok_def dest: inj_onD)

lemma subbuild_joinlist:
  assumes "clauses_ok cl" "set rinfos \<subseteq> cl" "set acc \<subseteq> cl"
  shows "set (subbuild_joinrel_joinlist joinrel rinfos acc) =
      set acc \<union> {c \<in> set rinfos. \<not> bms_set (required_relids c) \<subseteq> bms_set (relids joinrel)} \<and>
    (distinct acc \<longrightarrow> distinct (subbuild_joinrel_joinlist joinrel rinfos acc))"
  using assms(2,3)
proof (induction rinfos arbitrary: acc)
  case (Cons c cs)
  have sub: "bms_is_subset (required_relids c) (relids joinrel) \<longleftrightarrow>
      bms_set (required_relids c) \<subseteq> bms_set (relids joinrel)"
    using Cons.prems assms(1) by (auto simp: clauses_ok_def intro!: bms_is_subset_refines)
  show ?case
    using Cons append_unique [OF assms(1), of acc c] by (auto simp: sub)
qed simp

text \<open>
  The relation set of a join may hold, besides the two inputs, the index of the outer join it
  completes; a clause that needs the outer join also needs one of the inputs.
\<close>

definition joins_inputs :: "RestrictInfo set \<Rightarrow> RelOptInfo \<Rightarrow> RelOptInfo \<Rightarrow> RelOptInfo \<Rightarrow> bool" where
  "joins_inputs cl joinrel outer_rel inner_rel \<longleftrightarrow>
     bms_set (relids outer_rel) \<union> bms_set (relids inner_rel) \<subseteq> bms_set (relids joinrel) \<and>
     (\<forall>c\<in>cl. bms_set (required_relids c) \<inter> bms_set (relids joinrel) \<noteq> {} \<longrightarrow>
        bms_set (required_relids c) \<inter> (bms_set (relids outer_rel) \<union> bms_set (relids inner_rel)) \<noteq> {})"

lemma joins_inputs_union:
  "bms_set (relids joinrel) = bms_set (relids outer_rel) \<union> bms_set (relids inner_rel) \<Longrightarrow>
   joins_inputs cl joinrel outer_rel inner_rel"
  by (simp add: joins_inputs_def)

lemma joinlist_of_inputs:
  assumes "clauses_ok cl" "reloptkind joinrel = RELOPT_JOINREL" "joins_inputs cl joinrel outer_rel inner_rel"
    and "set (joininfo outer_rel) = join_clauses_of cl (bms_set (relids outer_rel))"
    and "set (joininfo inner_rel) = join_clauses_of cl (bms_set (relids inner_rel))"
  shows "\<exists>joinrel'. build_joinrel_joinlist joinrel outer_rel inner_rel = Inr joinrel' \<and>
    joinrel' = joinrel\<lparr>joininfo := joininfo joinrel'\<rparr> \<and> distinct (joininfo joinrel') \<and>
    set (joininfo joinrel') = join_clauses_of cl (bms_set (relids joinrel))"
proof -
  let ?o = "subbuild_joinrel_joinlist joinrel (joininfo outer_rel) []"
  let ?r = "subbuild_joinrel_joinlist joinrel (joininfo inner_rel) ?o"
  have sub: "set (joininfo outer_rel) \<subseteq> cl" "set (joininfo inner_rel) \<subseteq> cl"
    using assms(4,5) by (auto simp: join_clauses_of_def)
  have o: "set ?o = {c \<in> set (joininfo outer_rel). \<not> bms_set (required_relids c) \<subseteq> bms_set (relids joinrel)}"
      "distinct ?o"
    using subbuild_joinlist [OF assms(1) sub(1), of "[]" joinrel] by simp_all
  have r: "set ?r = set ?o \<union> {c \<in> set (joininfo inner_rel). \<not> bms_set (required_relids c) \<subseteq> bms_set (relids joinrel)}"
      "distinct ?r"
    using subbuild_joinlist [OF assms(1) sub(2), of ?o joinrel] o sub by auto
  have "set ?r = join_clauses_of cl (bms_set (relids joinrel))"
    using assms(3) unfolding r(1) o(1) assms(4,5) join_clauses_of_def joins_inputs_def by blast
  then show ?thesis using r(2) assms(2) by (simp add: build_joinrel_joinlist_def)
qed

text \<open>
  A clause of which there are several versions, for different orders of outer joins, is evaluated at
  a join only if the inputs have what it needs and none of the outer joins it must precede.
\<close>

definition clone_too_late :: "nat set \<Rightarrow> RestrictInfo \<Rightarrow> bool" where
  "clone_too_late inputs c \<longleftrightarrow> (has_clone c \<or> is_clone c) \<and>
     (\<not> bms_set (required_relids c) \<subseteq> inputs \<or> bms_set (incompatible_relids c) \<inter> inputs \<noteq> {})"

text \<open>What the two assertions exclude for a clause that becomes evaluable at the join.\<close>

definition clause_misplaced :: "nat set \<Rightarrow> nat set \<Rightarrow> RestrictInfo \<Rightarrow> bool" where
  "clause_misplaced S inputs c \<longleftrightarrow> bms_set (required_relids c) \<subseteq> S \<and>
     (if has_clone c \<or> is_clone c then is_pushed_down c
      else \<not> is_pushed_down c \<and> \<not> bms_set (required_relids c) \<subseteq> inputs)"

definition evaluable :: "nat set \<Rightarrow> nat set \<Rightarrow> RestrictInfo \<Rightarrow> bool" where
  "evaluable S inputs c \<longleftrightarrow> bms_set (required_relids c) \<subseteq> S \<and> \<not> clone_too_late inputs c"

lemma subbuild_restrictlist:
  assumes "clauses_ok cl" "set rinfos \<subseteq> cl" "set acc \<subseteq> cl"
  shows "if \<exists>c\<in>set rinfos. clause_misplaced (bms_set (relids joinrel)) (bms_set both) c
    then subbuild_joinrel_restrictlist joinrel rinfos both acc = Inl AssertFail
    else \<exists>result. subbuild_joinrel_restrictlist joinrel rinfos both acc = Inr result \<and>
      set result = set acc \<union> {c \<in> set rinfos. evaluable (bms_set (relids joinrel)) (bms_set both) c} \<and>
      (distinct acc \<longrightarrow> distinct result)"
  using assms(2,3)
proof (induction rinfos arbitrary: acc)
  case (Cons c cs)
  have wf: "bms_wf (required_relids c)" using Cons.prems assms(1) by (auto simp: clauses_ok_def)
  note one = RINFO_IS_PUSHED_DOWN_def bms_is_subset_refines [OF wf] bms_overlap_refines clause_misplaced_def [of _ _ c]
    evaluable_def [of _ _ c] clone_too_late_def
  have skip: "subbuild_joinrel_restrictlist joinrel (c # cs) both acc = subbuild_joinrel_restrictlist joinrel cs both acc"
    if "\<not> evaluable (bms_set (relids joinrel)) (bms_set both) c"
      "\<not> clause_misplaced (bms_set (relids joinrel)) (bms_set both) c"
    using that by (auto simp: one)
  have take: "subbuild_joinrel_restrictlist joinrel (c # cs) both acc =
      subbuild_joinrel_restrictlist joinrel cs both (list_append_unique_ptr acc c)"
    if "evaluable (bms_set (relids joinrel)) (bms_set both) c"
      "\<not> clause_misplaced (bms_set (relids joinrel)) (bms_set both) c"
    using that by (auto simp: one)
  show ?case
  proof (cases "clause_misplaced (bms_set (relids joinrel)) (bms_set both) c")
    case True
    then show ?thesis by (auto simp: one split: if_splits)
  next
    case False
    show ?thesis
    proof (cases "evaluable (bms_set (relids joinrel)) (bms_set both) c")
      case True
      have a: "set (list_append_unique_ptr acc c) = insert c (set acc)"
          "distinct acc \<longrightarrow> distinct (list_append_unique_ptr acc c)"
        using append_unique [OF assms(1), of acc c] Cons.prems by simp_all
      have "set (list_append_unique_ptr acc c) \<subseteq> cl" using a(1) Cons.prems by simp
      with Cons.IH [of "list_append_unique_ptr acc c"] Cons.prems False show ?thesis
        unfolding take [OF True False] by (auto simp: a True split: if_splits)
    next
      case nev: False
      with Cons.IH [of acc] Cons.prems False show ?thesis
        unfolding skip [OF nev False] by (auto split: if_splits)
    qed
  qed
qed simp

lemma restrictlist_of_inputs:
  assumes "clauses_ok cl" "set (joininfo outer_rel) \<subseteq> cl" "set (joininfo inner_rel) \<subseteq> cl"
    and "inputs = bms_set (relids outer_rel) \<union> bms_set (relids inner_rel)"
    and "given = set (joininfo outer_rel) \<union> set (joininfo inner_rel)"
  shows "if \<exists>c\<in>given. clause_misplaced (bms_set (relids joinrel)) inputs c
    then build_joinrel_restrictlist svc rt joinrel outer_rel inner_rel sj = Inl AssertFail
    else \<exists>result. build_joinrel_restrictlist svc rt joinrel outer_rel inner_rel sj =
        Inr (result @ generate_join_implied_equalities svc rt (relids joinrel) (relids outer_rel) inner_rel sj) \<and>
      distinct result \<and> set result = {c \<in> given. evaluable (bms_set (relids joinrel)) inputs c}"
proof -
  let ?both = "bms_union (relids outer_rel) (relids inner_rel)" and ?J = "bms_set (relids joinrel)"
  have both: "bms_set ?both = inputs" by (simp add: bms_union_refines assms(4))
  note o = subbuild_restrictlist [OF assms(1,2), of "[]" joinrel ?both, unfolded both]
  note i = subbuild_restrictlist [OF assms(1,3), of _ joinrel ?both, unfolded both]
  show ?thesis
  proof (cases "\<exists>c\<in>set (joininfo outer_rel). clause_misplaced ?J inputs c")
    case True
    then show ?thesis using o by (auto simp: build_joinrel_restrictlist_def Let_def assms(5))
  next
    case False
    then obtain l where l: "subbuild_joinrel_restrictlist joinrel (joininfo outer_rel) ?both [] = Inr l"
        "set l = {c \<in> set (joininfo outer_rel). evaluable ?J inputs c}" "distinct l"
      using o by auto
    then have il: "set l \<subseteq> cl" using assms(2) by auto
    show ?thesis
    proof (cases "\<exists>c\<in>set (joininfo inner_rel). clause_misplaced ?J inputs c")
      case True
      then show ?thesis using i [OF il] l(1) by (auto simp: build_joinrel_restrictlist_def Let_def assms(5))
    next
      case inner: False
      then obtain r where r: "subbuild_joinrel_restrictlist joinrel (joininfo inner_rel) ?both l = Inr r"
          "set r = set l \<union> {c \<in> set (joininfo inner_rel). evaluable ?J inputs c}" "distinct r"
        using i [OF il] l(3) by auto
      have "set r = {c \<in> given. evaluable ?J inputs c}" using r(2) l(2) assms(5) by blast
      moreover have "\<not> (\<exists>c\<in>given. clause_misplaced ?J inputs c)" using False inner assms(5) by blast
      ultimately show ?thesis using l(1) r(1,3) by (simp add: build_joinrel_restrictlist_def Let_def)
    qed
  qed
qed

text \<open>A query without clones, and a join that completes no outer join.\<close>

lemma restrictlist_of_union:
  assumes "clauses_ok cl" "\<forall>c\<in>cl. \<not> has_clone c \<and> \<not> is_clone c"
    and "bms_set (relids joinrel) = bms_set (relids outer_rel) \<union> bms_set (relids inner_rel)"
    and "set (joininfo outer_rel) \<subseteq> cl" "set (joininfo inner_rel) \<subseteq> cl"
  shows "\<exists>result. build_joinrel_restrictlist svc rt joinrel outer_rel inner_rel sj =
      Inr (result @ generate_join_implied_equalities svc rt (relids joinrel) (relids outer_rel) inner_rel sj) \<and>
    distinct result \<and> set result =
      {c \<in> set (joininfo outer_rel) \<union> set (joininfo inner_rel).
         bms_set (required_relids c) \<subseteq> bms_set (relids joinrel)}"
proof -
  let ?given = "set (joininfo outer_rel) \<union> set (joininfo inner_rel)"
  have plain: "\<not> has_clone c \<and> \<not> is_clone c" if "c \<in> ?given" for c using that assms(2,4,5) by blast
  then have "\<not> (\<exists>c\<in>?given. clause_misplaced (bms_set (relids joinrel)) (bms_set (relids joinrel)) c)"
    by (auto simp: clause_misplaced_def)
  moreover have "evaluable S S' c \<longleftrightarrow> bms_set (required_relids c) \<subseteq> S" if "c \<in> ?given" for c S S'
    using plain [OF that] by (simp add: evaluable_def clone_too_late_def)
  ultimately show ?thesis
    using restrictlist_of_inputs [OF assms(1,4,5) assms(3) refl, of joinrel svc rt sj] by (simp cong: conj_cong)
qed

lemma relevant_joinclause_iff:
  assumes "bms_set (relids rel1) \<inter> bms_set (relids rel2) = {}"
    and "set (joininfo rel1) = join_clauses_of cl (bms_set (relids rel1))"
    and "set (joininfo rel2) = join_clauses_of cl (bms_set (relids rel2))"
  shows "have_relevant_joinclause svc rt rel1 rel2 \<longleftrightarrow>
    (\<exists>c\<in>cl. bms_set (required_relids c) \<inter> bms_set (relids rel1) \<noteq> {} \<and>
       bms_set (required_relids c) \<inter> bms_set (relids rel2) \<noteq> {}) \<or>
    (has_eclass_joins rel1 \<and> has_eclass_joins rel2 \<and> have_relevant_eclass_joinclause svc rt rel1 rel2)"
proof -
  let ?both = "\<exists>c\<in>cl. bms_set (required_relids c) \<inter> bms_set (relids rel1) \<noteq> {} \<and>
       bms_set (required_relids c) \<inter> bms_set (relids rel2) \<noteq> {}"
  have "list_ex (\<lambda>c. bms_overlap (relids rel2) (required_relids c)) (joininfo rel1) \<longleftrightarrow> ?both"
    "list_ex (\<lambda>c. bms_overlap (relids rel1) (required_relids c)) (joininfo rel2) \<longleftrightarrow> ?both"
    using assms(1) unfolding list_ex_iff assms(2,3) join_clauses_of_def bms_overlap_refines by blast+
  then show ?thesis by (auto simp: have_relevant_joinclause_def)
qed

section \<open>Correctness\<close>

definition sample_services :: join_services where
  "sample_services =
     \<lparr>have_relevant_eclass_joinclause = \<lambda>_ _ _. False, has_relevant_eclass_joinclause = \<lambda>_ _. False,
      generate_join_implied_equalities = \<lambda>_ _ _ _ _. [], can_create_unique_path = \<lambda>_ _ _. False,
      placeholder_lateral_relids = \<lambda>_ joinrel _ _ _. direct_lateral_relids joinrel,
      joinrel_size_estimate = \<lambda>_ _ _ _ _ _. 1, is_parallel_safe = \<lambda>_ _ _. True,
      is_dummy_append = \<lambda>p. total_cost (info p) = 0, create_dummy_append = \<lambda>_. sample_path 0 0,
      path_builders = sample_path_services\<lparr>match_unsorted_outer :=
        \<lambda>_ joinrel _ _ _ _. (pathlist joinrel @ [sample_path 1 2], partial_pathlist joinrel)\<rparr>,
      try_partitionwise_join = \<lambda>_ _ _ joinrel _ _. (pathlist joinrel, partial_pathlist joinrel),
      generate_partitionwise_join_paths = \<lambda>_ joinrel. (pathlist joinrel, partial_pathlist joinrel),
      generate_useful_gather_paths = \<lambda>_ joinrel. (pathlist joinrel, partial_pathlist joinrel)\<rparr>"

definition sample_base :: "64 word \<Rightarrow> RestrictInfo list \<Rightarrow> RelOptInfo" where
  "sample_base w clauses =
     sample_rel\<lparr>reloptkind := RELOPT_BASEREL, relids := mk_bms [w], pathlist := [sample_path 1 2],
       joininfo := clauses\<rparr>"

definition sample_left_join :: SpecialJoinInfo where
  "sample_left_join =
     \<lparr>min_lefthand = mk_bms [2], min_righthand = mk_bms [4], syn_righthand = mk_bms [4],
      jointype = JOIN_LEFT, ojrelid = 3, commute_above_l = None, commute_below_l = None, lhs_strict = True\<rparr>"

definition sample_clause :: "nat \<Rightarrow> 64 word \<Rightarrow> RestrictInfo" where
  "sample_clause a w =
     \<lparr>is_pushed_down = False, required_relids = mk_bms [w], mergeopfamilies = [], left_ec = 0, right_ec = 0,
      outer_is_left = True, rinfo_addr = a, rinfo_clause = OtherClause, has_clone = False, is_clone = False,
      incompatible_relids = None\<rparr>"

lemmas sample_defs = sample_services_def sample_base_def sample_left_join_def sample_clause_def sample_rel_def
  mk_bms_def

text \<open>C6. Whether two relations may be joined, and as what, does not depend on the order in which they
  are given: the answer for the swapped pair names the same special join and, if there is one, the
  opposite direction. The relations are disjoint, and the sides of special joins are not empty.\<close>

theorem join_is_legal_symmetric:
  assumes "bms_wf (relids rel1)" and "bms_wf (relids rel2)" and "\<not> bms_overlap (relids rel1) (relids rel2)"
    and "relids rel1 \<noteq> None" and "list_all hands_ok (join_info_list rt)"
    and "bms_wf (lateral_relids rel1)" and "bms_wf (lateral_relids rel2)"
  shows "join_is_legal svc rt rel2 rel1 joinrelids =
    (case join_is_legal svc rt rel1 rel2 joinrelids of
       None \<Rightarrow> None
     | Some (sj, swapped) \<Rightarrow> Some (sj, sj \<noteq> None \<and> \<not> swapped))"
  unfolding join_is_legal_mirror [OF assms] by (simp split: option.splits)

theorem join_is_legal_symmetric_witness:
  "join_is_legal sample_services (sample_root\<lparr>join_info_list := [sample_left_join], hasLateralRTEs := True\<rparr>)
     (sample_base 4 []) (sample_base 2 []) (mk_bms [6]) = Some (Some sample_left_join, True)"
proof -
  let ?rt = "sample_root\<lparr>join_info_list := [sample_left_join], hasLateralRTEs := True\<rparr>"
  have "join_is_legal sample_services ?rt (sample_base 2 []) (sample_base 4 []) (mk_bms [6]) =
      Some (Some sample_left_join, False)"
    by (simp add: join_is_legal_def sj_step_def sj_irrelevant_def lateral_ok_def min_join_parameterization_def
        sample_defs bms_overlap_def bms_is_subset_def bms_union_def bms_del_members_def bms_copy_def)
  moreover have "\<not> bms_overlap (relids (sample_base 2 [])) (relids (sample_base 4 []))"
    by (simp add: bms_overlap_def sample_defs)
  ultimately show ?thesis
    using join_is_legal_symmetric [of "sample_base 2 []" "sample_base 4 []" ?rt sample_services "mk_bms [6]"]
    by (simp add: hands_ok_def bms_wf_def sample_defs)
qed

text \<open>C7. The loop that collects the relations on the inner side of outer joins with a given join
  computes the least set that contains the join and, with any relation of the left side of an outer
  join other than a full join, its whole right side.\<close>

theorem close_rhs_is_least_closure:
  "bms_set (close_rhs sjs r) = \<Inter>{S. bms_set r \<subseteq> S \<and> rhs_closed sjs S}"
  using close_rhs_closed [of r sjs] close_rhs_least [of sjs _ r] by blast

text \<open>C8. Where the clauses of two joined relations go. The join list of the new relation holds, without
  repetition, exactly the clauses of the query that the relation takes part in and that also need a
  relation outside it, whichever pair it is built from. Of the clauses that need nothing else, the
  restriction list holds, without repetition and before those derived from equivalence classes,
  all but the clones that come too late; a clone comes too late when it needs the outer join that
  is being completed, or must be evaluated below an outer join that an input already contains. The
  function fails an assertion exactly when a clone is pushed down, or a clause that is neither a
  clone nor pushed down needs the outer join being completed.\<close>

theorem joinrel_clauses_split:
  assumes "clauses_ok cl" and "reloptkind joinrel = RELOPT_JOINREL"
    and "joins_inputs cl joinrel outer_rel inner_rel"
    and "set (joininfo outer_rel) = join_clauses_of cl (bms_set (relids outer_rel))"
    and "set (joininfo inner_rel) = join_clauses_of cl (bms_set (relids inner_rel))"
    and "S = bms_set (relids joinrel)" and "inputs = bms_set (relids outer_rel) \<union> bms_set (relids inner_rel)"
    and "given = set (joininfo outer_rel) \<union> set (joininfo inner_rel)"
  shows "(\<exists>joinrel'. build_joinrel_joinlist joinrel outer_rel inner_rel = Inr joinrel' \<and>
      joinrel' = joinrel\<lparr>joininfo := joininfo joinrel'\<rparr> \<and>
      distinct (joininfo joinrel') \<and> set (joininfo joinrel') = join_clauses_of cl S) \<and>
    (if \<exists>c\<in>given. clause_misplaced S inputs c
     then build_joinrel_restrictlist svc rt joinrel outer_rel inner_rel sj = Inl AssertFail
     else \<exists>restricts. build_joinrel_restrictlist svc rt joinrel outer_rel inner_rel sj =
         Inr (restricts @ generate_join_implied_equalities svc rt (relids joinrel) (relids outer_rel) inner_rel sj) \<and>
       distinct restricts \<and>
       set restricts = given - join_clauses_of cl S - {c. clone_too_late inputs c})"
proof -
  have sub: "set (joininfo outer_rel) \<subseteq> cl" "set (joininfo inner_rel) \<subseteq> cl"
    using assms(4,5) by (auto simp: join_clauses_of_def)
  have "given - join_clauses_of cl S - {c. clone_too_late inputs c} = {c \<in> given. evaluable S inputs c}"
    using assms(3) unfolding assms(4-8) join_clauses_of_def joins_inputs_def evaluable_def by blast
  then show ?thesis
    using joinlist_of_inputs [OF assms(1-5)] restrictlist_of_inputs [OF assms(1) sub assms(7,8), of joinrel svc rt sj]
    unfolding assms(6) by presburger
qed

lemma sample_words_sets [simp]:
  "words_set [2] = {1}" "words_set [4] = {2}" "words_set [6] = {1, 2}" "words_set [8] = {3}"
  "words_set [12] = {2, 3}" "words_set [14] = {1, 2, 3}" "words_set [20] = {2, 4}"
  by (simp_all only: words_set_single) code_simp+

text \<open>
  A left join of relations 1 and 2 whose index is 3: one clause on both relations, a clone of it
  that needs the outer join, and a clause with relation 4.
\<close>

theorem joinrel_clauses_split_witness:
  "\<exists>joinrel' restricts. build_joinrel_joinlist (sample_rel\<lparr>relids := mk_bms [14]\<rparr>)
       (sample_base 2 [sample_clause 0 6, (sample_clause 2 14)\<lparr>is_clone := True\<rparr>])
       (sample_base 4 [sample_clause 0 6, sample_clause 1 20, (sample_clause 2 14)\<lparr>is_clone := True\<rparr>]) = Inr joinrel' \<and>
     set (joininfo joinrel') = {sample_clause 1 20} \<and>
     build_joinrel_restrictlist sample_services sample_root (sample_rel\<lparr>relids := mk_bms [14]\<rparr>)
       (sample_base 2 [sample_clause 0 6, (sample_clause 2 14)\<lparr>is_clone := True\<rparr>])
       (sample_base 4 [sample_clause 0 6, sample_clause 1 20, (sample_clause 2 14)\<lparr>is_clone := True\<rparr>]) sample_left_join =
       Inr restricts \<and>
     set restricts = {sample_clause 0 6}"
proof -
  define a b c where "a = sample_clause 0 6" and "b = sample_clause 1 20"
    and "c = (sample_clause 2 14)\<lparr>is_clone := True\<rparr>"
  define J where "J = sample_rel\<lparr>relids := mk_bms [14]\<rparr>"
  let ?o = "sample_base 2 [a, c]" and ?i = "sample_base 4 [a, b, c]"
  have q: "bms_set (required_relids a) = {1, 2}" "bms_set (required_relids b) = {2, 4}"
      "bms_set (required_relids c) = {1, 2, 3}"
    by (simp_all add: a_def b_def c_def sample_clause_def)
  have k: "\<not> has_clone a" "\<not> is_clone a" "\<not> has_clone b" "\<not> is_clone b" "is_clone c" "\<not> is_pushed_down c"
    "rinfo_addr a = 0" "rinfo_addr b = 1" "rinfo_addr c = 2"
    by (simp_all add: a_def b_def c_def sample_clause_def)
  then have n: "a \<noteq> b" "a \<noteq> c" "b \<noteq> c" by auto
  have w: "bms_wf (required_relids a)" "bms_wf (required_relids b)" "bms_wf (required_relids c)"
    by (simp_all add: a_def b_def c_def sample_clause_def bms_wf_def mk_bms_def)
  have t: "bms_set (relids J) = {1, 2, 3}" "bms_set (relids ?o) = {1}" "bms_set (relids ?i) = {2}"
      "joininfo ?o = [a, c]" "joininfo ?i = [a, b, c]" "reloptkind J = RELOPT_JOINREL"
    by (simp_all add: J_def sample_base_def sample_rel_def)
  have ok: "clauses_ok {a, b, c}" using k w by (auto simp: clauses_ok_def inj_on_def)
  have ji: "joins_inputs {a, b, c} J ?o ?i" by (auto simp: joins_inputs_def t q)
  have ol: "set (joininfo ?o) = join_clauses_of {a, b, c} (bms_set (relids ?o))"
    and il: "set (joininfo ?i) = join_clauses_of {a, b, c} (bms_set (relids ?i))"
    by (auto simp: join_clauses_of_def t q)
  have outside: "join_clauses_of {a, b, c} {1, 2, 3} = {b}" by (auto simp: join_clauses_of_def q)
  have placed: "\<not> (\<exists>c\<in>{a, b, c}. clause_misplaced {1, 2, 3} {1, 2} c)" using k by (simp add: clause_misplaced_def q)
  have late: "clone_too_late {1, 2} c" "\<not> clone_too_late {1, 2} a" using k by (simp_all add: clone_too_late_def q)
  have inp: "{1, 2} = bms_set (relids ?o) \<union> bms_set (relids ?i)" by (simp add: t insert_commute)
  have giv: "{a, b, c} = set (joininfo ?o) \<union> set (joininfo ?i)" by (auto simp: t)
  note claim = joinrel_clauses_split [OF ok t(6) ji ol il t(1) [symmetric] inp giv, of sample_services sample_root sample_left_join]
  have "{a, b, c} - {b} - {c. clone_too_late {1, 2} c} = {a}" using late n by auto
  with claim show ?thesis
    unfolding if_not_P [OF placed] outside a_def [symmetric] b_def [symmetric] c_def [symmetric] J_def [symmetric]
    by (auto simp: sample_services_def)
qed

end
