(* ===== verification/Joinrels.thy ===== *)
theory Joinrels
  imports Joinlegal
begin

text \<open>
  Join relations and the search for a join order: \<^verbatim>\<open>make_join_rel\<close> and \<^verbatim>\<open>join_search_one_level\<close> of
  \<^verbatim>\<open>src/backend/optimizer/path/joinrels.c\<close>, the table of join relations of
  \<^verbatim>\<open>src/backend/optimizer/util/relnode.c\<close>, and \<^verbatim>\<open>standard_join_search\<close> of
  \<^verbatim>\<open>src/backend/optimizer/path/allpaths.c\<close>. Relation nodes are shared and updated in place: they live in a
  heap, and the planner's lists hold pointers into it. Special joins are compared as records; two that
  are relevant differ in their relation index.
\<close>

section \<open>The state of a join search\<close>

type_synonym rel_ptr = nat

text \<open>
  The fields of \<^verbatim>\<open>PlannerInfo\<close> that the search changes, and Athena's variables. The hash table is an
  association list whose keys are compared by \<^verbatim>\<open>bitmap_match\<close>, that is, by \<^verbatim>\<open>bms_equal\<close>.
\<close>

record join_state =
  rel_heap :: "RelOptInfo list"
  initial_rels :: "rel_ptr list"
  join_rel_list :: "rel_ptr list"
  join_rel_hash :: "(Relids \<times> rel_ptr) list option"
  join_rel_level :: "rel_ptr list list option"
  join_cur_level :: nat
  jop :: jop_state

definition the_rel :: "join_state \<Rightarrow> rel_ptr \<Rightarrow> RelOptInfo" where
  "the_rel st p = rel_heap st ! p"

definition set_rel :: "join_state \<Rightarrow> rel_ptr \<Rightarrow> RelOptInfo \<Rightarrow> join_state" where
  "set_rel st p r = st\<lparr>rel_heap := (rel_heap st)[p := r]\<rparr>"

definition level_rels :: "join_state \<Rightarrow> nat \<Rightarrow> rel_ptr list" where
  "level_rels st l = (case join_rel_level st of None \<Rightarrow> [] | Some levels \<Rightarrow> levels ! l)"

section \<open>The table of join relations\<close>

definition hash_find :: "(Relids \<times> rel_ptr) list \<Rightarrow> Relids \<Rightarrow> rel_ptr option" where
  "hash_find tab key = map_option snd (find (\<lambda>e. bms_equal (fst e) key) tab)"

text \<open>\<^verbatim>\<open>hash_search\<close> with \<^verbatim>\<open>HASH_ENTER\<close>, and the assertion that the key is new.\<close>

definition hash_enter :: "join_state \<Rightarrow> rel_ptr \<Rightarrow> (Relids \<times> rel_ptr) list \<Rightarrow> (Relids \<times> rel_ptr) list res" where
  "hash_enter st p tab =
     (if hash_find tab (relids (the_rel st p)) \<noteq> None then Inl AssertFail
      else Inr ((relids (the_rel st p), p) # tab))"

fun hash_enter_all ::
  "join_state \<Rightarrow> rel_ptr list \<Rightarrow> (Relids \<times> rel_ptr) list \<Rightarrow> (Relids \<times> rel_ptr) list res" where
  "hash_enter_all st [] tab = Inr tab"
| "hash_enter_all st (p # ps) tab = res_bind (hash_enter st p tab) (hash_enter_all st ps)"

definition build_join_rel_hash :: "join_state \<Rightarrow> join_state res" where
  "build_join_rel_hash st =
     res_bind (hash_enter_all st (join_rel_list st) []) (\<lambda>hashtab. Inr (st\<lparr>join_rel_hash := Some hashtab\<rparr>))"

definition find_join_rel :: "join_state \<Rightarrow> Relids \<Rightarrow> (rel_ptr option \<times> join_state) res" where
  "find_join_rel st rels =
     res_bind (if join_rel_hash st = None \<and> length (join_rel_list st) > 32 then build_join_rel_hash st else Inr st) (\<lambda>st.
       case join_rel_hash st of
         Some hashtab \<Rightarrow> Inr (hash_find hashtab rels, st)
       | None \<Rightarrow> Inr (find (\<lambda>p. bms_equal (relids (the_rel st p)) rels) (join_rel_list st), st))"

definition add_join_rel :: "join_state \<Rightarrow> rel_ptr \<Rightarrow> join_state res" where
  "add_join_rel st joinrel =
     (let st = st\<lparr>join_rel_list := join_rel_list st @ [joinrel]\<rparr> in
      case join_rel_hash st of
        None \<Rightarrow> Inr st
      | Some hashtab \<Rightarrow>
          res_bind (hash_enter st joinrel hashtab) (\<lambda>hashtab. Inr (st\<lparr>join_rel_hash := Some hashtab\<rparr>)))"

section \<open>Building a join relation\<close>

text \<open>The new node, before its target list and clauses are known.\<close>

definition new_join_rel :: "PlannerInfo \<Rightarrow> Relids \<Rightarrow> RelOptInfo \<Rightarrow> RelOptInfo \<Rightarrow> RelOptInfo" where
  "new_join_rel rt joinrelids outer_rel inner_rel =
     \<lparr>reloptkind = RELOPT_JOINREL, relids = bms_copy joinrelids, rel_rows = 0,
      rel_consider_startup = tuple_fraction rt > 0, rel_consider_param_startup = False,
      consider_parallel = False, pathlist = [], partial_pathlist = [], cheapest_startup_path = None,
      cheapest_total_path = None, cheapest_unique_path = None, cheapest_parameterized_paths = [],
      direct_lateral_relids = bms_union (direct_lateral_relids outer_rel) (direct_lateral_relids inner_rel),
      lateral_relids = min_join_parameterization (bms_copy joinrelids) outer_rel inner_rel,
      lateral_referencers = None, joininfo = [], has_eclass_joins = False, top_parent_relids = None\<rparr>"

text \<open>
  Target lists and partition data are not part of the model; \<^verbatim>\<open>pushed_down_joins\<close> is only used for the
  former, so it is left out here.
\<close>

definition build_join_rel ::
  "join_services \<Rightarrow> PlannerInfo \<Rightarrow> join_state \<Rightarrow> Relids \<Rightarrow> rel_ptr \<Rightarrow> rel_ptr \<Rightarrow> SpecialJoinInfo \<Rightarrow>
   ((rel_ptr \<times> RestrictInfo list) \<times> join_state) res" where
  "build_join_rel svc rt st joinrelids outer inner sj =
     (let outer_rel = the_rel st outer; inner_rel = the_rel st inner in
      if IS_OTHER_REL outer_rel \<or> IS_OTHER_REL inner_rel then Inl AssertFail
      else res_bind (find_join_rel st joinrelids) (\<lambda>(found, st).
        case found of
          Some joinrel \<Rightarrow>
            res_bind (build_joinrel_restrictlist svc rt (the_rel st joinrel) outer_rel inner_rel sj) (\<lambda>restrictlist.
              Inr ((joinrel, restrictlist), st))
        | None \<Rightarrow>
            let r0 = new_join_rel rt joinrelids outer_rel inner_rel;
                r1 = r0\<lparr>direct_lateral_relids :=
                  bms_del_members (placeholder_lateral_relids svc rt r0 outer_rel inner_rel sj) (relids r0)\<rparr>
            in res_bind (build_joinrel_restrictlist svc rt r1 outer_rel inner_rel sj) (\<lambda>restrictlist.
               res_bind (build_joinrel_joinlist r1 outer_rel inner_rel) (\<lambda>r2.
               let r3 = r2\<lparr>has_eclass_joins := has_relevant_eclass_joinclause svc rt r2\<rparr>;
                   r4 = r3\<lparr>rel_rows := joinrel_size_estimate svc rt r3 outer_rel inner_rel sj restrictlist\<rparr>;
                   r5 = r4\<lparr>consider_parallel := (consider_parallel inner_rel \<and> consider_parallel outer_rel \<and>
                     is_parallel_safe svc rt r4 restrictlist)\<rparr>;
                   joinrel = length (rel_heap st)
               in res_bind (add_join_rel (st\<lparr>rel_heap := rel_heap st @ [r5]\<rparr>) joinrel) (\<lambda>st.
                  case join_rel_level st of
                    None \<Rightarrow> Inr ((joinrel, restrictlist), st)
                  | Some levels \<Rightarrow>
                      let l = join_cur_level st in
                      if \<not> (0 < l \<and> l \<le> bms_num_members (relids r5)) then Inl AssertFail
                      else if l \<ge> length levels then Inl BadAccess
                      else Inr ((joinrel, restrictlist),
                        st\<lparr>join_rel_level := Some (levels[l := levels ! l @ [joinrel]])\<rparr>))))))"

section \<open>Empty relations\<close>

fun skip_projections :: "path \<Rightarrow> path" where
  "skip_projections (SubPath pinf p) =
     (if path_type pinf = T_ProjectionPath \<or> path_type pinf = T_ProjectSetPath then skip_projections p
      else SubPath pinf p)"
| "skip_projections p = p"

definition is_dummy_rel :: "join_services \<Rightarrow> RelOptInfo \<Rightarrow> bool" where
  "is_dummy_rel svc rel =
     (case pathlist rel of [] \<Rightarrow> False | p # _ \<Rightarrow> is_dummy_append svc (skip_projections p))"

definition mark_dummy_rel :: "join_services \<Rightarrow> jop_state \<Rightarrow> RelOptInfo \<Rightarrow> RelOptInfo res" where
  "mark_dummy_rel svc g rel =
     (if is_dummy_rel svc rel then Inr rel
      else let rel = rel\<lparr>rel_rows := 0, pathlist := [], partial_pathlist := []\<rparr>
           in set_cheapest (add_path g rel (create_dummy_append svc rel)))"

definition restriction_is_constant_false :: "RestrictInfo list \<Rightarrow> RelOptInfo \<Rightarrow> bool \<Rightarrow> bool" where
  "restriction_is_constant_false restrictlist joinrel only_pushed_down =
     list_ex (\<lambda>rinfo. \<not> (only_pushed_down \<and> \<not> RINFO_IS_PUSHED_DOWN rinfo (relids joinrel)) \<and>
         (rinfo_clause rinfo = ConstClause None \<or> rinfo_clause rinfo = ConstClause (Some False))) restrictlist"

section \<open>Paths of a join relation\<close>

definition mark_dummy :: "join_services \<Rightarrow> rel_ptr \<Rightarrow> join_state \<Rightarrow> join_state res" where
  "mark_dummy svc p st = res_bind (mark_dummy_rel svc (jop st) (the_rel st p)) (\<lambda>r. Inr (set_rel st p r))"

definition add_join_paths ::
  "join_services \<Rightarrow> PlannerInfo \<Rightarrow> rel_ptr \<Rightarrow> SpecialJoinInfo \<Rightarrow> RestrictInfo list \<Rightarrow> rel_ptr \<Rightarrow> rel_ptr \<Rightarrow> JoinType \<Rightarrow>
   join_state \<Rightarrow> join_state res" where
  "add_join_paths svc rt joinrel sj restrictlist outer inner jt st =
     res_bind
       (add_paths_to_joinrel (path_builders svc) (jop st) rt (the_rel st joinrel)
          \<lparr>pair_outer = the_rel st outer, pair_inner = the_rel st inner, pair_jointype = jt, pair_sjinfo = sj,
           pair_restrictlist = restrictlist\<rparr>)
       (\<lambda>r. Inr (set_rel st joinrel r))"

definition populate_joinrel_with_paths ::
  "join_services \<Rightarrow> PlannerInfo \<Rightarrow> rel_ptr \<Rightarrow> rel_ptr \<Rightarrow> rel_ptr \<Rightarrow> SpecialJoinInfo \<Rightarrow> RestrictInfo list \<Rightarrow>
   join_state \<Rightarrow> join_state res" where
  "populate_joinrel_with_paths svc rt p1 p2 joinrel sj restrictlist st =
     (let add = add_join_paths svc rt joinrel sj restrictlist;
          dummy = (\<lambda>p. is_dummy_rel svc (the_rel st p));
          const_false = restriction_is_constant_false restrictlist (the_rel st joinrel);
          hide_inner = (\<lambda>st. if const_false False \<and> bms_is_subset (relids (the_rel st p2)) (syn_righthand sj)
                              then mark_dummy svc p2 st else Inr st)
      in res_bind
        (case jointype sj of
           JOIN_INNER \<Rightarrow>
             if dummy p1 \<or> dummy p2 \<or> const_false False then mark_dummy svc joinrel st
             else res_bind (add p1 p2 JOIN_INNER st) (add p2 p1 JOIN_INNER)
         | JOIN_LEFT \<Rightarrow>
             if dummy p1 \<or> const_false True then mark_dummy svc joinrel st
             else res_bind (hide_inner st) (\<lambda>st. res_bind (add p1 p2 JOIN_LEFT st) (add p2 p1 JOIN_RIGHT))
         | JOIN_FULL \<Rightarrow>
             if (dummy p1 \<and> dummy p2) \<or> const_false True then mark_dummy svc joinrel st
             else res_bind (add p1 p2 JOIN_FULL st) (\<lambda>st. res_bind (add p2 p1 JOIN_FULL st) (\<lambda>st.
               if pathlist (the_rel st joinrel) = []
               then Inl (Elog ''FULL JOIN is only supported with merge-joinable or hash-joinable join conditions'')
               else Inr st))
         | JOIN_SEMI \<Rightarrow>
             let semi = bms_is_subset (min_lefthand sj) (relids (the_rel st p1)) \<and>
                        bms_is_subset (min_righthand sj) (relids (the_rel st p2));
                 empty = (dummy p1 \<or> dummy p2 \<or> const_false False)
             in if semi \<and> empty then mark_dummy svc joinrel st
                else res_bind (if semi then add p1 p2 JOIN_SEMI st else Inr st) (\<lambda>st.
                  if bms_equal (syn_righthand sj) (relids (the_rel st p2)) \<and>
                     can_create_unique_path svc rt (the_rel st p2) sj
                  then if empty then mark_dummy svc joinrel st
                       else res_bind (add p1 p2 JOIN_UNIQUE_INNER st) (add p2 p1 JOIN_UNIQUE_OUTER)
                  else Inr st)
         | JOIN_ANTI \<Rightarrow>
             if dummy p1 \<or> const_false True then mark_dummy svc joinrel st
             else res_bind (hide_inner st) (\<lambda>st. res_bind (add p1 p2 JOIN_ANTI st) (add p2 p1 JOIN_RIGHT_ANTI))
         | _ \<Rightarrow> Inl (Elog ''unrecognized join type''))
        (\<lambda>st. let r = the_rel st joinrel in
           Inr (set_rel st joinrel (set_paths r
             (try_partitionwise_join svc rt (the_rel st p1) (the_rel st p2) r sj restrictlist)))))"

section \<open>Joining two relations\<close>

text \<open>One special join in the search for outer joins that this join completes.\<close>

fun pushed_down_loop ::
  "SpecialJoinInfo \<Rightarrow> SpecialJoinInfo list \<Rightarrow> Relids \<Rightarrow> Relids \<Rightarrow> SpecialJoinInfo list \<Rightarrow>
   (Relids \<times> SpecialJoinInfo list) res" where
  "pushed_down_loop sj [] input_relids commute_above_rels pushed = Inr (input_relids, pushed)"
| "pushed_down_loop sj (othersj # sjs) input_relids commute_above_rels pushed =
     (if othersj = sj \<or> ojrelid othersj = 0 \<or> jointype othersj \<noteq> JOIN_LEFT
      then pushed_down_loop sj sjs input_relids commute_above_rels pushed
      else res_bind (bms_is_member (int (ojrelid othersj)) commute_above_rels) (\<lambda>above.
        if \<not> above then pushed_down_loop sj sjs input_relids commute_above_rels pushed
        else res_bind (bms_is_member (int (ojrelid othersj)) input_relids) (\<lambda>present.
          if \<not> present \<and> bms_is_subset (min_lefthand othersj) input_relids \<and>
             bms_is_subset (min_righthand othersj) input_relids \<and>
             bms_is_subset (commute_below_l othersj) input_relids
          then res_bind (bms_add_member input_relids (int (ojrelid othersj))) (\<lambda>input_relids.
            pushed_down_loop sj sjs input_relids
              (bms_add_members commute_above_rels (commute_above_l othersj)) (pushed @ [othersj]))
          else pushed_down_loop sj sjs input_relids commute_above_rels pushed)))"

definition add_outer_joins_to_relids ::
  "PlannerInfo \<Rightarrow> Relids \<Rightarrow> SpecialJoinInfo option \<Rightarrow> (Relids \<times> SpecialJoinInfo list) res" where
  "add_outer_joins_to_relids rt input_relids sjinfo =
     (case sjinfo of
        None \<Rightarrow> Inr (input_relids, [])
      | Some sj \<Rightarrow>
          if ojrelid sj = 0 then Inr (input_relids, [])
          else if jointype sj \<noteq> JOIN_LEFT
          then res_bind (bms_add_member input_relids (int (ojrelid sj))) (\<lambda>r. Inr (r, []))
          else if \<not> bms_is_subset (commute_below_l sj) input_relids then Inr (input_relids, [])
          else res_bind (bms_add_member input_relids (int (ojrelid sj))) (\<lambda>r.
            if commute_above_l sj \<noteq> None
            then pushed_down_loop sj (join_info_list rt) r (bms_copy (commute_above_l sj)) []
            else Inr (r, [])))"

text \<open>The special join made up for a plain inner join.\<close>

definition inner_sjinfo :: "RelOptInfo \<Rightarrow> RelOptInfo \<Rightarrow> SpecialJoinInfo" where
  "inner_sjinfo rel1 rel2 =
     \<lparr>min_lefthand = relids rel1, min_righthand = relids rel2, syn_righthand = relids rel2,
      jointype = JOIN_INNER, ojrelid = 0, commute_above_l = None, commute_below_l = None, lhs_strict = False\<rparr>"

definition make_join_rel ::
  "join_services \<Rightarrow> PlannerInfo \<Rightarrow> rel_ptr \<Rightarrow> rel_ptr \<Rightarrow> join_state \<Rightarrow> (rel_ptr option \<times> join_state) res" where
  "make_join_rel svc rt rel1 rel2 st =
     (if bms_overlap (relids (the_rel st rel1)) (relids (the_rel st rel2)) then Inl AssertFail
      else let joinrelids = bms_union (relids (the_rel st rel1)) (relids (the_rel st rel2)) in
        case join_is_legal svc rt (the_rel st rel1) (the_rel st rel2) joinrelids of
          None \<Rightarrow> Inr (None, st)
        | Some (match, swapped) \<Rightarrow>
            res_bind (add_outer_joins_to_relids rt joinrelids match) (\<lambda>(joinrelids, pushed_down_joins).
              let p1 = (if swapped then rel2 else rel1); p2 = (if swapped then rel1 else rel2);
                  sj = (case match of None \<Rightarrow> inner_sjinfo (the_rel st p1) (the_rel st p2) | Some sj \<Rightarrow> sj)
              in res_bind (build_join_rel svc rt st joinrelids p1 p2 sj) (\<lambda>((joinrel, restrictlist), st).
                if is_dummy_rel svc (the_rel st joinrel) then Inr (Some joinrel, st)
                else res_bind (populate_joinrel_with_paths svc rt p1 p2 joinrel sj restrictlist st) (\<lambda>st.
                  Inr (Some joinrel, st)))))"

section \<open>One level of the search\<close>

definition initial_nodes :: "join_state \<Rightarrow> RelOptInfo list" where
  "initial_nodes st = map (the_rel st) (initial_rels st)"

definition joinable :: "join_services \<Rightarrow> PlannerInfo \<Rightarrow> join_state \<Rightarrow> rel_ptr \<Rightarrow> rel_ptr \<Rightarrow> bool" where
  "joinable svc rt st p q \<longleftrightarrow>
     have_relevant_joinclause svc rt (the_rel st p) (the_rel st q) \<or>
     have_join_order_restriction svc rt (initial_nodes st) (the_rel st p) (the_rel st q)"

fun make_rels_by_clause_joins ::
  "join_services \<Rightarrow> PlannerInfo \<Rightarrow> rel_ptr \<Rightarrow> rel_ptr list \<Rightarrow> join_state \<Rightarrow> join_state res" where
  "make_rels_by_clause_joins svc rt old_rel [] st = Inr st"
| "make_rels_by_clause_joins svc rt old_rel (other_rel # others) st =
     (if \<not> bms_overlap (relids (the_rel st old_rel)) (relids (the_rel st other_rel)) \<and>
         joinable svc rt st old_rel other_rel
      then res_bind (make_join_rel svc rt old_rel other_rel st) (\<lambda>(_, st).
        make_rels_by_clause_joins svc rt old_rel others st)
      else make_rels_by_clause_joins svc rt old_rel others st)"

fun make_rels_by_clauseless_joins ::
  "join_services \<Rightarrow> PlannerInfo \<Rightarrow> rel_ptr \<Rightarrow> rel_ptr list \<Rightarrow> join_state \<Rightarrow> join_state res" where
  "make_rels_by_clauseless_joins svc rt old_rel [] st = Inr st"
| "make_rels_by_clauseless_joins svc rt old_rel (other_rel # others) st =
     (if \<not> bms_overlap (relids (the_rel st other_rel)) (relids (the_rel st old_rel))
      then res_bind (make_join_rel svc rt old_rel other_rel st) (\<lambda>(_, st).
        make_rels_by_clauseless_joins svc rt old_rel others st)
      else make_rels_by_clauseless_joins svc rt old_rel others st)"

definition has_join_reason :: "PlannerInfo \<Rightarrow> RelOptInfo \<Rightarrow> bool" where
  "has_join_reason rt rel \<longleftrightarrow> joininfo rel \<noteq> [] \<or> has_eclass_joins rel \<or> has_join_restriction rt rel"

text \<open>Left- and right-sided plans; the list is what remains of the previous level.\<close>

fun linear_joins ::
  "join_services \<Rightarrow> PlannerInfo \<Rightarrow> nat \<Rightarrow> rel_ptr list \<Rightarrow> join_state \<Rightarrow> join_state res" where
  "linear_joins svc rt level [] st = Inr st"
| "linear_joins svc rt level (old_rel # rest) st =
     res_bind
       (if has_join_reason rt (the_rel st old_rel)
        then make_rels_by_clause_joins svc rt old_rel (if level = 2 then rest else level_rels st 1) st
        else make_rels_by_clauseless_joins svc rt old_rel (level_rels st 1) st)
       (linear_joins svc rt level rest)"

text \<open>Bushy plans: relations of \<open>k\<close> and of \<open>level - k\<close> items.\<close>

fun bushy_joins ::
  "join_services \<Rightarrow> PlannerInfo \<Rightarrow> nat \<Rightarrow> nat \<Rightarrow> rel_ptr list \<Rightarrow> join_state \<Rightarrow> join_state res" where
  "bushy_joins svc rt level k [] st = Inr st"
| "bushy_joins svc rt level k (old_rel # rest) st =
     res_bind
       (if \<not> has_join_reason rt (the_rel st old_rel) then Inr st
        else make_rels_by_clause_joins svc rt old_rel
               (if k = level - k then rest else level_rels st (level - k)) st)
       (bushy_joins svc rt level k rest)"

fun bushy_levels :: "join_services \<Rightarrow> PlannerInfo \<Rightarrow> nat \<Rightarrow> nat list \<Rightarrow> join_state \<Rightarrow> join_state res" where
  "bushy_levels svc rt level [] st = Inr st"
| "bushy_levels svc rt level (k # ks) st =
     res_bind (bushy_joins svc rt level k (level_rels st k) st) (bushy_levels svc rt level ks)"

fun cartesian_joins :: "join_services \<Rightarrow> PlannerInfo \<Rightarrow> rel_ptr list \<Rightarrow> join_state \<Rightarrow> join_state res" where
  "cartesian_joins svc rt [] st = Inr st"
| "cartesian_joins svc rt (old_rel # rest) st =
     res_bind (make_rels_by_clauseless_joins svc rt old_rel (level_rels st 1) st) (cartesian_joins svc rt rest)"

definition join_search_one_level :: "join_services \<Rightarrow> PlannerInfo \<Rightarrow> nat \<Rightarrow> join_state \<Rightarrow> join_state res" where
  "join_search_one_level svc rt level st =
     (if level_rels st level \<noteq> [] then Inl AssertFail
      else let st = st\<lparr>join_cur_level := level\<rparr> in
        res_bind (linear_joins svc rt level (level_rels st (level - 1)) st) (\<lambda>st.
        res_bind (bushy_levels svc rt level [2..<Suc (level div 2)] st) (\<lambda>st.
        if level_rels st level \<noteq> [] then Inr st
        else res_bind (cartesian_joins svc rt (level_rels st (level - 1)) st) (\<lambda>st.
          if level_rels st level = [] \<and> join_info_list rt = [] \<and> \<not> hasLateralRTEs rt
          then Inl (Elog ''failed to build any %d-way joins'')
          else Inr st))))"

section \<open>The dynamic-programming search\<close>

text \<open>What is done for each relation of a level once all its paths are there.\<close>

definition finish_rel :: "join_services \<Rightarrow> PlannerInfo \<Rightarrow> rel_ptr \<Rightarrow> join_state \<Rightarrow> join_state res" where
  "finish_rel svc rt p st =
     (let r = the_rel st p;
          r1 = set_paths r (generate_partitionwise_join_paths svc rt r);
          r2 = (if \<not> bms_equal (relids r1) (all_query_rels rt)
                then set_paths r1 (generate_useful_gather_paths svc rt r1) else r1)
      in res_bind (set_cheapest r2) (\<lambda>r3. Inr (set_rel st p r3)))"

fun finish_rels :: "join_services \<Rightarrow> PlannerInfo \<Rightarrow> rel_ptr list \<Rightarrow> join_state \<Rightarrow> join_state res" where
  "finish_rels svc rt [] st = Inr st"
| "finish_rels svc rt (p # ps) st = res_bind (finish_rel svc rt p st) (finish_rels svc rt ps)"

fun search_levels :: "join_services \<Rightarrow> PlannerInfo \<Rightarrow> nat list \<Rightarrow> join_state \<Rightarrow> join_state res" where
  "search_levels svc rt [] st = Inr st"
| "search_levels svc rt (lev # levs) st =
     res_bind (join_search_one_level svc rt lev st) (\<lambda>st.
     res_bind (finish_rels svc rt (level_rels st lev) st) (search_levels svc rt levs))"

definition set_finished :: "bool \<Rightarrow> join_state \<Rightarrow> join_state" where
  "set_finished b st =
     (if enable_join_order_plans (jop st) then st\<lparr>jop := (jop st)\<lparr>save_join_order_plan_finished := b\<rparr>\<rparr> else st)"

definition standard_join_search ::
  "join_services \<Rightarrow> PlannerInfo \<Rightarrow> nat \<Rightarrow> rel_ptr list \<Rightarrow> join_state \<Rightarrow> (rel_ptr \<times> join_state) res" where
  "standard_join_search svc rt levels_needed rels st =
     (let st = set_finished False st in
      if join_rel_level st \<noteq> None then Inl AssertFail
      else if levels_needed < 1 then Inl BadAccess
      else res_bind
        (search_levels svc rt [2..<Suc levels_needed]
           (st\<lparr>join_rel_level := Some ((replicate (levels_needed + 1) [])[1 := rels])\<rparr>)) (\<lambda>st.
        case level_rels st levels_needed of
          [] \<Rightarrow> Inl (Elog ''failed to build any %d-way joins'')
        | [rel] \<Rightarrow> Inr (rel, set_finished True (st\<lparr>join_rel_level := None\<rparr>))
        | _ \<Rightarrow> Inl AssertFail))"

section \<open>The table finds a relation by its set of members\<close>

definition rset :: "join_state \<Rightarrow> rel_ptr \<Rightarrow> nat set" where
  "rset st p = bms_set (relids (the_rel st p))"

definition hash_holds :: "join_state \<Rightarrow> rel_ptr set \<Rightarrow> (Relids \<times> rel_ptr) list \<Rightarrow> bool" where
  "hash_holds st P tab \<longleftrightarrow> set tab = (\<lambda>p. (relids (the_rel st p), p)) ` P"

definition table_ok :: "join_state \<Rightarrow> bool" where
  "table_ok st \<longleftrightarrow>
     (\<forall>p\<in>set (join_rel_list st). p < length (rel_heap st) \<and> bms_wf (relids (the_rel st p))) \<and>
     distinct (map (rset st) (join_rel_list st)) \<and>
     (case join_rel_hash st of None \<Rightarrow> True | Some tab \<Rightarrow> hash_holds st (set (join_rel_list st)) tab)"

lemma find_unique:
  assumes "x \<in> set xs" "P x" "\<And>y. y \<in> set xs \<Longrightarrow> P y \<Longrightarrow> f y = f x"
  shows "map_option f (find P xs) = Some (f x)"
proof -
  obtain y where y: "find P xs = Some y" using assms(1,2) by (cases "find P xs") (auto simp: find_None_iff)
  then have "y \<in> set xs \<and> P y" by (auto simp: find_Some_iff)
  then show ?thesis using y assms(3) by simp
qed

lemma hash_find_Some:
  assumes "hash_holds st P tab" "\<forall>p\<in>P. bms_wf (relids (the_rel st p))" "inj_on (rset st) P" "bms_wf key"
    and "p \<in> P" "rset st p = bms_set key"
  shows "hash_find tab key = Some p"
proof -
  have mem: "(relids (the_rel st p), p) \<in> set tab" using assms(1,5) by (auto simp: hash_holds_def)
  have "snd e = p" if "e \<in> set tab" "bms_equal (fst e) key" for e
  proof -
    obtain q where q: "q \<in> P" "e = (relids (the_rel st q), q)"
      using assms(1) \<open>e \<in> set tab\<close> unfolding hash_holds_def by blast
    then have "rset st q = rset st p" using that(2) assms(2,4,6) by (simp add: bms_equal_refines rset_def)
    then show ?thesis using q assms(3,5) by (auto dest: inj_onD)
  qed
  then show ?thesis unfolding hash_find_def
    using find_unique [OF mem, of "\<lambda>e. bms_equal (fst e) key" snd] assms(2,4-6)
    by (auto simp: bms_equal_refines rset_def)
qed

lemma hash_find_None:
  assumes "hash_holds st P tab" "\<forall>p\<in>P. bms_wf (relids (the_rel st p))" "bms_wf key"
    and "\<forall>p\<in>P. rset st p \<noteq> bms_set key"
  shows "hash_find tab key = None"
proof -
  have "\<not> bms_equal (fst e) key" if "e \<in> set tab" for e
  proof -
    obtain q where "q \<in> P" "e = (relids (the_rel st q), q)"
      using assms(1) \<open>e \<in> set tab\<close> unfolding hash_holds_def by blast
    then show ?thesis using assms(2-4) by (simp add: bms_equal_refines rset_def)
  qed
  then show ?thesis by (auto simp: hash_find_def find_None_iff)
qed

lemma hash_enter_new:
  assumes "hash_holds st P tab" "\<forall>q\<in>P. bms_wf (relids (the_rel st q))" "bms_wf (relids (the_rel st p))"
    and "\<forall>q\<in>P. rset st q \<noteq> rset st p"
  shows "\<exists>tab'. hash_enter st p tab = Inr tab' \<and> hash_holds st (insert p P) tab'"
proof -
  have "hash_find tab (relids (the_rel st p)) = None"
    using hash_find_None [OF assms(1-3)] assms(4) by (simp add: rset_def)
  then show ?thesis using assms(1) by (simp add: hash_enter_def hash_holds_def)
qed

lemma hash_enter_all_ok:
  assumes "hash_holds st P tab" "\<forall>q\<in>P \<union> set ps. bms_wf (relids (the_rel st q))"
    and "distinct (map (rset st) ps)" "\<forall>q\<in>P. rset st q \<notin> rset st ` set ps"
  shows "\<exists>tab'. hash_enter_all st ps tab = Inr tab' \<and> hash_holds st (P \<union> set ps) tab'"
  using assms
proof (induction ps arbitrary: tab P)
  case (Cons p ps)
  obtain tab1 where t: "hash_enter st p tab = Inr tab1" "hash_holds st (insert p P) tab1"
    using hash_enter_new [OF Cons.prems(1), of p] Cons.prems(2,4) by auto
  show ?case using Cons.IH [OF t(2)] Cons.prems t(1) by auto
qed simp

lemma the_rel_update [simp]:
  "the_rel (st\<lparr>join_rel_hash := h\<rparr>) p = the_rel st p"
  "the_rel (st\<lparr>join_rel_list := l\<rparr>) p = the_rel st p"
  "the_rel (st\<lparr>join_rel_level := v\<rparr>) p = the_rel st p"
  "the_rel (st\<lparr>join_cur_level := c\<rparr>) p = the_rel st p"
  "the_rel (st\<lparr>jop := g\<rparr>) p = the_rel st p"
  by (simp_all add: the_rel_def)

lemma rset_update [simp]:
  "rset (st\<lparr>join_rel_hash := h\<rparr>) p = rset st p"
  "rset (st\<lparr>join_rel_list := l\<rparr>) p = rset st p"
  "rset (st\<lparr>join_rel_level := v\<rparr>) p = rset st p"
  "rset (st\<lparr>join_cur_level := c\<rparr>) p = rset st p"
  "rset (st\<lparr>jop := g\<rparr>) p = rset st p"
  by (simp_all add: rset_def)

lemma rset_fun_update [simp]:
  "rset (st\<lparr>join_rel_hash := h\<rparr>) = rset st" "rset (st\<lparr>join_rel_list := l\<rparr>) = rset st"
  "rset (st\<lparr>join_rel_level := v\<rparr>) = rset st" "rset (st\<lparr>join_cur_level := c\<rparr>) = rset st"
  "rset (st\<lparr>jop := g\<rparr>) = rset st"
  by (simp_all add: fun_eq_iff)

lemma hash_holds_update [simp]:
  "hash_holds (st\<lparr>join_rel_hash := h\<rparr>) P tab = hash_holds st P tab"
  "hash_holds (st\<lparr>join_rel_list := l\<rparr>) P tab = hash_holds st P tab"
  "hash_holds (st\<lparr>join_rel_level := v\<rparr>) P tab = hash_holds st P tab"
  "hash_holds (st\<lparr>join_cur_level := c\<rparr>) P tab = hash_holds st P tab"
  "hash_holds (st\<lparr>jop := g\<rparr>) P tab = hash_holds st P tab"
  by (simp_all add: hash_holds_def)

lemma table_ok_update [simp]:
  "table_ok (st\<lparr>join_rel_level := v\<rparr>) = table_ok st"
  "table_ok (st\<lparr>join_cur_level := c\<rparr>) = table_ok st"
  "table_ok (st\<lparr>jop := g\<rparr>) = table_ok st"
  by (simp_all add: table_ok_def split: option.split)

lemma build_hash_ok:
  assumes "table_ok st"
  shows "\<exists>h. build_join_rel_hash st = Inr (st\<lparr>join_rel_hash := Some h\<rparr>) \<and> table_ok (st\<lparr>join_rel_hash := Some h\<rparr>)"
proof -
  obtain h where "hash_enter_all st (join_rel_list st) [] = Inr h" "hash_holds st (set (join_rel_list st)) h"
    using hash_enter_all_ok [of st "{}" "[]" "join_rel_list st"] assms by (auto simp: table_ok_def hash_holds_def)
  then show ?thesis using assms by (auto simp: build_join_rel_hash_def table_ok_def)
qed

lemma find_by_set:
  assumes "table_ok st" "bms_wf key"
  shows "find (\<lambda>p. bms_equal (relids (the_rel st p)) key) (join_rel_list st) =
    find (\<lambda>p. rset st p = bms_set key) (join_rel_list st)"
  using assms by (intro find_cong) (auto simp: table_ok_def bms_equal_refines rset_def)

lemma hash_find_is_find:
  assumes "table_ok st" "join_rel_hash st = Some tab" "bms_wf key"
  shows "hash_find tab key = find (\<lambda>p. rset st p = bms_set key) (join_rel_list st)"
proof (cases "find (\<lambda>p. rset st p = bms_set key) (join_rel_list st)")
  case None
  then have "\<forall>p\<in>set (join_rel_list st). rset st p \<noteq> bms_set key" by (auto simp: find_None_iff)
  then have "hash_find tab key = None"
    using hash_find_None [of st "set (join_rel_list st)" tab key] assms by (simp add: table_ok_def)
  then show ?thesis using None by simp
next
  case (Some p)
  then have "p \<in> set (join_rel_list st)" "rset st p = bms_set key" by (auto simp: find_Some_iff)
  then show ?thesis using hash_find_Some [of st "set (join_rel_list st)" tab key p] assms Some
    by (auto simp: table_ok_def distinct_map)
qed

lemma find_join_rel_spec:
  assumes "table_ok st" "bms_wf key"
  shows "\<exists>h. find_join_rel st key =
      Inr (find (\<lambda>p. rset st p = bms_set key) (join_rel_list st), st\<lparr>join_rel_hash := h\<rparr>) \<and>
    table_ok (st\<lparr>join_rel_hash := h\<rparr>) \<and>
    (if length (join_rel_list st) > 32 then h \<noteq> None else h = join_rel_hash st)"
proof -
  have direct: "(case join_rel_hash st1 of
         Some hashtab \<Rightarrow> Inr (hash_find hashtab key, st1)
       | None \<Rightarrow> Inr (find (\<lambda>p. bms_equal (relids (the_rel st1 p)) key) (join_rel_list st1), st1)) =
      Inr (find (\<lambda>p. rset st1 p = bms_set key) (join_rel_list st1), st1)" if "table_ok st1" for st1
    using find_by_set [OF that assms(2)] hash_find_is_find [OF that _ assms(2)] by (simp split: option.splits)
  show ?thesis
  proof (cases "join_rel_hash st = None \<and> length (join_rel_list st) > 32")
    case True
    obtain h where h: "build_join_rel_hash st = Inr (st\<lparr>join_rel_hash := Some h\<rparr>)" "table_ok (st\<lparr>join_rel_hash := Some h\<rparr>)"
      using build_hash_ok [OF assms(1)] by blast
    then show ?thesis using direct [OF h(2)] True by (auto simp: find_join_rel_def)
  next
    case False
    then show ?thesis using direct [OF assms(1)] assms(1)
      by (intro exI [of _ "join_rel_hash st"]) (auto simp: find_join_rel_def)
  qed
qed

lemma add_join_rel_spec:
  assumes "table_ok st" "p < length (rel_heap st)" "bms_wf (relids (the_rel st p))"
    and "\<forall>q\<in>set (join_rel_list st). rset st q \<noteq> rset st p"
  shows "\<exists>h. add_join_rel st p = Inr (st\<lparr>join_rel_list := join_rel_list st @ [p], join_rel_hash := h\<rparr>) \<and>
    table_ok (st\<lparr>join_rel_list := join_rel_list st @ [p], join_rel_hash := h\<rparr>)"
proof (cases "join_rel_hash st")
  case None
  have "rset st p \<notin> rset st ` set (join_rel_list st)" using assms(4) by force
  then show ?thesis using None assms(1-3)
    by (intro exI [of _ None]) (simp add: add_join_rel_def table_ok_def ball_Un)
next
  case (Some tab)
  have holds: "hash_holds st (set (join_rel_list st)) tab" using assms(1) Some by (simp add: table_ok_def)
  obtain tab' where t: "hash_enter st p tab = Inr tab'" "hash_holds st (insert p (set (join_rel_list st))) tab'"
    using hash_enter_new [OF holds _ assms(3,4)] assms(1) by (auto simp: table_ok_def)
  have "hash_enter (st\<lparr>join_rel_list := l\<rparr>) p tab = hash_enter st p tab" for l by (simp add: hash_enter_def)
  moreover have "rset st p \<notin> rset st ` set (join_rel_list st)" using assms(4) by force
  ultimately show ?thesis using t Some assms(1-3)
    by (intro exI [of _ "Some tab'"]) (simp add: add_join_rel_def table_ok_def ball_Un)
qed

section \<open>Correctness\<close>

definition sample_search :: join_state where
  "sample_search =
     \<lparr>rel_heap = [sample_base 2 [sample_clause 0 6], sample_base 4 [sample_clause 0 6]], initial_rels = [0, 1],
      join_rel_list = [], join_rel_hash = None, join_rel_level = None, join_cur_level = 0, jop = jop_collecting\<rparr>"

lemma sample_search_rels [simp]:
  "the_rel sample_search 0 = sample_base 2 [sample_clause 0 6]"
  "the_rel sample_search (Suc 0) = sample_base 4 [sample_clause 0 6]"
  "rset sample_search 0 = {1}" "rset sample_search (Suc 0) = {2}"
  by (simp_all add: rset_def the_rel_def sample_search_def sample_base_def)

text \<open>C9. Looking up a join relation gives the first listed relation with the given set of members,
  whether the list or the hash table answers, builds the table when the list has become long, and
  keeps table and list in agreement.\<close>

theorem find_join_rel_correct:
  assumes "table_ok st" and "bms_wf key"
  shows "\<exists>h. find_join_rel st key =
      Inr (find (\<lambda>p. rset st p = bms_set key) (join_rel_list st), st\<lparr>join_rel_hash := h\<rparr>) \<and>
    table_ok (st\<lparr>join_rel_hash := h\<rparr>) \<and>
    (if length (join_rel_list st) > 32 then h \<noteq> None else h = join_rel_hash st)"
  by (rule find_join_rel_spec [OF assms])

theorem find_join_rel_correct_witness:
  "\<exists>st'. find_join_rel (sample_search\<lparr>join_rel_list := [0, 1], join_rel_hash := Some [(mk_bms [4], 1), (mk_bms [2], 0)]\<rparr>)
     (mk_bms [4]) = Inr (Some 1, st')"
proof -
  let ?st = "sample_search\<lparr>join_rel_list := [0, 1], join_rel_hash := Some [(mk_bms [4], 1), (mk_bms [2], 0)]\<rparr>"
  have h: "hash_holds sample_search {0, Suc 0} [(mk_bms [4], 1), (mk_bms [2], 0)]"
    by (auto simp: hash_holds_def sample_base_def)
  have "table_ok ?st" using h by (simp add: table_ok_def) (simp add: sample_search_def sample_base_def bms_wf_def mk_bms_def)
  moreover have "bms_wf (mk_bms [4])" by (simp add: bms_wf_def mk_bms_def)
  ultimately obtain h where "find_join_rel ?st (mk_bms [4]) =
      Inr (find (\<lambda>p. rset ?st p = bms_set (mk_bms [4])) (join_rel_list ?st), ?st\<lparr>join_rel_hash := h\<rparr>)"
    using find_join_rel_correct [of ?st "mk_bms [4]"] by blast
  then show ?thesis by simp
qed

end
