(* ===== verification/Joinsearch.thy ===== *)
theory Joinsearch
  imports Joinrels
begin

text \<open>
  Correctness of the dynamic-programming join search for queries without special joins and lateral
  references: the invariant of the levels, its preservation by one join, by one level and by the
  whole search, and the result.
\<close>

section \<open>What the path builders may rely on and must deliver\<close>

text \<open>
  A query without special joins and lateral references, and path builders that find a path for an
  inner join of two relations that have paths and never take the last path away.
\<close>

definition keeps_some_path :: "PlannerInfo \<Rightarrow> path_builder \<Rightarrow> bool" where
  "keeps_some_path rt b \<longleftrightarrow> (\<forall>r ou inn ex. pathlist r \<noteq> [] \<longrightarrow> fst (b rt r ou inn JOIN_INNER ex) \<noteq> [])"

definition pair_builders_ok :: "path_services \<Rightarrow> PlannerInfo \<Rightarrow> bool" where
  "pair_builders_ok b rt \<longleftrightarrow>
     (\<forall>r ou inn cl. snd (select_mergejoin_clauses b rt r ou inn cl JOIN_INNER)) \<and>
     (\<forall>r ou inn ex. pathlist ou \<noteq> [] \<longrightarrow> pathlist inn \<noteq> [] \<longrightarrow>
        fst (match_unsorted_outer b rt r ou inn JOIN_INNER ex) \<noteq> []) \<and>
     keeps_some_path rt (hash_inner_and_outer b) \<and>
     (\<forall>r f. GetForeignJoinPaths b r = Some f \<longrightarrow> keeps_some_path rt f) \<and>
     (\<forall>f. set_join_pathlist_hook b = Some f \<longrightarrow> keeps_some_path rt f)"

definition builds_paths :: "join_services \<Rightarrow> PlannerInfo \<Rightarrow> bool" where
  "builds_paths svc rt \<longleftrightarrow>
     pair_builders_ok (path_builders svc) rt \<and>
     (\<forall>r1 r2 r sj rl. pathlist r \<noteq> [] \<longrightarrow> fst (try_partitionwise_join svc rt r1 r2 r sj rl) \<noteq> []) \<and>
     (\<forall>r. pathlist r \<noteq> [] \<longrightarrow> fst (generate_partitionwise_join_paths svc rt r) \<noteq> []) \<and>
     (\<forall>r. pathlist r \<noteq> [] \<longrightarrow> fst (generate_useful_gather_paths svc rt r) \<noteq> [])"

definition plain_query :: "PlannerInfo \<Rightarrow> bool" where
  "plain_query rt \<longleftrightarrow> join_info_list rt = [] \<and> \<not> hasLateralRTEs rt"

definition baserels_known :: "jop_state \<Rightarrow> PlannerInfo \<Rightarrow> bool" where
  "baserels_known g rt \<longleftrightarrow> (enable_join_order_plans g \<longrightarrow> bms_wf (all_baserels rt) \<and> all_baserels rt \<noteq> None)"

text \<open>A node after its paths have been changed.\<close>

definition keeps :: "RelOptInfo \<Rightarrow> RelOptInfo \<Rightarrow> bool" where
  "keeps r r' \<longleftrightarrow> relids r' = relids r \<and> reloptkind r' = reloptkind r \<and> joininfo r' = joininfo r \<and>
     (pathlist r \<noteq> [] \<longrightarrow> pathlist r' \<noteq> [])"

lemma keeps_refl [simp]: "keeps r r"
  by (simp add: keeps_def)

lemma keeps_trans: "keeps r1 r2 \<Longrightarrow> keeps r2 r3 \<Longrightarrow> keeps r1 r3"
  by (simp add: keeps_def)

lemma keeps_other: "keeps r r' \<Longrightarrow> IS_OTHER_REL r' = IS_OTHER_REL r"
  by (simp add: keeps_def IS_OTHER_REL_def)

lemma keeps_join_relids: "keeps r r' \<Longrightarrow> \<not> IS_OTHER_REL r \<Longrightarrow> join_relids r' = relids r"
  by (auto simp: keeps_def IS_OTHER_REL_def join_relids_def)

lemma set_cheapest_keeps:
  assumes "pathlist r \<noteq> []"
  shows "\<exists>r'. set_cheapest r = Inr r' \<and> keeps r r' \<and> pathlist r' = pathlist r \<and>
    r' = r\<lparr>cheapest_startup_path := cheapest_startup_path r', cheapest_total_path := cheapest_total_path r',
      cheapest_unique_path := cheapest_unique_path r', cheapest_parameterized_paths := cheapest_parameterized_paths r'\<rparr>"
  using assms by (simp add: set_cheapest_def Let_def keeps_def)

lemma add_path_empty: "pathlist (add_path g (r\<lparr>pathlist := []\<rparr>) p) = [p]"
  by (simp add: add_path_def run_tournament_def)

lemma mark_dummy_rel_keeps: "\<exists>r'. mark_dummy_rel svc g r = Inr r' \<and> keeps r r' \<and> pathlist r' \<noteq> []"
proof (cases "is_dummy_rel svc r")
  case True
  then have "pathlist r \<noteq> []" by (auto simp: is_dummy_rel_def)
  then show ?thesis using True by (simp add: mark_dummy_rel_def)
next
  case False
  let ?r0 = "r\<lparr>rel_rows := 0, pathlist := [], partial_pathlist := []\<rparr>"
  let ?r1 = "add_path g ?r0 (create_dummy_append svc ?r0)"
  have "pathlist ?r1 \<noteq> []" by (simp add: add_path_def run_tournament_def)
  moreover have "relids ?r1 = relids r" "reloptkind ?r1 = reloptkind r" "joininfo ?r1 = joininfo r"
    by (simp_all add: add_path_def)
  ultimately show ?thesis using set_cheapest_keeps [of ?r1] False
    by (auto simp: mark_dummy_rel_def Let_def keeps_def)
qed

lemma mark_dummy_keeps:
  assumes "p < length (rel_heap st)"
  shows "\<exists>r. mark_dummy svc p st = Inr (set_rel st p r) \<and> keeps (the_rel st p) r \<and> pathlist r \<noteq> []"
  using mark_dummy_rel_keeps [of svc "jop st" "the_rel st p"] by (auto simp: mark_dummy_def)

lemma rootrel_candidate_total:
  assumes "baserels_known g rt" "bms_wf (relids r)" "relids r \<noteq> None" "\<not> IS_OTHER_REL r"
  shows "\<exists>b. rootrel_candidate g rt r = Inr b"
proof (cases "enable_join_order_plans g")
  case True
  obtain a b where ab: "all_baserels rt = Some a" "relids r = Some b" using assms True by (auto simp: baserels_known_def)
  then have w: "words a \<noteq> []" "words b \<noteq> []" using assms True bms_wf_words by (auto simp: baserels_known_def)
  show ?thesis using ab first_word_int_Some [OF w(1)] first_word_int_Some [OF w(2)] keeps_join_relids [OF keeps_refl assms(4)]
    by (auto simp: rootrel_candidate_def)
next
  case False
  then have "rootrel_candidate g rt r = Inr False" by (simp add: rootrel_candidate_def)
  then show ?thesis by blast
qed

lemma set_paths_pathlist [simp]: "pathlist (set_paths r pls) = fst pls"
  by (simp add: set_paths_def)

lemma build_pair_paths_some:
  assumes "pair_builders_ok b rt" "pair_jointype pr = JOIN_INNER"
    and "pathlist (pair_outer pr) \<noteq> []" "pathlist (pair_inner pr) \<noteq> []"
  shows "pathlist (build_pair_paths b rt pr r) \<noteq> []"
proof -
  note ok = assms(1) [unfolded pair_builders_ok_def]
  obtain ex where e: "join_extra b rt r pr = (ex, True)"
    using ok assms(2) by (simp add: join_extra_def Let_def case_prod_unfold)
  have step: "pathlist (if c then set_paths s (f rt s ou inn JOIN_INNER ex) else s) \<noteq> []"
    if "pathlist s \<noteq> []" "keeps_some_path rt f" for c s f ou inn
    using that by (simp add: keeps_some_path_def)
  have opt: "pathlist (case ob of Some f \<Rightarrow> if c then set_paths s (f rt s ou inn JOIN_INNER ex) else s | None \<Rightarrow> s) \<noteq> []"
    if "pathlist s \<noteq> []" "\<And>f. ob = Some f \<Longrightarrow> keeps_some_path rt f" for c s ob ou inn
    using that step by (cases ob) simp_all
  show ?thesis
    unfolding build_pair_paths_def Let_def e prod.case assms(2) if_True
    by (intro opt step) (use ok assms(3,4) in auto)
qed

lemma same_join_keeps:
  assumes "same_join r r'" "pathlist r' \<noteq> []"
  shows "keeps r r'"
proof -
  have "keeps r (set_paths r pls)" if "fst pls \<noteq> []" for pls using that by (simp add: keeps_def set_paths_def)
  then show ?thesis using assms unfolding same_join_def by (metis fst_conv)
qed

lemma add_join_paths_keeps:
  assumes "builds_paths svc rt" "baserels_known (jop st) rt"
    and "bms_wf (relids (the_rel st j))" "relids (the_rel st j) \<noteq> None" "\<not> IS_OTHER_REL (the_rel st j)"
    and "pathlist (the_rel st p1) \<noteq> []" "pathlist (the_rel st p2) \<noteq> []"
  shows "\<exists>r. add_join_paths svc rt j sj rl p1 p2 JOIN_INNER st = Inr (set_rel st j r) \<and>
    keeps (the_rel st j) r \<and> pathlist r \<noteq> []"
proof -
  obtain b where b: "rootrel_candidate (jop st) rt (the_rel st j) = Inr b"
    using rootrel_candidate_total [OF assms(2-5)] by blast
  let ?pr = "\<lparr>pair_outer = the_rel st p1, pair_inner = the_rel st p2, pair_jointype = JOIN_INNER, pair_sjinfo = sj,
    pair_restrictlist = rl\<rparr>"
  let ?r = "the_rel st j"
  define n where "n = build_pair_paths (path_builders svc) rt ?pr (if b then ?r\<lparr>pathlist := []\<rparr> else ?r)"
  let ?r' = "if enable_join_order_plans (jop st) \<and> b \<and> pathlist ?r \<noteq> []
    then n\<lparr>pathlist := pathlist ?r @ pathlist n\<rparr> else n"
  have ne: "pathlist n \<noteq> []"
    unfolding n_def by (rule build_pair_paths_some) (use assms(1,6,7) in \<open>simp_all add: builds_paths_def\<close>)
  have "same_join ?r (if b then ?r\<lparr>pathlist := []\<rparr> else ?r)" by simp
  then have "same_join ?r n" unfolding n_def using build_pair_paths_same same_join_trans by blast
  then have "same_join ?r ?r'" using same_join_trans [of ?r n "n\<lparr>pathlist := pathlist ?r @ pathlist n\<rparr>"] by simp
  moreover have "pathlist ?r' \<noteq> []" using ne by simp
  moreover have "add_join_paths svc rt j sj rl p1 p2 JOIN_INNER st = Inr (set_rel st j ?r')"
    by (simp add: add_join_paths_def add_paths_to_joinrel_def b Let_def n_def)
  ultimately show ?thesis using same_join_keeps by blast
qed

lemma the_rel_set_rel: "p < length (rel_heap st) \<Longrightarrow> the_rel (set_rel st p r) q = (if q = p then r else the_rel st q)"
  by (simp add: the_rel_def set_rel_def)

lemma set_rel_simps [simp]:
  "set_rel (set_rel st p r) p r' = set_rel st p r'" "length (rel_heap (set_rel st p r)) = length (rel_heap st)"
  "jop (set_rel st p r) = jop st" "join_rel_list (set_rel st p r) = join_rel_list st"
  "join_rel_hash (set_rel st p r) = join_rel_hash st" "join_rel_level (set_rel st p r) = join_rel_level st"
  "join_cur_level (set_rel st p r) = join_cur_level st" "initial_rels (set_rel st p r) = initial_rels st"
  "level_rels (set_rel st p r) l = level_rels st l"
  by (simp_all add: set_rel_def level_rels_def)

lemma populate_inner:
  assumes "builds_paths svc rt" "baserels_known (jop st) rt" "jointype sj = JOIN_INNER"
    and "j < length (rel_heap st)" "bms_wf (relids (the_rel st j))" "relids (the_rel st j) \<noteq> None"
    and "\<not> IS_OTHER_REL (the_rel st j)"
    and "pathlist (the_rel st p1) \<noteq> []" "pathlist (the_rel st p2) \<noteq> []"
  shows "\<exists>r. populate_joinrel_with_paths svc rt p1 p2 j sj rl st = Inr (set_rel st j r) \<and>
    keeps (the_rel st j) r \<and> pathlist r \<noteq> []"
proof -
  let ?c = "is_dummy_rel svc (the_rel st p1) \<or> is_dummy_rel svc (the_rel st p2) \<or>
      restriction_is_constant_false rl (the_rel st j) False"
  let ?m = "if ?c then mark_dummy svc j st
      else res_bind (add_join_paths svc rt j sj rl p1 p2 JOIN_INNER st) (add_join_paths svc rt j sj rl p2 p1 JOIN_INNER)"
  have "\<exists>r. ?m = Inr (set_rel st j r) \<and> keeps (the_rel st j) r \<and> pathlist r \<noteq> []"
  proof (cases ?c)
    case True
    then show ?thesis using mark_dummy_keeps [OF assms(4)] by simp
  next
    case False
    obtain r1 where r1: "add_join_paths svc rt j sj rl p1 p2 JOIN_INNER st = Inr (set_rel st j r1)"
        "keeps (the_rel st j) r1" "pathlist r1 \<noteq> []"
      using add_join_paths_keeps [OF assms(1,2,5-9)] by blast
    let ?s = "set_rel st j r1"
    have j: "the_rel ?s j = r1" using assms(4) by (simp add: the_rel_set_rel)
    obtain r2 where "add_join_paths svc rt j sj rl p2 p1 JOIN_INNER ?s = Inr (set_rel ?s j r2)"
        "keeps r1 r2" "pathlist r2 \<noteq> []"
    proof -
      have "pathlist (the_rel ?s p) \<noteq> []" if "pathlist (the_rel st p) \<noteq> []" for p
        using that r1(3) assms(4) by (simp add: the_rel_set_rel)
      moreover have "relids r1 = relids (the_rel st j)" using r1(2) by (simp add: keeps_def)
      ultimately show ?thesis
        using add_join_paths_keeps [of svc rt ?s j p2 p1 sj rl] assms(1,2,5-9) keeps_other [OF r1(2)] that
        unfolding j by auto
    qed
    then show ?thesis using False r1(1) keeps_trans [OF r1(2)] by auto
  qed
  then obtain r where r: "?m = Inr (set_rel st j r)" "keeps (the_rel st j) r" "pathlist r \<noteq> []" by blast
  let ?s = "set_rel st j r"
  let ?r = "set_paths r (try_partitionwise_join svc rt (the_rel ?s p1) (the_rel ?s p2) r sj rl)"
  have eq: "populate_joinrel_with_paths svc rt p1 p2 j sj rl st = res_bind ?m (\<lambda>st. let r = the_rel st j in
           Inr (set_rel st j (set_paths r
             (try_partitionwise_join svc rt (the_rel st p1) (the_rel st p2) r sj rl))))"
    unfolding populate_joinrel_with_paths_def Let_def by (simp add: assms(3))
  have "populate_joinrel_with_paths svc rt p1 p2 j sj rl st = Inr (set_rel st j ?r)"
    unfolding eq r(1) using assms(4) by (simp add: Let_def the_rel_set_rel)
  moreover have "pathlist ?r \<noteq> []" using assms(1) r(3) by (auto simp: builds_paths_def set_paths_def)
  moreover have "keeps (the_rel st j) ?r" using r(2) \<open>pathlist ?r \<noteq> []\<close> by (simp add: keeps_def set_paths_def)
  ultimately show ?thesis by blast
qed

section \<open>The invariant of the search\<close>

definition node_ok :: "RestrictInfo set \<Rightarrow> RelOptInfo \<Rightarrow> bool" where
  "node_ok cl r \<longleftrightarrow> bms_wf (relids r) \<and> relids r \<noteq> None \<and> \<not> IS_OTHER_REL r \<and>
     set (joininfo r) = join_clauses_of cl (bms_set (relids r))"

text \<open>A relation that joins \<open>l\<close> of the initial relations \<open>rels\<close>.\<close>

definition covers :: "join_state \<Rightarrow> rel_ptr list \<Rightarrow> nat \<Rightarrow> nat set \<Rightarrow> bool" where
  "covers st rels l A \<longleftrightarrow> (\<exists>S\<subseteq>set rels. card S = l \<and> A = (\<Union>q\<in>S. rset st q))"

definition search_inv :: "RestrictInfo set \<Rightarrow> rel_ptr list \<Rightarrow> rel_ptr set \<Rightarrow> join_state \<Rightarrow> bool" where
  "search_inv cl rels X st \<longleftrightarrow>
     table_ok st \<and>
     (\<exists>levels. join_rel_level st = Some levels \<and> length levels = Suc (length rels)) \<and>
     level_rels st 1 = rels \<and>
     (\<forall>l\<in>{1..length rels}. distinct (level_rels st l) \<and>
        (\<forall>p\<in>set (level_rels st l). p < length (rel_heap st) \<and> node_ok cl (the_rel st p) \<and>
           covers st rels l (rset st p) \<and> (p \<notin> X \<longrightarrow> pathlist (the_rel st p) \<noteq> []))) \<and>
     (\<forall>l\<in>{2..length rels}. set (level_rels st l) \<subseteq> set (join_rel_list st)) \<and>
     (\<forall>p\<in>set (join_rel_list st). \<forall>l\<ge>2. covers st rels l (rset st p) \<longrightarrow> p \<in> set (level_rels st l)) \<and>
     (\<forall>p\<in>set rels. \<forall>q\<in>set rels. p \<noteq> q \<longrightarrow> rset st p \<inter> rset st q = {})"

text \<open>What a step of the search leaves alone.\<close>

definition step_ok :: "join_state \<Rightarrow> join_state \<Rightarrow> bool" where
  "step_ok st st' \<longleftrightarrow>
     length (rel_heap st) \<le> length (rel_heap st') \<and>
     (\<forall>p<length (rel_heap st). keeps (the_rel st p) (the_rel st' p)) \<and>
     jop st' = jop st \<and> initial_rels st' = initial_rels st \<and> join_cur_level st' = join_cur_level st \<and>
     (\<forall>l. l \<noteq> join_cur_level st \<longrightarrow> level_rels st' l = level_rels st l) \<and>
     set (level_rels st (join_cur_level st)) \<subseteq> set (level_rels st' (join_cur_level st))"

lemma step_ok_refl [simp]: "step_ok st st"
  by (simp add: step_ok_def)

lemma step_ok_trans:
  assumes "step_ok st1 st2" "step_ok st2 st3"
  shows "step_ok st1 st3"
proof -
  have "keeps (the_rel st1 p) (the_rel st3 p)" if "p < length (rel_heap st1)" for p
  proof -
    have "keeps (the_rel st1 p) (the_rel st2 p)" "p < length (rel_heap st2)"
      using assms(1) that unfolding step_ok_def by (blast, linarith)
    then show ?thesis using assms(2) keeps_trans unfolding step_ok_def by blast
  qed
  then show ?thesis using assms unfolding step_ok_def by (metis order_trans)
qed

lemma node_ok_keeps: "keeps r r' \<Longrightarrow> node_ok cl r \<Longrightarrow> node_ok cl r'"
  using keeps_other [of r r'] by (simp add: node_ok_def keeps_def)

lemma inv_level:
  assumes "search_inv cl rels X st" "p \<in> set (level_rels st l)" "1 \<le> l" "l \<le> length rels"
  shows "p < length (rel_heap st)" "node_ok cl (the_rel st p)" "covers st rels l (rset st p)"
    "p \<notin> X \<Longrightarrow> pathlist (the_rel st p) \<noteq> []"
proof -
  have "l \<in> {1..length rels}" using assms(3,4) by simp
  then show "p < length (rel_heap st)" "node_ok cl (the_rel st p)" "covers st rels l (rset st p)"
    "p \<notin> X \<Longrightarrow> pathlist (the_rel st p) \<noteq> []"
    using assms(1,2) unfolding search_inv_def by blast+
qed

lemma node_rset: "node_ok cl (the_rel st p) \<Longrightarrow> rset st p \<noteq> {}"
  by (simp add: node_ok_def rset_def bms_wf_None_iff)

lemma finite_rset: "finite (rset st p)"
  by (simp add: rset_def)

lemma inv_initial:
  assumes "search_inv cl rels X st" "p \<in> set rels"
  shows "p < length (rel_heap st)" "rset st p \<noteq> {}"
proof -
  have "level_rels st 1 = rels" using assms(1) unfolding search_inv_def by blast
  moreover have "1 \<le> length rels" using assms(2) by (cases rels) auto
  ultimately show "p < length (rel_heap st)" "rset st p \<noteq> {}"
    using inv_level [OF assms(1), of p 1] node_rset assms(2) by auto
qed

lemma inv_disjoint:
  assumes "search_inv cl rels X st" "p \<in> set rels" "q \<in> set rels" "p \<noteq> q"
  shows "rset st p \<inter> rset st q = {}"
  using assms unfolding search_inv_def by blast

lemma covers_union:
  assumes "search_inv cl rels X st" "covers st rels k A" "covers st rels m B" "A \<inter> B = {}"
  shows "covers st rels (k + m) (A \<union> B)"
proof -
  obtain S T where S: "S \<subseteq> set rels" "card S = k" "A = (\<Union>q\<in>S. rset st q)"
    and T: "T \<subseteq> set rels" "card T = m" "B = (\<Union>q\<in>T. rset st q)"
    using assms(2,3) unfolding covers_def by blast
  have "S \<inter> T = {}"
  proof (rule ccontr)
    assume "S \<inter> T \<noteq> {}"
    then obtain q where q: "q \<in> S" "q \<in> T" by blast
    then have "rset st q \<noteq> {}" using inv_initial [OF assms(1)] S(1) by blast
    then show False using q S(3) T(3) assms(4) by blast
  qed
  moreover have "finite S" "finite T" using S(1) T(1) finite_subset by auto
  ultimately have "card (S \<union> T) = k + m" using S(2) T(2) by (simp add: card_Un_disjoint)
  then show ?thesis unfolding covers_def using S T by (intro exI [of _ "S \<union> T"]) auto
qed

lemma covers_card:
  assumes "search_inv cl rels X st" "covers st rels l A"
  shows "l \<le> card A" "finite A"
proof -
  obtain S where S: "S \<subseteq> set rels" "card S = l" "A = (\<Union>q\<in>S. rset st q)"
    using assms(2) unfolding covers_def by blast
  have fin: "finite S" using S(1) finite_subset by auto
  have disj: "\<forall>i\<in>S. \<forall>j\<in>S. i \<noteq> j \<longrightarrow> rset st i \<inter> rset st j = {}"
    using inv_disjoint [OF assms(1)] S(1) by auto
  have "card A = (\<Sum>q\<in>S. card (rset st q))"
    unfolding S(3) using card_UN_disjoint [OF fin _ disj] finite_rset by blast
  moreover have "(\<Sum>q\<in>S. 1) \<le> (\<Sum>q\<in>S. card (rset st q))"
  proof (rule sum_mono)
    fix q assume "q \<in> S"
    then have "rset st q \<noteq> {}" using inv_initial [OF assms(1)] S(1) by blast
    then show "1 \<le> card (rset st q)" using finite_rset by (simp add: Suc_le_eq card_gt_0_iff)
  qed
  ultimately show "l \<le> card A" using S(2) by simp
  show "finite A" unfolding S(3) using fin finite_rset by blast
qed

text \<open>Changing the paths of nodes keeps the invariant.\<close>

lemma inv_keeps:
  assumes inv: "search_inv cl rels X st"
    and k: "\<And>p. p < length (rel_heap st) \<Longrightarrow> keeps (the_rel st p) (the_rel st' p)"
    and same: "length (rel_heap st') = length (rel_heap st)" "join_rel_list st' = join_rel_list st"
      "join_rel_hash st' = join_rel_hash st" "join_rel_level st' = join_rel_level st"
    and paths: "\<And>p. p < length (rel_heap st) \<Longrightarrow> p \<in> X \<Longrightarrow> p \<notin> Y \<Longrightarrow> pathlist (the_rel st' p) \<noteq> []"
  shows "search_inv cl rels Y st'"
proof -
  have rel: "relids (the_rel st' p) = relids (the_rel st p)" if "p < length (rel_heap st)" for p
    using k [OF that] by (simp add: keeps_def)
  then have rs: "rset st' p = rset st p" if "p < length (rel_heap st)" for p
    using that by (simp add: rset_def)
  have lv: "level_rels st' l = level_rels st l" for l by (simp add: level_rels_def same)
  have list: "p < length (rel_heap st)" if "p \<in> set (join_rel_list st)" for p
    using inv that unfolding search_inv_def table_ok_def by blast
  have cov: "covers st' rels l A = covers st rels l A" for l A
  proof -
    have "(\<Union>q\<in>S. rset st' q) = (\<Union>q\<in>S. rset st q)" if "S \<subseteq> set rels" for S
      using rs inv_initial(1) [OF inv] that by (intro SUP_cong) auto
    then show ?thesis unfolding covers_def by metis
  qed
  have "table_ok st'"
  proof -
    have m: "map (rset st') (join_rel_list st) = map (rset st) (join_rel_list st)" using rs list by simp
    have h: "hash_holds st' (set (join_rel_list st)) tab = hash_holds st (set (join_rel_list st)) tab" for tab
      using rel list by (simp add: hash_holds_def cong: image_cong)
    have "table_ok st" using inv unfolding search_inv_def by blast
    then show ?thesis using rel list unfolding table_ok_def same m h by simp
  qed
  moreover have "p < length (rel_heap st') \<and> node_ok cl (the_rel st' p) \<and> covers st' rels l (rset st' p) \<and>
      (p \<notin> Y \<longrightarrow> pathlist (the_rel st' p) \<noteq> [])" if "p \<in> set (level_rels st l)" "l \<in> {1..length rels}" for p l
  proof -
    have l: "1 \<le> l" "l \<le> length rels" using that(2) by simp_all
    note i = inv_level [OF inv that(1) l]
    have "pathlist (the_rel st p) \<noteq> [] \<longrightarrow> pathlist (the_rel st' p) \<noteq> []" using k [OF i(1)] by (simp add: keeps_def)
    then show ?thesis using i node_ok_keeps [OF k [OF i(1)]] paths [OF i(1)] by (auto simp: same cov rs)
  qed
  moreover have "rset st' p \<inter> rset st' q = {}" if "p \<in> set rels" "q \<in> set rels" "p \<noteq> q" for p q
    using that inv rs inv_initial(1) [OF inv] unfolding search_inv_def by metis
  ultimately show ?thesis using inv rs list unfolding search_inv_def lv same cov by simp
qed

lemma covers_unique:
  assumes "search_inv cl rels X st" "covers st rels l A" "covers st rels m A"
  shows "l = m"
proof -
  obtain S T where S: "S \<subseteq> set rels" "card S = l" "A = (\<Union>q\<in>S. rset st q)"
    and T: "T \<subseteq> set rels" "card T = m" "A = (\<Union>q\<in>T. rset st q)"
    using assms(2,3) unfolding covers_def by blast
  note disj = inv_disjoint [OF assms(1)]
  have sub: "U \<subseteq> V" if UV: "U \<subseteq> set rels" "V \<subseteq> set rels" "(\<Union>q\<in>U. rset st q) = (\<Union>q\<in>V. rset st q)" for U V
  proof
    fix q assume q: "q \<in> U"
    then obtain x where x: "x \<in> rset st q" using inv_initial [OF assms(1)] UV(1) by blast
    then obtain q' where "q' \<in> V" "x \<in> rset st q'" using UV(3) q by blast
    then show "q \<in> V" using disj [of q q'] x q UV(1,2) by blast
  qed
  have "S = T" using sub [OF S(1) T(1)] sub [OF T(1) S(1)] S(3) T(3) by blast
  then show ?thesis using S(2) T(2) by simp
qed

text \<open>Adding a new join relation of the current level.\<close>

lemma inv_append:
  assumes inv: "search_inv cl rels X st" and l: "join_cur_level st = l" "2 \<le> l" "l \<le> length rels"
    and lev: "join_rel_level st = Some levels" and r: "node_ok cl r" "covers st rels l (bms_set (relids r))"
    and fresh: "\<forall>q\<in>set (join_rel_list st). rset st q \<noteq> bms_set (relids r)" and j: "j = length (rel_heap st)"
  shows "\<exists>h. let st1 = st\<lparr>rel_heap := rel_heap st @ [r]\<rparr>;
      st2 = st1\<lparr>join_rel_list := join_rel_list st @ [j], join_rel_hash := h\<rparr>;
      st3 = st2\<lparr>join_rel_level := Some (levels[l := levels ! l @ [j]])\<rparr>
    in add_join_rel st1 j = Inr st2 \<and> search_inv cl rels (insert j X) st3 \<and> step_ok st st3 \<and>
       j \<in> set (level_rels st3 l) \<and> l < length levels"
proof -
  let ?st1 = "st\<lparr>rel_heap := rel_heap st @ [r]\<rparr>"
  have old: "the_rel ?st1 p = the_rel st p" if "p < length (rel_heap st)" for p
    using that by (simp add: the_rel_def nth_append)
  have new: "the_rel ?st1 j = r" by (simp add: the_rel_def j)
  have table: "table_ok st" using inv unfolding search_inv_def by blast
  then have list: "p < length (rel_heap st)" if "p \<in> set (join_rel_list st)" for p
    using that unfolding table_ok_def by blast
  have rs: "rset ?st1 p = rset st p" if "p < length (rel_heap st)" for p
    using old [OF that] by (simp add: rset_def)
  have len: "length levels = Suc (length rels)" using inv lev unfolding search_inv_def by auto
  have m: "map (rset ?st1) (join_rel_list st) = map (rset st) (join_rel_list st)" using rs list by simp
  have h: "hash_holds ?st1 (set (join_rel_list st)) tab = hash_holds st (set (join_rel_list st)) tab" for tab
    using old list by (simp add: hash_holds_def cong: image_cong)
  have s: "join_rel_list ?st1 = join_rel_list st" "join_rel_hash ?st1 = join_rel_hash st" by simp_all
  have "table_ok ?st1"
    using table list old unfolding table_ok_def s m h by (simp add: less_Suc_eq)
  moreover have "\<forall>q\<in>set (join_rel_list ?st1). rset ?st1 q \<noteq> rset ?st1 j"
    using fresh list rs new by (simp add: rset_def)
  moreover have "j < length (rel_heap ?st1)" "bms_wf (relids (the_rel ?st1 j))"
    using r(1) by (simp_all add: j node_ok_def) (simp add: the_rel_def)
  ultimately obtain hh where hh: "add_join_rel ?st1 j = Inr (?st1\<lparr>join_rel_list := join_rel_list st @ [j], join_rel_hash := hh\<rparr>)"
      "table_ok (?st1\<lparr>join_rel_list := join_rel_list st @ [j], join_rel_hash := hh\<rparr>)"
    using add_join_rel_spec [of ?st1 j] by auto
  let ?st3 = "?st1\<lparr>join_rel_list := join_rel_list st @ [j], join_rel_hash := hh,
      join_rel_level := Some (levels[l := levels ! l @ [j]])\<rparr>"
  have rel3: "the_rel ?st3 p = the_rel ?st1 p" for p by (simp add: the_rel_def)
  then have rs3: "rset ?st3 p = rset ?st1 p" for p by (simp add: rset_def)
  have lv: "level_rels ?st3 k = (if k = l then level_rels st l @ [j] else level_rels st k)" if "k \<le> length rels" for k
    using l(3) len lev that by (simp add: level_rels_def nth_list_update)
  have cov: "covers ?st3 rels k A = covers st rels k A" for k A
  proof -
    have "(\<Union>q\<in>S. rset ?st3 q) = (\<Union>q\<in>S. rset st q)" if "S \<subseteq> set rels" for S
      using rs inv_initial(1) [OF inv] that by (intro SUP_cong) (auto simp: rs3)
    then show ?thesis unfolding covers_def by metis
  qed
  have rsj: "rset ?st3 j = bms_set (relids r)" by (simp add: rs3 rset_def new)
  have lt: "p < length (rel_heap st)" if "p \<in> set (level_rels st k)" "k \<in> {1..length rels}" for p k
    using inv_level(1) [OF inv that(1)] that(2) by simp
  have table3: "table_ok ?st3" using hh(2) by simp
  have levels3: "distinct (level_rels ?st3 k) \<and> (\<forall>p\<in>set (level_rels ?st3 k). p < length (rel_heap ?st3) \<and>
      node_ok cl (the_rel ?st3 p) \<and> covers ?st3 rels k (rset ?st3 p) \<and>
      (p \<notin> insert j X \<longrightarrow> pathlist (the_rel ?st3 p) \<noteq> []))" if k: "k \<in> {1..length rels}" for k
  proof -
    have old3: "p < length (rel_heap ?st3) \<and> node_ok cl (the_rel ?st3 p) \<and> covers ?st3 rels k (rset ?st3 p) \<and>
        (p \<notin> insert j X \<longrightarrow> pathlist (the_rel ?st3 p) \<noteq> [])" if p: "p \<in> set (level_rels st k)" for p
    proof -
      have "1 \<le> k" "k \<le> length rels" using k by simp_all
      from inv_level [OF inv p this] show ?thesis using old [OF lt [OF p k]] rs [OF lt [OF p k]] by (simp add: rel3 rs3 cov)
    qed
    have d: "distinct (level_rels st k)" using inv k unfolding search_inv_def by blast
    have jn: "j \<notin> set (level_rels st k)" using lt [OF _ k] j by blast
    have "j < length (rel_heap ?st3) \<and> node_ok cl (the_rel ?st3 j) \<and> covers ?st3 rels l (rset ?st3 j)"
      unfolding rel3 rsj cov new using r by (simp add: j)
    then show ?thesis using old3 d jn lv [of k] k by auto
  qed
  have sub3: "set (level_rels ?st3 k) \<subseteq> set (join_rel_list ?st3)" if k: "k \<in> {2..length rels}" for k
  proof -
    have "set (level_rels st k) \<subseteq> set (join_rel_list st)" using inv k unfolding search_inv_def by blast
    then show ?thesis using lv [of k] k by auto
  qed
  have in3: "p \<in> set (level_rels ?st3 k)" if p: "p \<in> set (join_rel_list ?st3)" "2 \<le> k" "covers ?st3 rels k (rset ?st3 p)" for p k
  proof -
    have kn: "k \<le> length rels"
      using p(3) unfolding covers_def by (metis List.finite_set card_mono card_length le_trans)
    show ?thesis
    proof (cases "p = j")
      case True
      have "covers st rels k (bms_set (relids r))" using p(3) unfolding True rsj cov .
      then have "k = l" using covers_unique [OF inv r(2)] by blast
      then show ?thesis using lv [OF kn] True by simp
    next
      case False
      then have pl: "p \<in> set (join_rel_list st)" using p(1) by simp
      then have "covers st rels k (rset st p)" using p(3) rs [OF list] by (simp add: cov rs3)
      then have "p \<in> set (level_rels st k)" using inv pl p(2) unfolding search_inv_def by blast
      then show ?thesis using lv [OF kn] by auto
    qed
  qed
  have disj3: "rset ?st3 p \<inter> rset ?st3 q = {}" if "p \<in> set rels" "q \<in> set rels" "p \<noteq> q" for p q
  proof -
    have "rset st p \<inter> rset st q = {}" by (rule inv_disjoint [OF inv that])
    then show ?thesis using rs inv_initial(1) [OF inv] that by (simp add: rs3)
  qed
  have "level_rels ?st3 1 = rels" using inv lv [of 1] l unfolding search_inv_def by simp
  then have "search_inv cl rels (insert j X) ?st3"
    unfolding search_inv_def using table3 levels3 sub3 in3 disj3 len by simp
  moreover have "step_ok st ?st3"
    using old l(1,3) lev len by (auto simp: step_ok_def rel3 level_rels_def)
  ultimately show ?thesis using hh(1) lv [OF l(3)] l(3) len
    by (intro exI [of _ hh]) (simp add: Let_def)
qed

section \<open>One join of the search\<close>

text \<open>The part of a new node that the search relies on.\<close>

lemma new_join_rel_simps [simp]:
  "relids (new_join_rel rt a r1 r2) = a" "reloptkind (new_join_rel rt a r1 r2) = RELOPT_JOINREL"
  "pathlist (new_join_rel rt a r1 r2) = []"
  by (simp_all add: new_join_rel_def)

definition plain_clauses :: "RestrictInfo set \<Rightarrow> bool" where
  "plain_clauses cl \<longleftrightarrow> clauses_ok cl \<and> (\<forall>c\<in>cl. \<not> has_clone c \<and> \<not> is_clone c)"

lemma node_clauses: "node_ok cl r \<Longrightarrow> set (joininfo r) \<subseteq> cl"
  by (auto simp: node_ok_def join_clauses_of_def)

lemma inv_hash: "search_inv cl rels X st \<Longrightarrow> table_ok (st\<lparr>join_rel_hash := h\<rparr>) \<Longrightarrow>
  search_inv cl rels X (st\<lparr>join_rel_hash := h\<rparr>)"
  by (simp add: search_inv_def level_rels_def covers_def)

lemma step_ok_hash [simp]: "step_ok st (st\<lparr>join_rel_hash := h\<rparr>)"
  by (simp add: step_ok_def level_rels_def)

lemma inv_weaken: "search_inv cl rels X st \<Longrightarrow> X \<subseteq> Y \<Longrightarrow> search_inv cl rels Y st"
  unfolding search_inv_def by blast

text \<open>
  \<^verbatim>\<open>build_join_rel\<close> on two nodes of a plain query: it finds a listed relation, or makes a node with the
  right members and clauses, lists it, and puts it into the current level, if there are levels.
\<close>

lemma union_relids:
  assumes "node_ok cl (the_rel st p1)" "node_ok cl (the_rel st p2)"
  shows "bms_wf (bms_union (relids (the_rel st p1)) (relids (the_rel st p2)))"
    "bms_union (relids (the_rel st p1)) (relids (the_rel st p2)) \<noteq> None"
    "bms_set (bms_union (relids (the_rel st p1)) (relids (the_rel st p2))) = rset st p1 \<union> rset st p2"
proof -
  let ?jr = "bms_union (relids (the_rel st p1)) (relids (the_rel st p2))"
  show wf: "bms_wf ?jr" using assms by (auto simp: node_ok_def intro: inv_intros)
  show eq: "bms_set ?jr = rset st p1 \<union> rset st p2" by (simp add: rset_def refine_simps)
  then show "?jr \<noteq> None" using node_rset [OF assms(1)] wf by (auto simp: bms_wf_None_iff [symmetric])
qed

lemma build_join_rel_cases:
  assumes cl: "plain_clauses cl" and table: "table_ok st"
    and p: "node_ok cl (the_rel st p1)" "node_ok cl (the_rel st p2)"
    and jr: "bms_wf jr" "jr \<noteq> None" "bms_set jr = rset st p1 \<union> rset st p2"
  shows "\<exists>h rl. table_ok (st\<lparr>join_rel_hash := h\<rparr>) \<and>
    ((\<exists>j. j \<in> set (join_rel_list st) \<and> rset st j = bms_set jr \<and>
        build_join_rel svc rt st jr p1 p2 sj = Inr ((j, rl), st\<lparr>join_rel_hash := h\<rparr>)) \<or>
     ((\<forall>q\<in>set (join_rel_list st). rset st q \<noteq> bms_set jr) \<and>
      (\<exists>r. node_ok cl r \<and> relids r = jr \<and> build_join_rel svc rt st jr p1 p2 sj =
        res_bind (add_join_rel (st\<lparr>join_rel_hash := h, rel_heap := rel_heap st @ [r]\<rparr>) (length (rel_heap st))) (\<lambda>st'.
          case join_rel_level st' of
            None \<Rightarrow> Inr ((length (rel_heap st), rl), st')
          | Some levels \<Rightarrow>
              let l = join_cur_level st' in
              if \<not> (0 < l \<and> l \<le> bms_num_members jr) then Inl AssertFail
              else if l \<ge> length levels then Inl BadAccess
              else Inr ((length (rel_heap st), rl),
                st'\<lparr>join_rel_level := Some (levels[l := levels ! l @ [length (rel_heap st)]])\<rparr>)))))"
proof -
  let ?o = "the_rel st p1" and ?i = "the_rel st p2"
  have other: "\<not> IS_OTHER_REL ?o" "\<not> IS_OTHER_REL ?i" using p by (simp_all add: node_ok_def)
  have cls: "clauses_ok cl" "\<forall>c\<in>cl. \<not> has_clone c \<and> \<not> is_clone c" using cl by (simp_all add: plain_clauses_def)
  have rl: "\<exists>rl. build_joinrel_restrictlist svc rt r ?o ?i sj = Inr rl" if "bms_set (relids r) = bms_set jr" for r
    using restrictlist_of_union [OF cls, of r ?o ?i svc rt sj] node_clauses [OF p(1)] node_clauses [OF p(2)] that jr(3)
    by (auto simp: rset_def)
  obtain h where h: "find_join_rel st jr =
      Inr (find (\<lambda>p. rset st p = bms_set jr) (join_rel_list st), st\<lparr>join_rel_hash := h\<rparr>)" "table_ok (st\<lparr>join_rel_hash := h\<rparr>)"
    using find_join_rel_spec [OF table jr(1)] by blast
  show ?thesis
  proof (cases "find (\<lambda>p. rset st p = bms_set jr) (join_rel_list st)")
    case (Some j)
    then have j: "j \<in> set (join_rel_list st)" "rset st j = bms_set jr" by (auto simp: find_Some_iff)
    moreover obtain rlist where "build_joinrel_restrictlist svc rt (the_rel st j) ?o ?i sj = Inr rlist"
      using rl [of "the_rel st j"] j(2) by (auto simp: rset_def)
    then have "build_join_rel svc rt st jr p1 p2 sj = Inr ((j, rlist), st\<lparr>join_rel_hash := h\<rparr>)"
      using h(1) Some other by (simp add: build_join_rel_def Let_def)
    ultimately show ?thesis using h(2) by blast
  next
    case None
    have fresh: "\<forall>q\<in>set (join_rel_list st). rset st q \<noteq> bms_set jr" using None by (auto simp: find_None_iff)
    define r1 where "r1 = (new_join_rel rt jr ?o ?i)\<lparr>direct_lateral_relids :=
        bms_del_members (placeholder_lateral_relids svc rt (new_join_rel rt jr ?o ?i) ?o ?i sj) jr\<rparr>"
    have r1: "relids r1 = jr" "reloptkind r1 = RELOPT_JOINREL" by (simp_all add: r1_def)
    obtain rlist where rlist: "build_joinrel_restrictlist svc rt r1 ?o ?i sj = Inr rlist" using rl [of r1] r1(1) by auto
    obtain r2 where r2: "build_joinrel_joinlist r1 ?o ?i = Inr r2" "r2 = r1\<lparr>joininfo := joininfo r2\<rparr>"
        "set (joininfo r2) = join_clauses_of cl (bms_set jr)"
      using joinlist_of_inputs [OF cls(1) r1(2) joins_inputs_union, of ?o ?i] p r1(1) jr(3) by (auto simp: node_ok_def rset_def)
    define r3 where "r3 = r2\<lparr>has_eclass_joins := has_relevant_eclass_joinclause svc rt r2\<rparr>"
    define r4 where "r4 = r3\<lparr>rel_rows := joinrel_size_estimate svc rt r3 ?o ?i sj rlist\<rparr>"
    define r5 where "r5 = r4\<lparr>consider_parallel := (consider_parallel ?i \<and> consider_parallel ?o \<and> is_parallel_safe svc rt r4 rlist)\<rparr>"
    have core: "relids r2 = relids r1" "reloptkind r2 = reloptkind r1" by (subst r2(2), simp)+
    have r5: "relids r5 = jr" "reloptkind r5 = RELOPT_JOINREL" "joininfo r5 = joininfo r2"
      by (simp_all add: r5_def r4_def r3_def core r1)
    have node: "node_ok cl r5" using jr r2(3) r5 by (simp add: node_ok_def IS_OTHER_REL_def)
    have "build_join_rel svc rt st jr p1 p2 sj =
        res_bind (add_join_rel (st\<lparr>join_rel_hash := h, rel_heap := rel_heap st @ [r5]\<rparr>) (length (rel_heap st))) (\<lambda>st'.
          case join_rel_level st' of
            None \<Rightarrow> Inr ((length (rel_heap st), rlist), st')
          | Some levels \<Rightarrow>
              let l = join_cur_level st' in
              if \<not> (0 < l \<and> l \<le> bms_num_members jr) then Inl AssertFail
              else if l \<ge> length levels then Inl BadAccess
              else Inr ((length (rel_heap st), rlist),
                st'\<lparr>join_rel_level := Some (levels[l := levels ! l @ [length (rel_heap st)]])\<rparr>))"
      unfolding build_join_rel_def Let_def
      using other h(1) None rlist r2(1) r5(1)
      by (simp add: r1_def [symmetric] r3_def [symmetric] r4_def [symmetric] r5_def [symmetric] core r1(1) cong: option.case_cong if_cong)
    then show ?thesis using h(2) fresh node r5(1) by blast
  qed
qed

lemma build_join_rel_plain:
  assumes cl: "plain_clauses cl" and inv: "search_inv cl rels {} st"
    and l: "join_cur_level st = l" "2 \<le> l" "l \<le> length rels"
    and p: "node_ok cl (the_rel st p1)" "node_ok cl (the_rel st p2)"
    and jr: "bms_wf jr" "jr \<noteq> None" "bms_set jr = rset st p1 \<union> rset st p2" "covers st rels l (bms_set jr)"
  shows "\<exists>j rl st'. build_join_rel svc rt st jr p1 p2 sj = Inr ((j, rl), st') \<and> search_inv cl rels {j} st' \<and>
    step_ok st st' \<and> j \<in> set (level_rels st' l)"
proof -
  have table: "table_ok st" using inv unfolding search_inv_def by blast
  obtain h rl where h: "table_ok (st\<lparr>join_rel_hash := h\<rparr>)" and cases: "(\<exists>j. j \<in> set (join_rel_list st) \<and> rset st j = bms_set jr \<and>
        build_join_rel svc rt st jr p1 p2 sj = Inr ((j, rl), st\<lparr>join_rel_hash := h\<rparr>)) \<or>
     ((\<forall>q\<in>set (join_rel_list st). rset st q \<noteq> bms_set jr) \<and>
      (\<exists>r. node_ok cl r \<and> relids r = jr \<and> build_join_rel svc rt st jr p1 p2 sj =
        res_bind (add_join_rel (st\<lparr>join_rel_hash := h, rel_heap := rel_heap st @ [r]\<rparr>) (length (rel_heap st))) (\<lambda>st'.
          case join_rel_level st' of
            None \<Rightarrow> Inr ((length (rel_heap st), rl), st')
          | Some levels \<Rightarrow>
              let l = join_cur_level st' in
              if \<not> (0 < l \<and> l \<le> bms_num_members jr) then Inl AssertFail
              else if l \<ge> length levels then Inl BadAccess
              else Inr ((length (rel_heap st), rl),
                st'\<lparr>join_rel_level := Some (levels[l := levels ! l @ [length (rel_heap st)]])\<rparr>))))"
    using build_join_rel_cases [OF cl table p jr(1-3), of svc rt sj] by blast
  let ?st = "st\<lparr>join_rel_hash := h\<rparr>" and ?j = "length (rel_heap st)"
  have inv': "search_inv cl rels {} ?st" by (rule inv_hash [OF inv h])
  from cases show ?thesis
  proof (elim disjE conjE exE)
    fix j assume j: "j \<in> set (join_rel_list st)" "rset st j = bms_set jr"
      and run: "build_join_rel svc rt st jr p1 p2 sj = Inr ((j, rl), ?st)"
    have "j \<in> set (level_rels st l)" using inv l(2) jr(4) j unfolding search_inv_def by metis
    then show ?thesis using run inv_weaken [OF inv', of "{j}"] by (auto simp: level_rels_def)
  next
    fix r assume fresh: "\<forall>q\<in>set (join_rel_list st). rset st q \<noteq> bms_set jr" and r: "node_ok cl r" "relids r = jr"
      and run: "build_join_rel svc rt st jr p1 p2 sj =
        res_bind (add_join_rel (st\<lparr>join_rel_hash := h, rel_heap := rel_heap st @ [r]\<rparr>) ?j) (\<lambda>st'.
          case join_rel_level st' of
            None \<Rightarrow> Inr ((?j, rl), st')
          | Some levels \<Rightarrow>
              let l = join_cur_level st' in
              if \<not> (0 < l \<and> l \<le> bms_num_members jr) then Inl AssertFail
              else if l \<ge> length levels then Inl BadAccess
              else Inr ((?j, rl), st'\<lparr>join_rel_level := Some (levels[l := levels ! l @ [?j]])\<rparr>))"
    obtain levels where lev: "join_rel_level st = Some levels" using inv unfolding search_inv_def by blast
    have "covers ?st rels l (bms_set (relids r))" using jr(4) r(2) by (simp add: covers_def)
    moreover have "\<forall>q\<in>set (join_rel_list ?st). rset ?st q \<noteq> bms_set (relids r)" using fresh r(2) by simp
    ultimately obtain h2 where h2: "let st1 = ?st\<lparr>rel_heap := rel_heap st @ [r]\<rparr>;
        st2 = st1\<lparr>join_rel_list := join_rel_list st @ [?j], join_rel_hash := h2\<rparr>;
        st3 = st2\<lparr>join_rel_level := Some (levels[l := levels ! l @ [?j]])\<rparr>
      in add_join_rel st1 ?j = Inr st2 \<and> search_inv cl rels {?j} st3 \<and> step_ok ?st st3 \<and>
         ?j \<in> set (level_rels st3 l) \<and> l < length levels"
      using inv_append [OF inv', of l levels r ?j] l lev r(1) by auto
    have "l \<le> bms_num_members jr" using covers_card(1) [OF inv jr(4)] by (simp add: bms_num_members_refines)
    then show ?thesis using run h2 l lev step_ok_trans [OF step_ok_hash] by (auto simp: Let_def)
  qed
qed

definition searching ::
  "RestrictInfo set \<Rightarrow> join_services \<Rightarrow> PlannerInfo \<Rightarrow> rel_ptr list \<Rightarrow> nat \<Rightarrow> join_state \<Rightarrow> bool" where
  "searching cl svc rt rels l st \<longleftrightarrow>
     plain_clauses cl \<and> plain_query rt \<and> builds_paths svc rt \<and> baserels_known (jop st) rt \<and>
     search_inv cl rels {} st \<and> join_cur_level st = l \<and> 2 \<le> l \<and> l \<le> length rels"

lemma searching_step: "searching cl svc rt rels l st \<Longrightarrow> search_inv cl rels {} st' \<Longrightarrow> step_ok st st' \<Longrightarrow>
  searching cl svc rt rels l st'"
  by (simp add: searching_def step_ok_def)

lemma searching_level:
  assumes "searching cl svc rt rels l st" "step_ok st st'" "k \<noteq> l"
  shows "level_rels st' k = level_rels st k"
  using assms by (simp add: searching_def step_ok_def)

lemma plain_legal:
  assumes "plain_query rt"
  shows "join_is_legal svc rt r1 r2 a = Some (None, False)"
  using assms by (simp add: plain_query_def join_is_legal_def)

lemma rset_overlap: "bms_overlap (relids (the_rel st p)) (relids (the_rel st q)) \<longleftrightarrow> rset st p \<inter> rset st q \<noteq> {}"
  by (simp add: bms_overlap_refines rset_def)

text \<open>
  Once the relation is there, \<^verbatim>\<open>make_join_rel\<close> for a plain query only changes its paths.
\<close>

lemma make_join_rel_paths:
  assumes q: "plain_query rt" "builds_paths svc rt" "baserels_known (jop st1) rt"
    and disj: "rset st p1 \<inter> rset st p2 = {}"
    and b: "build_join_rel svc rt st (bms_union (relids (the_rel st p1)) (relids (the_rel st p2))) p1 p2
      (inner_sjinfo (the_rel st p1) (the_rel st p2)) = Inr ((j, rl), st1)"
    and j: "j < length (rel_heap st1)" "node_ok cl (the_rel st1 j)"
    and p: "pathlist (the_rel st1 p1) \<noteq> []" "pathlist (the_rel st1 p2) \<noteq> []"
  shows "\<exists>r. make_join_rel svc rt p1 p2 st = Inr (Some j, set_rel st1 j r) \<and> keeps (the_rel st1 j) r \<and> pathlist r \<noteq> []"
proof -
  let ?sj = "inner_sjinfo (the_rel st p1) (the_rel st p2)"
  have eq: "make_join_rel svc rt p1 p2 st =
      (if is_dummy_rel svc (the_rel st1 j) then Inr (Some j, st1)
       else res_bind (populate_joinrel_with_paths svc rt p1 p2 j ?sj rl st1) (\<lambda>st. Inr (Some j, st)))"
    unfolding make_join_rel_def Let_def rset_overlap using disj b
    by (simp add: plain_legal [OF q(1)] add_outer_joins_to_relids_def)
  show ?thesis
  proof (cases "is_dummy_rel svc (the_rel st1 j)")
    case True
    have "set_rel st1 j (the_rel st1 j) = st1" by (simp add: set_rel_def the_rel_def)
    moreover have "pathlist (the_rel st1 j) \<noteq> []" using True by (auto simp: is_dummy_rel_def)
    ultimately show ?thesis using eq True by (intro exI [of _ "the_rel st1 j"]) simp
  next
    case False
    obtain r where "populate_joinrel_with_paths svc rt p1 p2 j ?sj rl st1 = Inr (set_rel st1 j r)"
        "keeps (the_rel st1 j) r" "pathlist r \<noteq> []"
      using populate_inner [OF q(2,3), of ?sj j p1 p2 rl] j p by (auto simp: inner_sjinfo_def node_ok_def)
    then show ?thesis using eq False by auto
  qed
qed

lemma make_join_rel_plain:
  assumes s: "searching cl svc rt rels l st" and p1: "p1 \<in> set (level_rels st k)" and p2: "p2 \<in> set (level_rels st m)"
    and k: "1 \<le> k" "1 \<le> m" "k + m = l" and disj: "rset st p1 \<inter> rset st p2 = {}"
  shows "\<exists>j st'. make_join_rel svc rt p1 p2 st = Inr (Some j, st') \<and> searching cl svc rt rels l st' \<and> step_ok st st' \<and>
    j \<in> set (level_rels st' l)"
proof -
  have inv: "search_inv cl rels {} st" and l: "join_cur_level st = l" "2 \<le> l" "l \<le> length rels"
    and q: "plain_clauses cl" "plain_query rt" "builds_paths svc rt" "baserels_known (jop st) rt"
    using s by (simp_all add: searching_def)
  have km: "k \<le> length rels" "m \<le> length rels" using k l by simp_all
  note i1 = inv_level [OF inv p1 k(1) km(1)] and i2 = inv_level [OF inv p2 k(2) km(2)]
  note jr = union_relids [OF i1(2) i2(2)]
  have cov: "covers st rels l (bms_set (bms_union (relids (the_rel st p1)) (relids (the_rel st p2))))"
    using covers_union [OF inv i1(3) i2(3) disj] k(3) by (simp add: jr(3))
  obtain j rl st1 where b: "build_join_rel svc rt st (bms_union (relids (the_rel st p1)) (relids (the_rel st p2))) p1 p2
        (inner_sjinfo (the_rel st p1) (the_rel st p2)) = Inr ((j, rl), st1)" "search_inv cl rels {j} st1"
      "step_ok st st1" "j \<in> set (level_rels st1 l)"
    using build_join_rel_plain [OF q(1) inv l i1(2) i2(2) jr cov] by blast
  have l1: "1 \<le> l" using l by simp
  note ij = inv_level [OF b(2,4) l1 l(3)]
  have ne: "pathlist (the_rel st1 p) \<noteq> []" if "pathlist (the_rel st p) \<noteq> []" "p < length (rel_heap st)" for p
    using b(3) that by (auto simp: step_ok_def keeps_def)
  have g: "baserels_known (jop st1) rt" using b(3) q(4) by (simp add: step_ok_def)
  obtain r where r: "make_join_rel svc rt p1 p2 st = Inr (Some j, set_rel st1 j r)" "keeps (the_rel st1 j) r" "pathlist r \<noteq> []"
    using make_join_rel_paths [OF q(2,3) g disj b(1) ij(1,2)] ne i1(1,4) i2(1,4) by auto
  let ?st2 = "set_rel st1 j r"
  have kp: "keeps (the_rel st1 p) (the_rel ?st2 p)" for p using r(2) ij(1) by (simp add: the_rel_set_rel)
  have "search_inv cl rels {} ?st2"
    using inv_keeps [OF b(2) kp] r(3) ij(1) by (simp add: the_rel_set_rel)
  moreover have "step_ok st1 ?st2" using kp by (simp add: step_ok_def)
  ultimately show ?thesis using r(1) b(4) searching_step [OF s] step_ok_trans [OF b(3)] by auto
qed

section \<open>The loops of one level\<close>

lemma clause_joins_plain:
  assumes "searching cl svc rt rels l st" "p \<in> set (level_rels st k)" "set others \<subseteq> set (level_rels st m)"
    and k: "1 \<le> k" "1 \<le> m" "k + m = l"
  shows "\<exists>st'. make_rels_by_clause_joins svc rt p others st = Inr st' \<and> searching cl svc rt rels l st' \<and> step_ok st st'"
  using assms(1-3)
proof (induction others arbitrary: st)
  case (Cons q others)
  show ?case
  proof (cases "\<not> bms_overlap (relids (the_rel st p)) (relids (the_rel st q)) \<and> joinable svc rt st p q")
    case True
    have q: "q \<in> set (level_rels st m)" "rset st p \<inter> rset st q = {}" using Cons.prems(3) True by (auto simp: rset_overlap)
    obtain j st1 where j: "make_join_rel svc rt p q st = Inr (Some j, st1)" "searching cl svc rt rels l st1" "step_ok st st1"
      using make_join_rel_plain [OF Cons.prems(1,2) q(1) k q(2)] by blast
    have "level_rels st1 k = level_rels st k" "level_rels st1 m = level_rels st m"
      using searching_level [OF Cons.prems(1) j(3)] k by simp_all
    then obtain st2 where "make_rels_by_clause_joins svc rt p others st1 = Inr st2" "searching cl svc rt rels l st2" "step_ok st1 st2"
      using Cons.IH [OF j(2)] Cons.prems by auto
    then show ?thesis using True j(1) step_ok_trans [OF j(3)] by auto
  next
    case False
    then show ?thesis using Cons by auto
  qed
qed simp

lemma clauseless_joins_plain:
  assumes "searching cl svc rt rels l st" "p \<in> set (level_rels st k)" "set others \<subseteq> set (level_rels st m)"
    and k: "1 \<le> k" "1 \<le> m" "k + m = l"
  shows "\<exists>st'. make_rels_by_clauseless_joins svc rt p others st = Inr st' \<and> searching cl svc rt rels l st' \<and> step_ok st st' \<and>
    ((\<exists>q\<in>set others. rset st q \<inter> rset st p = {}) \<longrightarrow> level_rels st' l \<noteq> [])"
  using assms(1-3)
proof (induction others arbitrary: st)
  case (Cons q others)
  show ?case
  proof (cases "rset st q \<inter> rset st p = {}")
    case True
    then have q: "q \<in> set (level_rels st m)" "rset st p \<inter> rset st q = {}" using Cons.prems(3) by auto
    obtain j st1 where j: "make_join_rel svc rt p q st = Inr (Some j, st1)" "searching cl svc rt rels l st1" "step_ok st st1"
        "j \<in> set (level_rels st1 l)"
      using make_join_rel_plain [OF Cons.prems(1,2) q(1) k q(2)] by blast
    have "level_rels st1 k = level_rels st k" "level_rels st1 m = level_rels st m"
      using searching_level [OF Cons.prems(1) j(3)] k by simp_all
    then obtain st2 where s2: "make_rels_by_clauseless_joins svc rt p others st1 = Inr st2" "searching cl svc rt rels l st2" "step_ok st1 st2"
      using Cons.IH [OF j(2)] Cons.prems by auto
    have "join_cur_level st1 = l" using j(2) by (simp add: searching_def)
    then have "level_rels st2 l \<noteq> []" using s2(3) j(4) by (auto simp: step_ok_def)
    then show ?thesis using True j(1) step_ok_trans [OF j(3)] s2 by (auto simp: rset_overlap)
  next
    case False
    then show ?thesis using Cons by (auto simp: rset_overlap)
  qed
qed simp

lemma inv_level_one: "searching cl svc rt rels l st \<Longrightarrow> level_rels st 1 = rels"
  unfolding searching_def search_inv_def by blast

lemma linear_joins_plain:
  assumes "searching cl svc rt rels l st" "set olds \<subseteq> set (level_rels st (l - 1))"
  shows "\<exists>st'. linear_joins svc rt l olds st = Inr st' \<and> searching cl svc rt rels l st' \<and> step_ok st st'"
  using assms
proof (induction olds arbitrary: st)
  case (Cons p olds)
  have k: "1 \<le> l - 1" "(1::nat) \<le> 1" "l - 1 + 1 = l" using Cons.prems(1) by (auto simp: searching_def)
  have p: "p \<in> set (level_rels st (l - 1))" using Cons.prems(2) by simp
  let ?others = "if l = 2 then olds else level_rels st 1"
  have sub: "set ?others \<subseteq> set (level_rels st 1)" using Cons.prems(2) by auto
  let ?m = "if has_join_reason rt (the_rel st p) then make_rels_by_clause_joins svc rt p ?others st
        else make_rels_by_clauseless_joins svc rt p (level_rels st 1) st"
  have "\<exists>st1. ?m = Inr st1 \<and> searching cl svc rt rels l st1 \<and> step_ok st st1"
    using clause_joins_plain [OF Cons.prems(1) p sub k] clauseless_joins_plain [OF Cons.prems(1) p order_refl k]
    by (cases "has_join_reason rt (the_rel st p)") auto
  then obtain st1 where s1: "?m = Inr st1" "searching cl svc rt rels l st1" "step_ok st st1" by blast
  have "level_rels st1 (l - 1) = level_rels st (l - 1)" using searching_level [OF Cons.prems(1) s1(3)] k by simp
  then obtain st2 where "linear_joins svc rt l olds st1 = Inr st2" "searching cl svc rt rels l st2" "step_ok st1 st2"
    using Cons.IH [OF s1(2)] Cons.prems(2) by auto
  then show ?case using step_ok_trans [OF s1(3)] unfolding linear_joins.simps s1(1) by auto
qed simp

lemma bushy_joins_plain:
  assumes "searching cl svc rt rels l st" "set olds \<subseteq> set (level_rels st k)" "1 \<le> k" "k < l"
  shows "\<exists>st'. bushy_joins svc rt l k olds st = Inr st' \<and> searching cl svc rt rels l st' \<and> step_ok st st'"
  using assms(1,2)
proof (induction olds arbitrary: st)
  case (Cons p olds)
  have k: "1 \<le> k" "1 \<le> l - k" "k + (l - k) = l" using assms(3,4) by simp_all
  have p: "p \<in> set (level_rels st k)" using Cons.prems(2) by simp
  let ?others = "if k = l - k then olds else level_rels st (l - k)"
  have sub: "set ?others \<subseteq> set (level_rels st (l - k))" using Cons.prems(2) by auto
  let ?m = "if \<not> has_join_reason rt (the_rel st p) then Inr st else make_rels_by_clause_joins svc rt p ?others st"
  have "\<exists>st1. ?m = Inr st1 \<and> searching cl svc rt rels l st1 \<and> step_ok st st1"
    using clause_joins_plain [OF Cons.prems(1) p sub k] Cons.prems(1)
    by (cases "has_join_reason rt (the_rel st p)") auto
  then obtain st1 where s1: "?m = Inr st1" "searching cl svc rt rels l st1" "step_ok st st1" by blast
  have "level_rels st1 k = level_rels st k" using searching_level [OF Cons.prems(1) s1(3)] assms(4) by simp
  then obtain st2 where "bushy_joins svc rt l k olds st1 = Inr st2" "searching cl svc rt rels l st2" "step_ok st1 st2"
    using Cons.IH [OF s1(2)] Cons.prems(2) by auto
  then show ?case using step_ok_trans [OF s1(3)] unfolding bushy_joins.simps s1(1) by auto
qed simp

lemma bushy_levels_plain:
  assumes "searching cl svc rt rels l st" "\<forall>k\<in>set ks. 1 \<le> k \<and> k < l"
  shows "\<exists>st'. bushy_levels svc rt l ks st = Inr st' \<and> searching cl svc rt rels l st' \<and> step_ok st st'"
  using assms
proof (induction ks arbitrary: st)
  case (Cons k ks)
  obtain st1 where s1: "bushy_joins svc rt l k (level_rels st k) st = Inr st1" "searching cl svc rt rels l st1" "step_ok st st1"
    using bushy_joins_plain [OF Cons.prems(1) order_refl] Cons.prems(2) by auto
  then show ?case using Cons.IH [OF s1(2)] Cons.prems(2) step_ok_trans [OF s1(3)] by auto
qed simp

text \<open>A relation of fewer items than there are is disjoint from one of the initial relations.\<close>

lemma missing_initial:
  assumes "search_inv cl rels X st" "covers st rels k A" "k < length rels" "distinct rels"
  shows "\<exists>q\<in>set rels. rset st q \<inter> A = {}"
proof -
  obtain S where S: "S \<subseteq> set rels" "card S = k" "A = (\<Union>q\<in>S. rset st q)" using assms(2) unfolding covers_def by blast
  then have "S \<noteq> set rels" using assms(3) distinct_card [OF assms(4)] by auto
  then obtain q where q: "q \<in> set rels" "q \<notin> S" using S(1) by blast
  have "rset st q \<inter> rset st p = {}" if "p \<in> S" for p
    using inv_disjoint [OF assms(1) q(1), of p] q(2) S(1) that by auto
  then show ?thesis using q(1) S(3) by blast
qed

lemma inv_distinct:
  assumes "search_inv cl rels X st" "rels \<noteq> []"
  shows "distinct rels"
proof -
  have "1 \<in> {1..length rels}" using assms(2) by (cases rels) auto
  then have "distinct (level_rels st 1)" using assms(1) unfolding search_inv_def by blast
  moreover have "level_rels st 1 = rels" using assms(1) unfolding search_inv_def by blast
  ultimately show ?thesis by simp
qed

lemma cartesian_joins_plain:
  assumes "searching cl svc rt rels l st" "set olds \<subseteq> set (level_rels st (l - 1))" "olds \<noteq> []"
  shows "\<exists>st'. cartesian_joins svc rt olds st = Inr st' \<and> searching cl svc rt rels l st' \<and> step_ok st st' \<and> level_rels st' l \<noteq> []"
  using assms
proof (induction olds arbitrary: st)
  case (Cons p olds)
  have l: "2 \<le> l" "l \<le> length rels" "search_inv cl rels {} st" using Cons.prems(1) by (simp_all add: searching_def)
  have k: "1 \<le> l - 1" "(1::nat) \<le> 1" "l - 1 + 1 = l" using l by simp_all
  have p: "p \<in> set (level_rels st (l - 1))" using Cons.prems(2) by simp
  have one: "level_rels st 1 = rels" by (rule inv_level_one [OF Cons.prems(1)])
  have "rels \<noteq> []" using l by auto
  then have "distinct rels" by (rule inv_distinct [OF l(3)])
  moreover have "covers st rels (l - 1) (rset st p)" using inv_level(3) [OF l(3) p k(1)] l(2) by simp
  ultimately have ex: "\<exists>q\<in>set rels. rset st q \<inter> rset st p = {}" using missing_initial [OF l(3)] l by simp
  obtain st1 where s1: "make_rels_by_clauseless_joins svc rt p (level_rels st 1) st = Inr st1" "searching cl svc rt rels l st1"
      "step_ok st st1" "level_rels st1 l \<noteq> []"
    using clauseless_joins_plain [OF Cons.prems(1) p order_refl k] ex one by auto
  show ?case
  proof (cases "olds = []")
    case True
    then show ?thesis using s1 by auto
  next
    case False
    have "level_rels st1 (l - 1) = level_rels st (l - 1)" using searching_level [OF Cons.prems(1) s1(3)] k by simp
    then show ?thesis using Cons.IH [OF s1(2) _ False] Cons.prems(2) s1(1) step_ok_trans [OF s1(3)] by auto
  qed
qed simp

section \<open>Levels\<close>

definition frame :: "join_state \<Rightarrow> join_state \<Rightarrow> bool" where
  "frame st st' \<longleftrightarrow>
     length (rel_heap st) \<le> length (rel_heap st') \<and>
     (\<forall>p<length (rel_heap st). keeps (the_rel st p) (the_rel st' p)) \<and>
     jop st' = jop st \<and> initial_rels st' = initial_rels st"

lemma frame_trans:
  assumes "frame st1 st2" "frame st2 st3"
  shows "frame st1 st3"
proof -
  have "keeps (the_rel st1 p) (the_rel st3 p)" if "p < length (rel_heap st1)" for p
  proof -
    have "p < length (rel_heap st2)" using assms(1) that unfolding frame_def by linarith
    then show ?thesis using assms that keeps_trans unfolding frame_def by blast
  qed
  then show ?thesis using assms unfolding frame_def by (metis order_trans)
qed

lemma step_frame: "step_ok st st' \<Longrightarrow> frame st st'"
  by (simp add: step_ok_def frame_def)

lemma inv_cur: "search_inv cl rels X st \<Longrightarrow> search_inv cl rels X (st\<lparr>join_cur_level := l\<rparr>)"
  by (simp add: search_inv_def level_rels_def covers_def)

lemma one_level_plain:
  assumes q: "plain_clauses cl" "plain_query rt" "builds_paths svc rt" "baserels_known (jop st) rt"
    and inv: "search_inv cl rels {} st" and l: "2 \<le> l" "l \<le> length rels"
    and lev: "level_rels st (l - 1) \<noteq> []" "level_rels st l = []"
  shows "\<exists>st'. join_search_one_level svc rt l st = Inr st' \<and> search_inv cl rels {} st' \<and> frame st st' \<and>
    level_rels st' l \<noteq> [] \<and> (\<forall>k. k \<noteq> l \<longrightarrow> level_rels st' k = level_rels st k)"
proof -
  let ?st = "st\<lparr>join_cur_level := l\<rparr>"
  have same: "level_rels ?st k = level_rels st k" for k by (simp add: level_rels_def)
  have s: "searching cl svc rt rels l ?st" using q inv_cur [OF inv] l by (simp add: searching_def)
  have fr: "frame st ?st" by (simp add: frame_def)
  obtain st1 where s1: "linear_joins svc rt l (level_rels st (l - 1)) ?st = Inr st1" "searching cl svc rt rels l st1" "step_ok ?st st1"
    using linear_joins_plain [OF s, of "level_rels st (l - 1)"] same by auto
  obtain st2 where s2: "bushy_levels svc rt l [2..<Suc (l div 2)] st1 = Inr st2" "searching cl svc rt rels l st2" "step_ok st1 st2"
  proof -
    have "\<forall>k\<in>set [2..<Suc (l div 2)]. 1 \<le> k \<and> k < l" using l(1) by auto
    then show ?thesis using bushy_levels_plain [OF s1(2)] that by blast
  qed
  have step2: "step_ok ?st st2" by (rule step_ok_trans [OF s1(3) s2(3)])
  have conclude: "search_inv cl rels {} st' \<and> frame st st' \<and> (\<forall>k. k \<noteq> l \<longrightarrow> level_rels st' k = level_rels st k)"
    if "searching cl svc rt rels l st'" "step_ok ?st st'" for st'
    using that searching_level [OF s that(2)] frame_trans [OF fr step_frame [OF that(2)]] same by (simp add: searching_def)
  show ?thesis
  proof (cases "level_rels st2 l = []")
    case True
    have "level_rels st2 (l - 1) = level_rels st (l - 1)" using conclude [OF s2(2) step2] l by simp
    then obtain st3 where s3: "cartesian_joins svc rt (level_rels st2 (l - 1)) st2 = Inr st3" "searching cl svc rt rels l st3"
        "step_ok st2 st3" "level_rels st3 l \<noteq> []"
      using cartesian_joins_plain [OF s2(2) order_refl] lev(1) by auto
    then have "join_search_one_level svc rt l st = Inr st3"
      using s1(1) s2(1) True lev(2) by (simp add: join_search_one_level_def Let_def same)
    then show ?thesis using conclude [OF s3(2) step_ok_trans [OF step2 s3(3)]] s3(4) by blast
  next
    case False
    then have "join_search_one_level svc rt l st = Inr st2"
      using s1(1) s2(1) lev(2) by (simp add: join_search_one_level_def Let_def same)
    then show ?thesis using conclude [OF s2(2) step2] False by blast
  qed
qed

text \<open>After \<^verbatim>\<open>set_cheapest\<close> a relation with paths has a cheapest one.\<close>

lemma cheapest_step_some: "cs_total (cheapest_step p st) \<noteq> None \<or> cs_best_param (cheapest_step p st) \<noteq> None"
  by (auto simp: cheapest_step_def Let_def split: option.splits)

lemma set_cheapest_some:
  assumes "set_cheapest r = Inr r'"
  shows "cheapest_total_path r' \<noteq> None"
proof -
  obtain ps p where ps: "pathlist r = ps @ [p]"
    using assms by (cases "pathlist r" rule: rev_cases) (auto simp: set_cheapest_def)
  show ?thesis using assms cheapest_step_some [of p "fold cheapest_step ps cheapest_init"]
    by (auto simp: set_cheapest_def Let_def ps split: if_splits)
qed

lemma finish_rel_plain:
  assumes "builds_paths svc rt" "p < length (rel_heap st)" "pathlist (the_rel st p) \<noteq> []"
  shows "\<exists>r. finish_rel svc rt p st = Inr (set_rel st p r) \<and> keeps (the_rel st p) r \<and> pathlist r \<noteq> [] \<and>
    cheapest_total_path r \<noteq> None"
proof -
  let ?r = "the_rel st p"
  let ?r1 = "set_paths ?r (generate_partitionwise_join_paths svc rt ?r)"
  let ?r2 = "if \<not> bms_equal (relids ?r1) (all_query_rels rt) then set_paths ?r1 (generate_useful_gather_paths svc rt ?r1) else ?r1"
  have p1: "pathlist ?r1 \<noteq> []" using assms by (simp add: builds_paths_def set_paths_def)
  then have p2: "pathlist ?r2 \<noteq> []" using assms by (simp add: builds_paths_def set_paths_def)
  obtain r3 where r3: "set_cheapest ?r2 = Inr r3" "keeps ?r2 r3" "pathlist r3 = pathlist ?r2"
    using set_cheapest_keeps [OF p2] by blast
  have "keeps ?r ?r2" using p2 by (auto simp: keeps_def set_paths_def)
  then have "keeps ?r r3" using r3(2) by (rule keeps_trans)
  moreover have "finish_rel svc rt p st = Inr (set_rel st p r3)" using r3(1) by (simp add: finish_rel_def Let_def)
  ultimately show ?thesis using r3(3) p2 set_cheapest_some [OF r3(1)] by auto
qed

lemma finish_rels_plain:
  assumes "builds_paths svc rt" "search_inv cl rels {} st" "1 \<le> l" "l \<le> length rels" "set ps \<subseteq> set (level_rels st l)"
  shows "\<exists>st'. finish_rels svc rt ps st = Inr st' \<and> search_inv cl rels {} st' \<and> frame st st' \<and>
    (\<forall>k. level_rels st' k = level_rels st k) \<and>
    (\<forall>p. p \<in> set ps \<or> cheapest_total_path (the_rel st p) \<noteq> None \<longrightarrow> cheapest_total_path (the_rel st' p) \<noteq> None)"
  using assms(2,5)
proof (induction ps arbitrary: st)
  case Nil
  then show ?case by (auto simp: frame_def)
next
  case (Cons p ps)
  have "p \<in> set (level_rels st l)" using Cons.prems(2) by simp
  note i = inv_level [OF Cons.prems(1) this assms(3,4)]
  obtain r where r: "finish_rel svc rt p st = Inr (set_rel st p r)" "keeps (the_rel st p) r" "cheapest_total_path r \<noteq> None"
    using finish_rel_plain [OF assms(1) i(1)] i(4) by auto
  let ?st = "set_rel st p r"
  have k: "keeps (the_rel st q) (the_rel ?st q)" for q using r(2) i(1) by (simp add: the_rel_set_rel)
  have inv: "search_inv cl rels {} ?st" using inv_keeps [OF Cons.prems(1) k] by simp
  have fr: "frame st ?st" using k by (simp add: frame_def)
  obtain st2 where s2: "finish_rels svc rt ps ?st = Inr st2" "search_inv cl rels {} st2" "frame ?st st2"
      "\<forall>k. level_rels st2 k = level_rels ?st k"
      "\<forall>q. q \<in> set ps \<or> cheapest_total_path (the_rel ?st q) \<noteq> None \<longrightarrow> cheapest_total_path (the_rel st2 q) \<noteq> None"
    using Cons.IH [OF inv] Cons.prems(2) by auto
  have "cheapest_total_path (the_rel ?st q) \<noteq> None" if "q = p \<or> cheapest_total_path (the_rel st q) \<noteq> None" for q
    using that r(3) i(1) by (auto simp: the_rel_set_rel)
  then have "\<forall>q. q \<in> set (p # ps) \<or> cheapest_total_path (the_rel st q) \<noteq> None \<longrightarrow> cheapest_total_path (the_rel st2 q) \<noteq> None"
    using s2(5) by (metis set_ConsD)
  then show ?case using s2(1,2,4) frame_trans [OF fr s2(3)] r(1) by simp
qed

lemma search_levels_plain:
  assumes q: "plain_clauses cl" "plain_query rt" "builds_paths svc rt" and b: "baserels_known (jop st) rt"
    and inv: "search_inv cl rels {} st" and l: "2 \<le> l" "l \<le> length rels"
    and lev: "level_rels st (l - 1) \<noteq> []" "\<forall>k\<in>{l..length rels}. level_rels st k = []"
  shows "\<exists>st'. search_levels svc rt [l..<Suc (length rels)] st = Inr st' \<and> search_inv cl rels {} st' \<and> frame st st' \<and>
    level_rels st' (length rels) \<noteq> [] \<and>
    (\<forall>p\<in>set (level_rels st' (length rels)). cheapest_total_path (the_rel st' p) \<noteq> None)"
  using b inv l lev
proof (induction "length rels - l" arbitrary: l st)
  case (0 l st)
  have l: "l = length rels" using 0 by simp
  obtain st1 where s1: "join_search_one_level svc rt l st = Inr st1" "search_inv cl rels {} st1" "frame st st1" "level_rels st1 l \<noteq> []"
    using one_level_plain [OF q 0(2,3,4,5,6)] 0(5,7) by auto
  obtain st2 where s2: "finish_rels svc rt (level_rels st1 l) st1 = Inr st2" "search_inv cl rels {} st2" "frame st1 st2"
      "\<forall>k. level_rels st2 k = level_rels st1 k"
      "\<forall>p. p \<in> set (level_rels st1 l) \<or> cheapest_total_path (the_rel st1 p) \<noteq> None \<longrightarrow> cheapest_total_path (the_rel st2 p) \<noteq> None"
    using finish_rels_plain [OF q(3) s1(2) _ 0(5) order_refl] 0(4) by auto
  have "[l..<Suc (length rels)] = [l]" by (simp add: l)
  then have "search_levels svc rt [l..<Suc (length rels)] st = Inr st2" using s1(1) s2(1) by simp
  then show ?case using s2(2,4,5) s1(4) frame_trans [OF s1(3) s2(3)] l by auto
next
  case (Suc n l st)
  obtain st1 where s1: "join_search_one_level svc rt l st = Inr st1" "search_inv cl rels {} st1" "frame st st1" "level_rels st1 l \<noteq> []"
      "\<forall>k. k \<noteq> l \<longrightarrow> level_rels st1 k = level_rels st k"
    using one_level_plain [OF q Suc(3,4,5,6,7)] Suc(6,8) by auto
  obtain st2 where s2: "finish_rels svc rt (level_rels st1 l) st1 = Inr st2" "search_inv cl rels {} st2" "frame st1 st2"
      "\<forall>k. level_rels st2 k = level_rels st1 k"
    using finish_rels_plain [OF q(3) s1(2) _ Suc(6) order_refl] Suc(5) by auto
  have fr: "frame st st2" by (rule frame_trans [OF s1(3) s2(3)])
  have l: "n = length rels - Suc l" "2 \<le> Suc l" "Suc l \<le> length rels" using Suc(2,5) by simp_all
  have "baserels_known (jop st2) rt" using fr Suc(3) by (simp add: frame_def)
  moreover have "level_rels st2 (Suc l - 1) \<noteq> []" using s1(4) s2(4) by simp
  moreover have "\<forall>k\<in>{Suc l..length rels}. level_rels st2 k = []" using Suc(8) s1(5) s2(4) by simp
  ultimately obtain st3 where s3: "search_levels svc rt [Suc l..<Suc (length rels)] st2 = Inr st3" "search_inv cl rels {} st3"
      "frame st2 st3" "level_rels st3 (length rels) \<noteq> []"
      "\<forall>p\<in>set (level_rels st3 (length rels)). cheapest_total_path (the_rel st3 p) \<noteq> None"
    using Suc(1) [OF l(1) _ s2(2) l(2,3)] by blast
  have "[l..<Suc (length rels)] = l # [Suc l..<Suc (length rels)]" using Suc(6) by (simp add: upt_rec)
  then have "search_levels svc rt [l..<Suc (length rels)] st = Inr st3" using s1(1) s2(1) s3(1) by simp
  then show ?case using s3(2,4,5) frame_trans [OF fr s3(3)] by blast
qed

section \<open>Correctness\<close>

text \<open>
  A join problem: at least two relations with paths, of disjoint sets of members, that hold the join
  clauses they take part in; relations joined earlier overlap at most one of them.
\<close>

definition join_problem :: "RestrictInfo set \<Rightarrow> rel_ptr list \<Rightarrow> join_state \<Rightarrow> bool" where
  "join_problem cl rels st \<longleftrightarrow>
     table_ok st \<and> join_rel_level st = None \<and> distinct rels \<and> 2 \<le> length rels \<and>
     (\<forall>p\<in>set rels. p < length (rel_heap st) \<and> node_ok cl (the_rel st p) \<and> pathlist (the_rel st p) \<noteq> []) \<and>
     (\<forall>p\<in>set rels. \<forall>q\<in>set rels. p \<noteq> q \<longrightarrow> rset st p \<inter> rset st q = {}) \<and>
     (\<forall>j\<in>set (join_rel_list st). \<forall>p\<in>set rels. \<forall>q\<in>set rels. p \<noteq> q \<longrightarrow>
        rset st j \<inter> rset st p = {} \<or> rset st j \<inter> rset st q = {})"

lemma initial_levels:
  assumes "k \<le> n" "1 \<le> n"
  shows "(replicate (n + 1) [])[1 := rels] ! k = (if k = 1 then rels else [])"
proof (cases "k = 1")
  case True
  then show ?thesis using assms by (simp only: nth_list_update_eq length_replicate) simp
next
  case False
  then show ?thesis using assms by (simp only: nth_list_update_neq nth_replicate) simp
qed

lemma problem_inv:
  assumes "join_problem cl rels st"
  shows "search_inv cl rels {} (st\<lparr>join_rel_level := Some ((replicate (length rels + 1) [])[1 := rels])\<rparr>)"
proof -
  let ?st = "st\<lparr>join_rel_level := Some ((replicate (length rels + 1) [])[1 := rels])\<rparr>"
  have p: "table_ok st" "distinct rels" "2 \<le> length rels"
    "\<forall>p\<in>set rels. p < length (rel_heap st) \<and> node_ok cl (the_rel st p) \<and> pathlist (the_rel st p) \<noteq> []"
    "\<forall>p\<in>set rels. \<forall>q\<in>set rels. p \<noteq> q \<longrightarrow> rset st p \<inter> rset st q = {}"
    using assms by (simp_all add: join_problem_def)
  have lv: "level_rels ?st k = (if k = 1 then rels else [])" if "k \<le> length rels" for k
    using initial_levels [OF that, of rels] p(3) by (simp only: level_rels_def join_state.simps option.case) simp
  have no: "\<not> covers ?st rels k (rset st j)" if j: "j \<in> set (join_rel_list st)" "2 \<le> k" for j k
  proof
    assume "covers ?st rels k (rset st j)"
    then obtain S where S: "S \<subseteq> set rels" "card S = k" "rset st j = (\<Union>q\<in>S. rset st q)" unfolding covers_def by auto
    have "\<not> card S \<le> Suc 0" using S(2) j(2) by simp
    moreover have "finite S" using S(1) finite_subset by auto
    ultimately obtain a b where ab: "a \<in> S" "b \<in> S" "a \<noteq> b" by (auto simp: card_le_Suc0_iff_eq)
    then have "rset st a \<noteq> {}" "rset st b \<noteq> {}" using p(4) S(1) node_rset by blast+
    moreover have "rset st j \<inter> rset st a = {} \<or> rset st j \<inter> rset st b = {}"
      using assms j(1) ab S(1) unfolding join_problem_def by (meson subsetD)
    ultimately show False using ab S(3) by blast
  qed
  have cov: "covers ?st rels 1 (rset st q)" if "q \<in> set rels" for q
    unfolding covers_def using that by (intro exI [of _ "{q}"]) simp
  have one: "(\<forall>p\<in>set (level_rels ?st k). p < length (rel_heap ?st) \<and> node_ok cl (the_rel ?st p) \<and>
      covers ?st rels k (rset ?st p) \<and> (p \<notin> {} \<longrightarrow> pathlist (the_rel ?st p) \<noteq> [])) \<and> distinct (level_rels ?st k)"
    if "k \<in> {1..length rels}" for k
    using lv [of k] that p(2,4) cov by (cases "k = 1") auto
  show ?thesis unfolding search_inv_def
    using p one lv [of 1] no lv by (auto simp: nth_list_update)
qed

lemma search_result_unique:
  assumes inv: "search_inv cl rels X st" and n: "2 \<le> length rels" and ne: "level_rels st (length rels) \<noteq> []"
  shows "\<exists>p. level_rels st (length rels) = [p] \<and> rset st p = (\<Union>q\<in>set rels. rset st q)"
proof -
  let ?n = "length rels"
  have n1: "1 \<le> ?n" using n by simp
  then have "rels \<noteq> []" by auto
  have rs: "rset st p = (\<Union>q\<in>set rels. rset st q)" if p: "p \<in> set (level_rels st ?n)" for p
  proof -
    obtain S where S: "S \<subseteq> set rels" "card S = ?n" "rset st p = (\<Union>q\<in>S. rset st q)"
      using inv_level(3) [OF inv p n1 order_refl] unfolding covers_def by blast
    then have "S = set rels" using distinct_card [OF inv_distinct [OF inv \<open>rels \<noteq> []\<close>]] by (intro card_subset_eq) auto
    then show ?thesis using S(3) by simp
  qed
  have "?n \<in> {2..?n}" "?n \<in> {1..?n}" using n by simp_all
  then have sub: "set (level_rels st ?n) \<subseteq> set (join_rel_list st)" "distinct (level_rels st ?n)"
    using inv unfolding search_inv_def by blast+
  have "inj_on (rset st) (set (join_rel_list st))" using inv unfolding search_inv_def table_ok_def distinct_map by blast
  then have eq: "p = q" if "p \<in> set (level_rels st ?n)" "q \<in> set (level_rels st ?n)" for p q
    using rs that sub(1) by (metis inj_onD subsetD)
  obtain p ps where ps: "level_rels st ?n = p # ps" using ne by (cases "level_rels st ?n") auto
  have "ps = []" using eq [of p] sub(2) unfolding ps by (cases ps) auto
  then show ?thesis using ps rs by simp
qed

lemma set_finished_simps [simp]:
  "the_rel (set_finished b st) p = the_rel st p" "rel_heap (set_finished b st) = rel_heap st"
  "join_rel_level (set_finished b st) = join_rel_level st" "rset (set_finished b st) = rset st"
  "join_rel_list (set_finished b st) = join_rel_list st" "table_ok (set_finished b st) = table_ok st"
  "baserels_known (jop (set_finished b st)) rt = baserels_known (jop st) rt"
  by (simp_all add: set_finished_def baserels_known_def)

lemma problem_finished: "join_problem cl rels st \<Longrightarrow> join_problem cl rels (set_finished b st)"
  by (simp add: join_problem_def)

text \<open>C2. Completeness of the dynamic-programming search: for a query without special joins and lateral
  references it ends without an error, with exactly one relation at the last level. That relation
  joins all initial relations, has a cheapest path, and holds exactly the join clauses that need
  relations outside it; the table of join relations stays free of duplicates. The path builders are
  assumed to find a path for an inner join of relations that have paths.\<close>

theorem standard_join_search_complete:
  assumes "plain_query rt" and "builds_paths svc rt" and "baserels_known (jop st) rt" and "plain_clauses cl"
    and "join_problem cl rels st"
  shows "\<exists>p st'. standard_join_search svc rt (length rels) rels st = Inr (p, st') \<and>
    p \<in> set (join_rel_list st') \<and> rset st' p = (\<Union>q\<in>set rels. rset st q) \<and>
    cheapest_total_path (the_rel st' p) \<noteq> None \<and>
    set (joininfo (the_rel st' p)) = join_clauses_of cl (rset st' p) \<and>
    table_ok st' \<and> join_rel_level st' = None"
proof -
  let ?n = "length rels"
  let ?s0 = "set_finished False st"
  let ?s1 = "?s0\<lparr>join_rel_level := Some ((replicate (?n + 1) [])[1 := rels])\<rparr>"
  have n: "2 \<le> ?n" "join_rel_level st = None" and ini: "\<forall>q\<in>set rels. q < length (rel_heap st)"
    using assms(5) by (simp_all add: join_problem_def)
  have inv: "search_inv cl rels {} ?s1" by (rule problem_inv [OF problem_finished [OF assms(5)]])
  have lv: "level_rels ?s1 k = (if k = 1 then rels else [])" if "k \<le> ?n" for k
    using initial_levels [OF that, of rels] n by (simp only: level_rels_def join_state.simps option.case) simp
  have "\<exists>st'. search_levels svc rt [2..<Suc ?n] ?s1 = Inr st' \<and> search_inv cl rels {} st' \<and> frame ?s1 st' \<and>
      level_rels st' ?n \<noteq> [] \<and> (\<forall>p\<in>set (level_rels st' ?n). cheapest_total_path (the_rel st' p) \<noteq> None)"
  proof (rule search_levels_plain [OF assms(4,1,2) _ inv order_refl n(1)])
    show "baserels_known (jop ?s1) rt" using assms(3) by simp
    show "level_rels ?s1 (2 - 1) \<noteq> []" using lv [of 1] n by auto
    show "\<forall>k\<in>{2..?n}. level_rels ?s1 k = []" using lv by simp
  qed
  then obtain st2 where s2: "search_levels svc rt [2..<Suc ?n] ?s1 = Inr st2" "search_inv cl rels {} st2" "frame ?s1 st2"
      "level_rels st2 ?n \<noteq> []" "\<forall>p\<in>set (level_rels st2 ?n). cheapest_total_path (the_rel st2 p) \<noteq> None"
    by blast
  obtain p where p: "level_rels st2 ?n = [p]" "rset st2 p = (\<Union>q\<in>set rels. rset st2 q)"
    using search_result_unique [OF s2(2) n(1) s2(4)] by blast
  have run: "standard_join_search svc rt ?n rels st = Inr (p, set_finished True (st2\<lparr>join_rel_level := None\<rparr>))"
    using s2(1) p(1) n unfolding standard_join_search_def Let_def by (cases rels) simp_all
  have "rset st2 q = rset st q" if "q \<in> set rels" for q
    using s2(3) ini that by (simp add: frame_def keeps_def rset_def)
  then have "rset st2 p = (\<Union>q\<in>set rels. rset st q)" using p(2) by simp
  moreover have "node_ok cl (the_rel st2 p)" using inv_level(2) [OF s2(2), of p ?n] p(1) n(1) by simp
  then have "set (joininfo (the_rel st2 p)) = join_clauses_of cl (rset st2 p)" by (simp add: node_ok_def rset_def)
  moreover have "?n \<in> {2..?n}" using n(1) by simp
  then have "set (level_rels st2 ?n) \<subseteq> set (join_rel_list st2)" using s2(2) unfolding search_inv_def by blast
  then have "p \<in> set (join_rel_list st2)" using p(1) by simp
  moreover have "table_ok st2" using s2(2) unfolding search_inv_def by blast
  ultimately show ?thesis using run s2(5) p(1) by simp
qed

lemma sample_problem: "join_problem {sample_clause 0 6} [0, 1] sample_search"
proof -
  have "set (joininfo r) = join_clauses_of {sample_clause 0 6} (bms_set (relids r))"
    if "r = sample_base 2 [sample_clause 0 6] \<or> r = sample_base 4 [sample_clause 0 6]" for r
    using that by (auto simp: join_clauses_of_def sample_base_def sample_clause_def)
  then have "node_ok {sample_clause 0 6} (the_rel sample_search 0)" "node_ok {sample_clause 0 6} (the_rel sample_search (Suc 0))"
    by (simp_all add: node_ok_def, simp_all add: sample_base_def bms_wf_def mk_bms_def IS_OTHER_REL_def)
  then show ?thesis
    by (simp add: join_problem_def table_ok_def) (simp add: sample_search_def sample_base_def)
qed

theorem standard_join_search_complete_witness:
  "\<exists>p st'. standard_join_search sample_services sample_root 2 [0, 1] sample_search = Inr (p, st') \<and>
     rset st' p = {1, 2} \<and> joininfo (the_rel st' p) = [] \<and> cheapest_total_path (the_rel st' p) \<noteq> None"
proof -
  have "plain_query sample_root" "builds_paths sample_services sample_root" "baserels_known (jop sample_search) sample_root"
    "plain_clauses {sample_clause 0 6}"
    by (simp_all add: plain_query_def builds_paths_def pair_builders_ok_def keeps_some_path_def sample_path_services_def baserels_known_def plain_clauses_def clauses_ok_def sample_root_def
        sample_planner_def sample_services_def sample_clause_def bms_wf_def mk_bms_def)
  from standard_join_search_complete [OF this sample_problem]
  obtain p st' where p: "standard_join_search sample_services sample_root (length [0::nat, 1]) [0, 1] sample_search = Inr (p, st')"
      "rset st' p = (\<Union>q\<in>set [0, 1]. rset sample_search q)" "cheapest_total_path (the_rel st' p) \<noteq> None"
      "set (joininfo (the_rel st' p)) = join_clauses_of {sample_clause 0 6} (rset st' p)"
    by blast
  have u: "rset st' p = {1, 2}" using p(2) by auto
  have "join_clauses_of {sample_clause 0 6} {1, 2} = {}" by (auto simp: join_clauses_of_def sample_clause_def)
  then have "joininfo (the_rel st' p) = []" using p(4) u by simp
  then show ?thesis using p(1,3) u by (intro exI [of _ p] exI [of _ st']) (simp add: numeral_2_eq_2)
qed

text \<open>
  The flag that lets \<^verbatim>\<open>add_path\<close> keep every path stays set after a search, also for the base relations of
  the next query and for queries planned by the genetic optimizer.
\<close>

lemma search_leaves_collecting:
  assumes "standard_join_search svc rt n rels st = Inr (p, st')" "enable_join_order_plans (jop st')"
  shows "\<not> normal_mode (jop st')"
proof -
  define k where "k = (\<lambda>st. case level_rels st n of
          [] \<Rightarrow> Inl (Elog ''failed to build any %d-way joins'')
        | [rel] \<Rightarrow> Inr (rel, set_finished True (st\<lparr>join_rel_level := None\<rparr>))
        | _ \<Rightarrow> Inl AssertFail)"
  obtain m where "standard_join_search svc rt n rels st =
      (if join_rel_level (set_finished False st) \<noteq> None then Inl AssertFail else if n < 1 then Inl BadAccess else res_bind m k)"
    unfolding standard_join_search_def Let_def k_def by blast
  then have "res_bind m k = Inr (p, st')" using assms(1) by (simp split: if_splits)
  then obtain x where "k x = Inr (p, st')" unfolding res_bind_eq_Inr by blast
  then obtain s where "st' = set_finished True s"
    by (cases "level_rels x n"; cases "tl (level_rels x n)") (auto simp: k_def)
  then show ?thesis using assms(2) by (simp add: set_finished_def normal_mode_def split: if_splits)
qed

end
