(* ===== verification/Lero.thy ===== *)
theory Lero
  imports Joinorder
begin

text \<open>
  Join size estimates (\<^verbatim>\<open>src/backend/optimizer/path/costsize.c\<close>) and Lero's planner hook, which plans
  a query twice to steer them (\<^verbatim>\<open>src/backend/lero/lero_extension.c\<close> and \<^verbatim>\<open>planner\<close> in
  \<^verbatim>\<open>src/backend/optimizer/plan/planner.c\<close>). The three global arrays are functions on indices, with
  every access tested against their size. A run of \<^verbatim>\<open>standard_planner\<close> is an interaction tree: it
  asks for the size of join relations one after the other, may do anything with the answers, and
  ends with a plan. The theorems hold for every such run.
\<close>

section \<open>Join size estimates\<close>

definition MAXIMUM_ROWCOUNT :: real where
  "MAXIMUM_ROWCOUNT = 10 ^ 100"

text \<open>\<^verbatim>\<open>rint\<close> of the C library: to the nearest integer, halfway cases to the even one.\<close>

definition rint :: "real \<Rightarrow> real" where
  "rint x =
     (let n = \<lfloor>x\<rfloor>; d = x - of_int n in
      if d < 1 / 2 then of_int n
      else if d > 1 / 2 then of_int (n + 1)
      else if even n then of_int n
      else of_int (n + 1))"

text \<open>
  A computed \<^verbatim>\<open>double\<close>: not a number, which every operation passes on and which compares less than
  nothing, or a number. Numbers are unbounded, so there is no overflow to an infinity.
\<close>

datatype double = NaN | Num real

fun dmul :: "double \<Rightarrow> double \<Rightarrow> double" where
  "dmul (Num x) (Num y) = Num (x * y)"
| "dmul _ _ = NaN"

fun dsub :: "double \<Rightarrow> double \<Rightarrow> double" where
  "dsub (Num x) (Num y) = Num (x - y)"
| "dsub _ _ = NaN"

fun dless :: "double \<Rightarrow> double \<Rightarrow> bool" where
  "dless (Num x) (Num y) \<longleftrightarrow> x < y"
| "dless _ _ \<longleftrightarrow> False"

definition clamp_row_est :: "double \<Rightarrow> real" where
  "clamp_row_est nrows =
     (case nrows of
        NaN \<Rightarrow> MAXIMUM_ROWCOUNT
      | Num x \<Rightarrow>
          if x > MAXIMUM_ROWCOUNT then MAXIMUM_ROWCOUNT
          else if x \<le> 1 then 1
          else rint x)"

text \<open>
  The selectivity estimators are not modelled; they are arguments: the net selectivity of the
  clauses matched to foreign keys together with the clauses left, and the selectivity of a list of
  clauses.
\<close>

record selectivities =
  get_foreign_key_join_selectivity ::
    "PlannerInfo \<Rightarrow> Relids \<Rightarrow> Relids \<Rightarrow> SpecialJoinInfo \<Rightarrow> RestrictInfo list \<Rightarrow> double \<times> RestrictInfo list"
  clauselist_selectivity ::
    "PlannerInfo \<Rightarrow> RestrictInfo list \<Rightarrow> JoinType \<Rightarrow> SpecialJoinInfo \<Rightarrow> double"

definition calc_joinrel_size_estimate ::
  "selectivities \<Rightarrow> PlannerInfo \<Rightarrow> RelOptInfo \<Rightarrow> RelOptInfo \<Rightarrow> RelOptInfo \<Rightarrow> real \<Rightarrow> real \<Rightarrow>
   SpecialJoinInfo \<Rightarrow> RestrictInfo list \<Rightarrow> real res" where
  "calc_joinrel_size_estimate sel rt joinrel outer_rel inner_rel outer_rows inner_rows sjinfo clauses =
     (let jt = jointype sjinfo;
          (fkselec, restrictlist) =
            get_foreign_key_join_selectivity sel rt (relids outer_rel) (relids inner_rel) sjinfo clauses;
          joinquals = filter (\<lambda>r. \<not> RINFO_IS_PUSHED_DOWN r (relids joinrel)) restrictlist;
          pushedquals = filter (\<lambda>r. RINFO_IS_PUSHED_DOWN r (relids joinrel)) restrictlist;
          jselec = clauselist_selectivity sel rt (if IS_OUTER_JOIN jt then joinquals else restrictlist)
                     jt sjinfo;
          pselec = (if IS_OUTER_JOIN jt then clauselist_selectivity sel rt pushedquals jt sjinfo else Num 0);
          nrows = dmul (dmul (dmul (Num outer_rows) (Num inner_rows)) fkselec) jselec
      in case jt of
           JOIN_INNER \<Rightarrow> Inr (clamp_row_est nrows)
         | JOIN_LEFT \<Rightarrow>
             (let n = (if dless nrows (Num outer_rows) then Num outer_rows else nrows)
              in Inr (clamp_row_est (dmul n pselec)))
         | JOIN_FULL \<Rightarrow>
             (let n = (if dless nrows (Num outer_rows) then Num outer_rows else nrows);
                  n' = (if dless n (Num inner_rows) then Num inner_rows else n)
              in Inr (clamp_row_est (dmul n' pselec)))
         | JOIN_SEMI \<Rightarrow> Inr (clamp_row_est (dmul (dmul (Num outer_rows) fkselec) jselec))
         | JOIN_ANTI \<Rightarrow>
             Inr (clamp_row_est (dmul (dmul (Num outer_rows) (dsub (Num 1) (dmul fkselec jselec))) pselec))
         | _ \<Rightarrow> Inl (Elog ''unrecognized join type''))"

definition get_parameterized_joinrel_size ::
  "selectivities \<Rightarrow> PlannerInfo \<Rightarrow> RelOptInfo \<Rightarrow> RelOptInfo \<Rightarrow> RelOptInfo \<Rightarrow> path \<Rightarrow> path \<Rightarrow>
   SpecialJoinInfo \<Rightarrow> RestrictInfo list \<Rightarrow> real res" where
  "get_parameterized_joinrel_size sel rt rel outer_parent inner_parent outer_path inner_path sjinfo clauses =
     res_bind
       (calc_joinrel_size_estimate sel rt rel outer_parent inner_parent (rows (info outer_path))
          (rows (info inner_path)) sjinfo clauses)
       (\<lambda>nrows. Inr (if nrows > rel_rows rel then rel_rows rel else nrows))"

section \<open>Counting the tables below a join\<close>

datatype lero_action = LeroTable | LeroJoin | LeroSub | LeroError

definition lero_action_of :: "path_info \<Rightarrow> lero_action" where
  "lero_action_of pinf =
     (case pathtype pinf of
        T_SeqScan \<Rightarrow> LeroTable | T_IndexScan \<Rightarrow> LeroTable | T_IndexOnlyScan \<Rightarrow> LeroTable
      | T_BitmapHeapScan \<Rightarrow> LeroTable
      | T_HashJoin \<Rightarrow> LeroJoin | T_MergeJoin \<Rightarrow> LeroJoin | T_NestLoop \<Rightarrow> LeroJoin
      | T_Material \<Rightarrow> LeroSub | T_Sort \<Rightarrow> LeroSub | T_Agg \<Rightarrow> LeroSub | T_Memoize \<Rightarrow> LeroSub
      | T_Gather \<Rightarrow> LeroSub | T_GatherMerge \<Rightarrow> LeroSub
      | _ \<Rightarrow> LeroError)"

text \<open>
  A table is looked up in \<^verbatim>\<open>simple_rte_array\<close>, which has a null entry at 0 and one entry per range
  table entry; the name found is not used.
\<close>

definition count_table :: "PlannerInfo \<Rightarrow> path_info \<Rightarrow> int \<Rightarrow> int res" where
  "count_table rt pinf num =
     (if 1 \<le> relid (parent pinf) \<and> relid (parent pinf) \<le> length (rtable_alias rt) then Inr (num + 1)
      else Inl BadAccess)"

fun add_join_input_tables :: "PlannerInfo \<Rightarrow> path \<Rightarrow> int \<Rightarrow> int res" where
  "add_join_input_tables rt (BasePath pinf) num =
     (case lero_action_of pinf of
        LeroTable \<Rightarrow> count_table rt pinf num
      | LeroJoin \<Rightarrow> Inl BadAccess
      | LeroSub \<Rightarrow> Inl BadAccess
      | LeroError \<Rightarrow> Inl (Elog ''unrecognized node type''))"
| "add_join_input_tables rt (SubPath pinf sub) num =
     (case lero_action_of pinf of
        LeroTable \<Rightarrow> count_table rt pinf num
      | LeroJoin \<Rightarrow> Inl BadAccess
      | LeroSub \<Rightarrow> add_join_input_tables rt sub num
      | LeroError \<Rightarrow> Inl (Elog ''unrecognized node type''))"
| "add_join_input_tables rt (JoinPath pinf outerp innerp) num =
     (case lero_action_of pinf of
        LeroTable \<Rightarrow> count_table rt pinf num
      | LeroJoin \<Rightarrow> res_bind (add_join_input_tables rt innerp num) (add_join_input_tables rt outerp)
      | LeroSub \<Rightarrow> Inl BadAccess
      | LeroError \<Rightarrow> Inl (Elog ''unrecognized node type''))"

text \<open>The argument \<^verbatim>\<open>cheapest_total_path\<close> of a relation is dereferenced without a test.\<close>

definition add_cheapest :: "PlannerInfo \<Rightarrow> RelOptInfo \<Rightarrow> int \<Rightarrow> int res" where
  "add_cheapest rt rel num =
     (case cheapest_total_path rel of
        None \<Rightarrow> Inl BadAccess
      | Some p \<Rightarrow> add_join_input_tables rt p num)"

section \<open>Recording and replaying cardinalities\<close>

definition CARD_MAX_NUM :: nat where
  "CARD_MAX_NUM = 25000"

record lero_config =
  enable_lero :: bool
  lero_swing_factor :: real
  lero_subquery_table_num :: int

record lero_state =
  record_original_card_phase :: bool
  join_card_num :: nat
  cur_card_idx :: nat
  original_card_list :: "nat \<Rightarrow> real"
  lero_card_list :: "nat \<Rightarrow> real"
  join_input_table_nums :: "nat \<Rightarrow> int"
  static_rows :: real

definition card_set :: "(nat \<Rightarrow> 'a) \<Rightarrow> nat \<Rightarrow> 'a \<Rightarrow> (nat \<Rightarrow> 'a) res" where
  "card_set a i v = (if i < CARD_MAX_NUM then Inr (a(i := v)) else Inl BadAccess)"

definition card_get :: "(nat \<Rightarrow> 'a) \<Rightarrow> nat \<Rightarrow> 'a res" where
  "card_get a i = (if i < CARD_MAX_NUM then Inr (a i) else Inl BadAccess)"

definition lero_pgsysml_set_joinrel_size_estimates ::
  "lero_state \<Rightarrow> PlannerInfo \<Rightarrow> real \<Rightarrow> RelOptInfo \<Rightarrow> RelOptInfo \<Rightarrow> (real \<times> lero_state) res" where
  "lero_pgsysml_set_joinrel_size_estimates st rt rows_in outer_rel inner_rel =
     (if record_original_card_phase st
      then (if join_card_num st < CARD_MAX_NUM
            then res_bind (card_set (original_card_list st) (join_card_num st) rows_in) (\<lambda>cards.
                 res_bind (add_cheapest rt outer_rel 0) (\<lambda>n.
                 res_bind (add_cheapest rt inner_rel n) (\<lambda>num_tables.
                 res_bind (card_set (join_input_table_nums st) (join_card_num st) num_tables) (\<lambda>nums.
                   Inr (rows_in,
                        st\<lparr>static_rows := rows_in, original_card_list := cards,
                           join_input_table_nums := nums,
                           join_card_num := join_card_num st + 1\<rparr>)))))
            else Inr (static_rows st, st))
      else (if cur_card_idx st < join_card_num st
            then res_bind (card_get (lero_card_list st) (cur_card_idx st)) (\<lambda>r.
                   Inr (r, st\<lparr>static_rows := r, cur_card_idx := cur_card_idx st + 1\<rparr>))
            else Inr (rows_in, st\<lparr>static_rows := rows_in\<rparr>)))"

text \<open>The arguments of one call of \<^verbatim>\<open>set_joinrel_size_estimates\<close>.\<close>

record est_request =
  er_root :: PlannerInfo
  er_rel :: RelOptInfo
  er_outer :: RelOptInfo
  er_inner :: RelOptInfo
  er_sjinfo :: SpecialJoinInfo
  er_restrictlist :: "RestrictInfo list"

definition own_size :: "selectivities \<Rightarrow> est_request \<Rightarrow> real res" where
  "own_size sel q =
     calc_joinrel_size_estimate sel (er_root q) (er_rel q) (er_outer q) (er_inner q)
       (rel_rows (er_outer q)) (rel_rows (er_inner q)) (er_sjinfo q) (er_restrictlist q)"

text \<open>The result is \<^verbatim>\<open>rel->rows\<close>, the only field that is set.\<close>

definition set_joinrel_size_estimates ::
  "selectivities \<Rightarrow> lero_config \<Rightarrow> lero_state \<Rightarrow> est_request \<Rightarrow> (real \<times> lero_state) res" where
  "set_joinrel_size_estimates sel cfg st q =
     res_bind (own_size sel q) (\<lambda>r.
       if enable_lero cfg
       then lero_pgsysml_set_joinrel_size_estimates st (er_root q) r (er_outer q) (er_inner q)
       else Inr (r, st))"

section \<open>Planning\<close>

datatype 'p planning = Done 'p | Estimate est_request "real \<Rightarrow> 'p planning"

primrec standard_planner ::
  "selectivities \<Rightarrow> lero_config \<Rightarrow> 'p planning \<Rightarrow> lero_state \<Rightarrow> ('p \<times> lero_state) res" where
  "standard_planner sel cfg (Done p) st = Inr (p, st)"
| "standard_planner sel cfg (Estimate q k) st =
     res_bind (set_joinrel_size_estimates sel cfg st q) (\<lambda>(r, st').
       standard_planner sel cfg (k r) st')"

fun swing_loop :: "lero_config \<Rightarrow> nat list \<Rightarrow> lero_state \<Rightarrow> lero_state res" where
  "swing_loop cfg [] st = Inr st"
| "swing_loop cfg (i # is) st =
     res_bind (card_get (join_input_table_nums st) i) (\<lambda>n.
     res_bind (card_get (original_card_list st) i) (\<lambda>c.
     res_bind
       (card_set (lero_card_list st) i
          (if n = lero_subquery_table_num cfg then c * lero_swing_factor cfg else c)) (\<lambda>cards.
       swing_loop cfg is (st\<lparr>lero_card_list := cards\<rparr>))))"

definition lero_pgsysml_hook_planner ::
  "selectivities \<Rightarrow> lero_config \<Rightarrow> 'p planning \<Rightarrow> lero_state \<Rightarrow> ('p \<times> lero_state) res" where
  "lero_pgsysml_hook_planner sel cfg parse st =
     res_bind
       (standard_planner sel cfg parse
          (st\<lparr>record_original_card_phase := True, join_card_num := 0, cur_card_idx := 0\<rparr>))
       (\<lambda>(original_plan, st1).
         res_bind (swing_loop cfg [0..<join_card_num st1] (st1\<lparr>record_original_card_phase := False\<rparr>))
           (standard_planner sel cfg parse))"

text \<open>The hook of an extension, if one is loaded, is an argument.\<close>

definition planner ::
  "selectivities \<Rightarrow> lero_config \<Rightarrow> ('p planning \<Rightarrow> lero_state \<Rightarrow> ('p \<times> lero_state) res) option \<Rightarrow>
   'p planning \<Rightarrow> lero_state \<Rightarrow> ('p \<times> lero_state) res" where
  "planner sel cfg planner_hook parse st =
     (if enable_lero cfg then lero_pgsysml_hook_planner sel cfg parse st
      else case planner_hook of
        Some hook \<Rightarrow> hook parse st
      | None \<Rightarrow> standard_planner sel cfg parse st)"

section \<open>Size estimates stay in range\<close>

lemma rint_bounds:
  assumes "of_int a \<le> x" "x \<le> of_int b"
  shows "of_int a \<le> rint x \<and> rint x \<le> of_int b"
proof -
  define n where "n = \<lfloor>x\<rfloor>"
  have n: "of_int n \<le> x" "x < of_int n + 1" "a \<le> n" "n \<le> b"
    using assms by (simp_all add: n_def le_floor_iff floor_le_iff)
  have "n + 1 \<le> b" if "x - of_int n > 0"
  proof -
    have "of_int n < (of_int b :: real)" using that assms(2) by linarith
    then show ?thesis by simp
  qed
  then show ?thesis using n by (auto simp: rint_def n_def [symmetric] Let_def)
qed

lemma rint_Ints: "rint x \<in> \<int>"
  by (auto simp: rint_def Let_def)

lemma rint_mono:
  assumes "x \<le> y"
  shows "rint x \<le> rint y"
proof (cases "\<lfloor>x\<rfloor> = \<lfloor>y\<rfloor>")
  case True
  then show ?thesis using assms by (auto simp: rint_def Let_def)
next
  case False
  then have "\<lfloor>x\<rfloor> + 1 \<le> \<lfloor>y\<rfloor>" using floor_mono [OF assms] by linarith
  then have "x \<le> of_int \<lfloor>y\<rfloor>" by linarith
  then have "rint x \<le> of_int \<lfloor>y\<rfloor>" using rint_bounds [of "\<lfloor>x\<rfloor>" x "\<lfloor>y\<rfloor>"] by simp
  also have "\<dots> \<le> rint y" using rint_bounds [of "\<lfloor>y\<rfloor>" y "\<lfloor>y\<rfloor> + 1"] by linarith
  finally show ?thesis .
qed

lemma clamp_Num: "clamp_row_est (Num x) = rint (max 1 (min MAXIMUM_ROWCOUNT x))"
proof -
  have "rint (of_int n) = of_int n" for n using rint_bounds [of n "of_int n" n] by simp
  from this [of 1] this [of "10 ^ 100"] show ?thesis
    by (auto simp: clamp_row_est_def MAXIMUM_ROWCOUNT_def max_def min_def)
qed

lemma clamp_row_est_mono: "x \<le> y \<Longrightarrow> clamp_row_est (Num x) \<le> clamp_row_est (Num y)"
  unfolding clamp_Num by (rule rint_mono) (simp add: max_def min_def)

lemma clamp_row_est_range:
  "1 \<le> clamp_row_est x \<and> clamp_row_est x \<le> MAXIMUM_ROWCOUNT \<and> clamp_row_est x \<in> \<int>"
proof (cases x)
  case (Num r)
  show ?thesis unfolding Num clamp_Num
    using rint_bounds [of 1 "max 1 (min MAXIMUM_ROWCOUNT r)" "10 ^ 100"]
    by (auto simp: rint_Ints MAXIMUM_ROWCOUNT_def)
qed (simp add: clamp_row_est_def MAXIMUM_ROWCOUNT_def)

lemma clamp_row_est_ge:
  assumes "\<not> dless x (Num (of_int n))" "of_int n \<le> MAXIMUM_ROWCOUNT"
  shows "of_int n \<le> clamp_row_est x"
proof (cases x)
  case (Num r)
  with assms show ?thesis unfolding Num clamp_Num
    using rint_bounds [of n "max 1 (min MAXIMUM_ROWCOUNT r)" "10 ^ 100"]
    by (auto simp: MAXIMUM_ROWCOUNT_def)
qed (use assms in \<open>simp add: clamp_row_est_def\<close>)

lemma calc_joinrel_cases:
  "(\<exists>x. calc_joinrel_size_estimate sel rt rel ou inn orows irows sj cl = Inr (clamp_row_est x)) \<or>
   calc_joinrel_size_estimate sel rt rel ou inn orows irows sj cl = Inl (Elog ''unrecognized join type'')"
  by (auto simp: calc_joinrel_size_estimate_def Let_def split: JoinType.splits prod.splits)

section \<open>Counting tables\<close>

text \<open>The scans of a path tree made of scans, joins and the nodes Lero looks through.\<close>

fun lero_tables :: "path \<Rightarrow> path_info list option" where
  "lero_tables (BasePath pinf) = (if lero_action_of pinf = LeroTable then Some [pinf] else None)"
| "lero_tables (SubPath pinf sub) =
     (case lero_action_of pinf of
        LeroTable \<Rightarrow> Some [pinf] | LeroSub \<Rightarrow> lero_tables sub | _ \<Rightarrow> None)"
| "lero_tables (JoinPath pinf outerp innerp) =
     (case lero_action_of pinf of
        LeroTable \<Rightarrow> Some [pinf]
      | LeroJoin \<Rightarrow>
          (case (lero_tables innerp, lero_tables outerp) of
             (Some is, Some os) \<Rightarrow> Some (is @ os) | _ \<Rightarrow> None)
      | _ \<Rightarrow> None)"

lemma add_join_input_tables_counts:
  assumes "lero_tables p = Some ts"
    "\<forall>t\<in>set ts. 1 \<le> relid (parent t) \<and> relid (parent t) \<le> length (rtable_alias rt)"
  shows "add_join_input_tables rt p num = Inr (num + int (length ts))"
  using assms
proof (induction p arbitrary: ts num)
  case (BasePath p)
  then show ?case by (auto simp: count_table_def split: if_splits)
next
  case (SubPath p sub)
  then show ?case by (auto simp: count_table_def split: lero_action.splits)
next
  case (JoinPath p outerp innerp)
  then show ?case
    by (auto simp: count_table_def split: lero_action.splits option.splits)
qed

section \<open>Replay\<close>

text \<open>The run that gives every join its own estimate, with the estimates in the order asked for.\<close>

primrec own_run ::
  "selectivities \<Rightarrow> 'p planning \<Rightarrow> ((real \<times> est_request) list \<times> 'p) res" where
  "own_run sel (Done p) = Inr ([], p)"
| "own_run sel (Estimate q k) =
     res_bind (own_size sel q) (\<lambda>r. res_bind (own_run sel (k r)) (\<lambda>(t, p). Inr ((r, q) # t, p)))"

text \<open>The run whose first estimates are replaced by the given ones.\<close>

primrec answer_with :: "selectivities \<Rightarrow> 'p planning \<Rightarrow> real list \<Rightarrow> 'p res" where
  "answer_with sel (Done p) rs = Inr p"
| "answer_with sel (Estimate q k) rs =
     res_bind (own_size sel q) (\<lambda>own.
       case rs of [] \<Rightarrow> answer_with sel (k own) [] | r # rs' \<Rightarrow> answer_with sel (k r) rs')"

definition table_count :: "est_request \<Rightarrow> int res" where
  "table_count q =
     res_bind (add_cheapest (er_root q) (er_outer q) 0) (add_cheapest (er_root q) (er_inner q))"

text \<open>Lero's change of one estimate.\<close>

definition swing :: "lero_config \<Rightarrow> real \<times> est_request \<Rightarrow> real" where
  "swing cfg = (\<lambda>(r, q).
     if table_count q = Inr (lero_subquery_table_num cfg) then r * lero_swing_factor cfg else r)"

definition countable_tables :: "est_request \<Rightarrow> bool" where
  "countable_tables q = (\<exists>n. table_count q = Inr n)"

definition plan_of :: "('p \<times> 's) res \<Rightarrow> 'p res" where
  "plan_of r = (case r of Inl e \<Rightarrow> Inl e | Inr x \<Rightarrow> Inr (fst x))"

lemma plan_of_simps [simp]: "plan_of (Inl e) = Inl e" "plan_of (Inr x) = Inr (fst x)"
  by (simp_all add: plan_of_def)

lemma answer_with_own: "own_run sel P = Inr (t, p) \<Longrightarrow> answer_with sel P (map fst t) = Inr p"
  by (induction P arbitrary: t) (auto simp: res_bind_eq_Inr)

lemma disabled_planner:
  assumes "\<not> enable_lero cfg" "own_run sel P = Inr (t, p)"
  shows "standard_planner sel cfg P st = Inr (p, st)"
  using assms(2)
  by (induction P arbitrary: t) (auto simp: res_bind_eq_Inr set_joinrel_size_estimates_def assms(1))

text \<open>The recording run, from any position of the arrays.\<close>

lemma recording_run:
  assumes "own_run sel P = Inr (t, p)" "\<forall>(r, q)\<in>set t. countable_tables q"
    "enable_lero cfg" "record_original_card_phase st" "join_card_num st + length t \<le> CARD_MAX_NUM"
  shows "\<exists>st'. standard_planner sel cfg P st = Inr (p, st') \<and>
    join_card_num st' = join_card_num st + length t \<and> cur_card_idx st' = cur_card_idx st \<and>
    (\<forall>i. original_card_list st' i =
       (if join_card_num st \<le> i \<and> i < join_card_num st' then fst (t ! (i - join_card_num st))
        else original_card_list st i)) \<and>
    (\<forall>i. join_input_table_nums st' i =
       (if join_card_num st \<le> i \<and> i < join_card_num st'
        then projr (table_count (snd (t ! (i - join_card_num st)))) else join_input_table_nums st i))"
  using assms
proof (induction P arbitrary: t st)
  case (Done p')
  then show ?case by simp
next
  case (Estimate q k)
  then obtain r t' where r: "own_size sel q = Inr r" "own_run sel (k r) = Inr (t', p)" "t = (r, q) # t'"
    by (auto simp: res_bind_eq_Inr)
  from Estimate.prems(2) r(3) obtain n where n: "table_count q = Inr n"
    by (auto simp: countable_tables_def)
  define st1 where "st1 = st\<lparr>static_rows := r,
      original_card_list := (original_card_list st)(join_card_num st := r),
      join_input_table_nums := (join_input_table_nums st)(join_card_num st := n),
      join_card_num := join_card_num st + 1\<rparr>"
  have lt: "join_card_num st < CARD_MAX_NUM" using Estimate.prems(5) r(3) by simp
  have step: "set_joinrel_size_estimates sel cfg st q = Inr (r, st1)"
    using n lt Estimate.prems(3,4) r(1)
    by (auto simp: set_joinrel_size_estimates_def lero_pgsysml_set_joinrel_size_estimates_def
        card_set_def table_count_def st1_def res_bind_eq_Inr)
  have st1: "record_original_card_phase st1" "join_card_num st1 = Suc (join_card_num st)"
    "cur_card_idx st1 = cur_card_idx st" using Estimate.prems(4) by (simp_all add: st1_def)
  obtain st' where st': "standard_planner sel cfg (k r) st1 = Inr (p, st')"
    "join_card_num st' = join_card_num st1 + length t'" "cur_card_idx st' = cur_card_idx st1"
    "\<forall>i. original_card_list st' i =
       (if join_card_num st1 \<le> i \<and> i < join_card_num st' then fst (t' ! (i - join_card_num st1))
        else original_card_list st1 i)"
    "\<forall>i. join_input_table_nums st' i =
       (if join_card_num st1 \<le> i \<and> i < join_card_num st'
        then projr (table_count (snd (t' ! (i - join_card_num st1)))) else join_input_table_nums st1 i)"
    using Estimate.IH [of "k r" t' st1] r(2,3) Estimate.prems(2,3,5) st1 by auto
  have num: "join_card_num st' = join_card_num st + length t" using st'(2) st1 r(3) by simp
  have idx: "t ! (i - join_card_num st) = t' ! (i - join_card_num st1)" if "join_card_num st1 \<le> i" for i
    using that r(3) st1(2) by (simp add: Suc_diff_le [symmetric] nth_Cons' Suc_le_eq)
  have "original_card_list st' i =
       (if join_card_num st \<le> i \<and> i < join_card_num st' then fst (t ! (i - join_card_num st))
        else original_card_list st i)" for i
  proof (cases "i = join_card_num st")
    case True
    then show ?thesis using st'(2,4) st1(2) r(3) by (simp add: st1_def)
  next
    case False
    then have "join_card_num st \<le> i \<longleftrightarrow> join_card_num st1 \<le> i" using st1(2) by auto
    then show ?thesis using st'(4) idx [of i] False by (auto simp: st1_def)
  qed
  moreover have "join_input_table_nums st' i =
       (if join_card_num st \<le> i \<and> i < join_card_num st'
        then projr (table_count (snd (t ! (i - join_card_num st)))) else join_input_table_nums st i)" for i
  proof (cases "i = join_card_num st")
    case True
    then show ?thesis using st'(2,5) st1(2) r(3) n by (simp add: st1_def)
  next
    case False
    then have "join_card_num st \<le> i \<longleftrightarrow> join_card_num st1 \<le> i" using st1(2) by auto
    then show ?thesis using st'(5) idx [of i] False by (auto simp: st1_def)
  qed
  ultimately show ?case using step st'(1,3) st1(3) num by auto
qed


lemma swing_loop_spec:
  assumes "\<forall>i\<in>set is. i < CARD_MAX_NUM"
  shows "\<exists>cards. swing_loop cfg is st = Inr (st\<lparr>lero_card_list := cards\<rparr>) \<and>
    (\<forall>i\<in>set is. cards i =
       (if join_input_table_nums st i = lero_subquery_table_num cfg
        then original_card_list st i * lero_swing_factor cfg else original_card_list st i)) \<and>
    (\<forall>i. i \<notin> set is \<longrightarrow> cards i = lero_card_list st i)"
  using assms
proof (induction "is" arbitrary: st)
  case Nil
  then show ?case by (intro exI [of _ "lero_card_list st"]) simp
next
  case (Cons i "is")
  define v where "v = (if join_input_table_nums st i = lero_subquery_table_num cfg
    then original_card_list st i * lero_swing_factor cfg else original_card_list st i)"
  define st1 where "st1 = st\<lparr>lero_card_list := (lero_card_list st)(i := v)\<rparr>"
  have step: "swing_loop cfg (i # is) st = swing_loop cfg is st1"
    using Cons.prems by (simp add: card_get_def card_set_def st1_def v_def)
  obtain cards where cards: "swing_loop cfg is st1 = Inr (st1\<lparr>lero_card_list := cards\<rparr>)"
    "\<forall>j\<in>set is. cards j =
       (if join_input_table_nums st1 j = lero_subquery_table_num cfg
        then original_card_list st1 j * lero_swing_factor cfg else original_card_list st1 j)"
    "\<forall>j. j \<notin> set is \<longrightarrow> cards j = lero_card_list st1 j"
    using Cons.IH [of st1] Cons.prems by auto
  show ?case
  proof (intro exI [of _ cards] conjI)
    show "swing_loop cfg (i # is) st = Inr (st\<lparr>lero_card_list := cards\<rparr>)"
      using step cards(1) by (simp add: st1_def)
    show "\<forall>j\<in>set (i # is). cards j =
       (if join_input_table_nums st j = lero_subquery_table_num cfg
        then original_card_list st j * lero_swing_factor cfg else original_card_list st j)"
      using cards(2,3) by (cases "i \<in> set is") (auto simp: st1_def v_def)
    show "\<forall>j. j \<notin> set (i # is) \<longrightarrow> cards j = lero_card_list st j"
      using cards(3) by (simp add: st1_def)
  qed
qed

text \<open>The replaying run hands out the rest of the changed list, then the estimates themselves.\<close>

lemma replaying_run:
  assumes "enable_lero cfg" "\<not> record_original_card_phase st" "join_card_num st \<le> CARD_MAX_NUM"
  shows "plan_of (standard_planner sel cfg P st) =
    answer_with sel P (map (lero_card_list st) [cur_card_idx st..<join_card_num st])"
  using assms
proof (induction P arbitrary: st)
  case (Done p)
  then show ?case by simp
next
  case (Estimate q k)
  show ?case
  proof (cases "own_size sel q")
    case (Inl e)
    then show ?thesis by (simp add: set_joinrel_size_estimates_def)
  next
    case own: (Inr own)
    show ?thesis
    proof (cases "cur_card_idx st < join_card_num st")
      case True
      define r where "r = lero_card_list st (cur_card_idx st)"
      define st1 where "st1 = st\<lparr>static_rows := r, cur_card_idx := cur_card_idx st + 1\<rparr>"
      have "set_joinrel_size_estimates sel cfg st q = Inr (r, st1)"
        using True Estimate.prems own
        by (simp add: set_joinrel_size_estimates_def lero_pgsysml_set_joinrel_size_estimates_def
            card_get_def st1_def r_def)
      moreover have "[cur_card_idx st..<join_card_num st] =
          cur_card_idx st # [cur_card_idx st1..<join_card_num st1]"
        using True by (simp add: st1_def upt_conv_Cons)
      moreover have "plan_of (standard_planner sel cfg (k r) st1) =
          answer_with sel (k r) (map (lero_card_list st1) [cur_card_idx st1..<join_card_num st1])"
        using Estimate.prems by (intro Estimate.IH) (simp_all add: st1_def)
      ultimately show ?thesis using own by (simp add: st1_def r_def)
    next
      case False
      define st1 where "st1 = st\<lparr>static_rows := own\<rparr>"
      have "set_joinrel_size_estimates sel cfg st q = Inr (own, st1)"
        using False Estimate.prems own
        by (simp add: set_joinrel_size_estimates_def lero_pgsysml_set_joinrel_size_estimates_def st1_def)
      moreover have "plan_of (standard_planner sel cfg (k own) st1) =
          answer_with sel (k own) (map (lero_card_list st1) [cur_card_idx st1..<join_card_num st1])"
        using Estimate.prems by (intro Estimate.IH) (simp_all add: st1_def)
      ultimately show ?thesis using own False by (simp add: st1_def)
    qed
  qed
qed

lemma hook_plan:
  assumes "enable_lero cfg" "own_run sel P = Inr (t, p)" "\<forall>(r, q)\<in>set t. countable_tables q"
    "length t \<le> CARD_MAX_NUM"
  shows "plan_of (lero_pgsysml_hook_planner sel cfg P st) = answer_with sel P (map (swing cfg) t)"
proof -
  define st0 where
    "st0 = st\<lparr>record_original_card_phase := True, join_card_num := 0, cur_card_idx := 0\<rparr>"
  have st0: "record_original_card_phase st0" "join_card_num st0 = 0" "cur_card_idx st0 = 0"
    by (simp_all add: st0_def)
  from recording_run [OF assms(2,3,1) st0(1)] st0 assms(4) obtain st1 where
    st1: "standard_planner sel cfg P st0 = Inr (p, st1)" "join_card_num st1 = length t"
      "cur_card_idx st1 = 0"
      "\<And>i. i < length t \<Longrightarrow> original_card_list st1 i = fst (t ! i)"
      "\<And>i. i < length t \<Longrightarrow> join_input_table_nums st1 i = projr (table_count (snd (t ! i)))"
    by auto
  define st2 where "st2 = st1\<lparr>record_original_card_phase := False\<rparr>"
  have "\<forall>i\<in>set [0..<join_card_num st1]. i < CARD_MAX_NUM" using st1(2) assms(4) by auto
  from swing_loop_spec [OF this, of cfg st2] obtain cards where
    cards: "swing_loop cfg [0..<join_card_num st1] st2 = Inr (st2\<lparr>lero_card_list := cards\<rparr>)"
      "\<forall>i\<in>set [0..<join_card_num st1]. cards i =
         (if join_input_table_nums st2 i = lero_subquery_table_num cfg
          then original_card_list st2 i * lero_swing_factor cfg else original_card_list st2 i)"
    by blast
  have swung: "cards i = swing cfg (t ! i)" if "i < length t" for i
  proof -
    obtain r q where rq: "t ! i = (r, q)" by fastforce
    with that have "(r, q) \<in> set t" by (metis nth_mem)
    with assms(3) obtain n where "table_count q = Inr n" by (auto simp: countable_tables_def)
    then show ?thesis using cards(2) st1(2,4,5) that rq by (simp add: st2_def swing_def)
  qed
  have "map cards [0..<length t] = map (swing cfg) t"
    by (rule nth_equalityI) (simp_all add: swung)
  moreover have "plan_of (standard_planner sel cfg P (st2\<lparr>lero_card_list := cards\<rparr>)) =
      answer_with sel P (map cards [0..<length t])"
    using replaying_run [of cfg "st2\<lparr>lero_card_list := cards\<rparr>" sel P] assms(1,4) st1(2,3)
    by (simp add: st2_def)
  ultimately show ?thesis using st1(1) cards(1)
    by (simp add: lero_pgsysml_hook_planner_def st0_def [symmetric] st2_def [symmetric])
qed

section \<open>The arrays are never overrun\<close>

definition safe_res :: "'a res \<Rightarrow> bool" where
  "safe_res r = (r \<noteq> Inl BadAccess)"

lemma safe_res_bind: "safe_res r \<Longrightarrow> (\<And>x. r = Inr x \<Longrightarrow> safe_res (f x)) \<Longrightarrow> safe_res (res_bind r f)"
  by (cases r) (auto simp: safe_res_def)

lemma own_size_safe: "safe_res (own_size sel q)"
  using calc_joinrel_cases [of sel "er_root q" "er_rel q" "er_outer q" "er_inner q"
      "rel_rows (er_outer q)" "rel_rows (er_inner q)" "er_sjinfo q" "er_restrictlist q"]
  by (auto simp: own_size_def safe_res_def)

text \<open>Every join the run can ask for, whatever the answers, has inputs Lero can walk safely.\<close>

primrec safe_requests :: "'p planning \<Rightarrow> bool" where
  "safe_requests (Done p) \<longleftrightarrow> True"
| "safe_requests (Estimate q k) \<longleftrightarrow> safe_res (table_count q) \<and> (\<forall>r. safe_requests (k r))"

lemma set_joinrel_safe:
  assumes "safe_res (table_count q)" "join_card_num st \<le> CARD_MAX_NUM"
  shows "safe_res (set_joinrel_size_estimates sel cfg st q) \<and>
    (\<forall>r st'. set_joinrel_size_estimates sel cfg st q = Inr (r, st') \<longrightarrow> join_card_num st' \<le> CARD_MAX_NUM)"
proof (cases "own_size sel q")
  case (Inl e)
  then show ?thesis using own_size_safe [of sel q] by (simp add: set_joinrel_size_estimates_def safe_res_def)
next
  case (Inr own)
  have count: "res_bind (add_cheapest (er_root q) (er_outer q) 0)
      (\<lambda>n. res_bind (add_cheapest (er_root q) (er_inner q) n) f) = res_bind (table_count q) f" for f
    by (cases "add_cheapest (er_root q) (er_outer q) 0") (simp_all add: table_count_def)
  show ?thesis
    using assms Inr
    by (cases "table_count q")
      (auto simp: set_joinrel_size_estimates_def lero_pgsysml_set_joinrel_size_estimates_def
        card_set_def card_get_def count safe_res_def)
qed

lemma standard_planner_safe:
  assumes "safe_requests P" "join_card_num st \<le> CARD_MAX_NUM"
  shows "safe_res (standard_planner sel cfg P st) \<and>
    (\<forall>p st'. standard_planner sel cfg P st = Inr (p, st') \<longrightarrow> join_card_num st' \<le> CARD_MAX_NUM)"
  using assms
proof (induction P arbitrary: st)
  case (Done p)
  then show ?case by (simp add: safe_res_def)
next
  case (Estimate q k)
  note step = set_joinrel_safe [of q st sel cfg]
  show ?case
  proof (cases "set_joinrel_size_estimates sel cfg st q")
    case (Inl e)
    then show ?thesis using step Estimate.prems by (simp add: safe_res_def)
  next
    case (Inr x)
    then obtain r st1 where x: "set_joinrel_size_estimates sel cfg st q = Inr (r, st1)"
      by (cases x) auto
    with step Estimate.prems have "join_card_num st1 \<le> CARD_MAX_NUM" by auto
    then show ?thesis using Estimate.IH [of "k r" st1] Estimate.prems x by simp
  qed
qed


lemma add_join_input_tables_fails: "lero_tables p = None \<Longrightarrow> \<exists>e. add_join_input_tables rt p num = Inl e"
proof (induction p arbitrary: num)
  case (BasePath p)
  then show ?case by (cases "lero_action_of p") auto
next
  case (SubPath p sub)
  then show ?case by (cases "lero_action_of p") auto
next
  case (JoinPath p outerp innerp)
  show ?case
  proof (cases "lero_action_of p")
    case LeroJoin
    show ?thesis
    proof (cases "lero_tables innerp")
      case None
      then show ?thesis using JoinPath.IH(2) [of num] LeroJoin by auto
    next
      case (Some ts)
      then have "lero_tables outerp = None" using JoinPath.prems LeroJoin by (simp split: option.splits)
      then show ?thesis using JoinPath.IH(1) LeroJoin
        by (cases "add_join_input_tables rt innerp num") auto
    qed
  qed (use JoinPath.prems in auto)
qed

section \<open>Correctness\<close>

definition sample_selec :: selectivities where
  "sample_selec = \<lparr>get_foreign_key_join_selectivity = (\<lambda>rt os is sj cl. (Num 1, cl)),
     clauselist_selectivity = (\<lambda>rt cl jt sj. Num 1)\<rparr>"

definition sample_table :: "nat \<Rightarrow> real \<Rightarrow> RelOptInfo" where
  "sample_table i n = sample_rel\<lparr>rel_rows := n, cheapest_total_path := Some (sample_scan i)\<rparr>"

definition sample_request :: est_request where
  "sample_request = \<lparr>er_root = sample_planner, er_rel = sample_rel, er_outer = sample_table 1 4,
     er_inner = sample_table 2 5,
     er_sjinfo = \<lparr>min_lefthand = None, min_righthand = None, syn_righthand = None, jointype = JOIN_INNER, ojrelid = 0,
       commute_above_l = None, commute_below_l = None, lhs_strict = False\<rparr>,
     er_restrictlist = []\<rparr>"

definition sample_config :: "real \<Rightarrow> lero_config" where
  "sample_config f = \<lparr>enable_lero = True, lero_swing_factor = f, lero_subquery_table_num = 2\<rparr>"

definition sample_lero :: lero_state where
  "sample_lero = \<lparr>record_original_card_phase = False, join_card_num = 0, cur_card_idx = 0,
     original_card_list = (\<lambda>_. 0), lero_card_list = (\<lambda>_. 0), join_input_table_nums = (\<lambda>_. 0),
     static_rows = 0\<rparr>"

lemma sample_request_facts:
  "own_size sample_selec sample_request = Inr 20"
  "table_count sample_request = Inr 2"
  by (simp_all add: own_size_def calc_joinrel_size_estimate_def sample_selec_def sample_request_def
      sample_table_def IS_OUTER_JOIN_def clamp_row_est_def MAXIMUM_ROWCOUNT_def rint_def
      table_count_def add_cheapest_def sample_scan_def sample_path_def lero_action_of_def
      count_table_def sample_planner_def)

text \<open>An estimate is a whole number between 1 and the maximal row count, also where the computation gives
  no number; only the join types that cannot reach this code are an error.\<close>

lemma joinrel_size_in_range:
  "case calc_joinrel_size_estimate sel rt rel outer_rel inner_rel outer_rows inner_rows sjinfo clauses of
     Inl e \<Rightarrow> e = Elog ''unrecognized join type'' \<and>
       jointype sjinfo \<in> {JOIN_RIGHT, JOIN_RIGHT_ANTI, JOIN_UNIQUE_OUTER, JOIN_UNIQUE_INNER}
   | Inr n \<Rightarrow> 1 \<le> n \<and> n \<le> MAXIMUM_ROWCOUNT \<and> n \<in> \<int> \<and>
       jointype sjinfo \<in> {JOIN_INNER, JOIN_LEFT, JOIN_FULL, JOIN_SEMI, JOIN_ANTI}"
  using clamp_row_est_range
  by (auto simp: calc_joinrel_size_estimate_def Let_def split: JoinType.splits prod.splits)

text \<open>Selectivities are probabilities.\<close>

definition probability :: "double \<Rightarrow> bool" where
  "probability d \<longleftrightarrow> (\<exists>x. d = Num x \<and> 0 \<le> x \<and> x \<le> 1)"

definition selectivities_ok :: "selectivities \<Rightarrow> bool" where
  "selectivities_ok sel \<longleftrightarrow>
     (\<forall>rt ou inn sj cl. probability (fst (get_foreign_key_join_selectivity sel rt ou inn sj cl))) \<and>
     (\<forall>rt cl jt sj. probability (clauselist_selectivity sel rt cl jt sj))"

text \<open>The number that is clamped, for selectivities of the foreign keys, the join clauses and the
  pushed-down clauses.\<close>

definition raw_size :: "JoinType \<Rightarrow> real \<Rightarrow> real \<Rightarrow> real \<Rightarrow> real \<Rightarrow> real \<Rightarrow> real" where
  "raw_size jt f j p orows irows =
     (let n = orows * irows * f * j in
      case jt of
        JOIN_INNER \<Rightarrow> n
      | JOIN_LEFT \<Rightarrow> max n orows * p
      | JOIN_FULL \<Rightarrow> max (max n orows) irows * p
      | JOIN_SEMI \<Rightarrow> orows * f * j
      | _ \<Rightarrow> orows * (1 - f * j) * p)"

lemma raw_size_mono:
  assumes "0 \<le> f" "f \<le> 1" "0 \<le> j" "j \<le> 1" "0 \<le> p" "0 \<le> o1" "o1 \<le> o2" "0 \<le> i1" "i1 \<le> i2"
  shows "raw_size jt f j p o1 i1 \<le> raw_size jt f j p o2 i2"
proof -
  have n: "o1 * i1 * f * j \<le> o2 * i2 * f * j" using assms by (intro mult_right_mono mult_mono) simp_all
  have s: "o1 * f * j \<le> o2 * f * j" using assms by (intro mult_right_mono) simp_all
  have "f * j \<le> 1" using assms by (simp add: mult_le_one)
  then have a: "o1 * (1 - f * j) * p \<le> o2 * (1 - f * j) * p" using assms by (intro mult_right_mono) simp_all
  have m: "max (o1 * i1 * f * j) o1 \<le> max (o2 * i2 * f * j) o2" using n assms(7) by (rule max.mono)
  note mult_right_mono [OF m assms(5)] mult_right_mono [OF max.mono [OF m assms(9)] assms(5)]
  then show ?thesis using n s a by (cases jt) (simp_all add: raw_size_def Let_def)
qed

lemma calc_joinrel_raw:
  assumes "selectivities_ok sel"
  shows "\<exists>f j p. 0 \<le> f \<and> f \<le> 1 \<and> 0 \<le> j \<and> j \<le> 1 \<and> 0 \<le> p \<and>
    (\<forall>orows irows. calc_joinrel_size_estimate sel rt rel outer_rel inner_rel orows irows sj cl =
       (if jointype sj \<in> {JOIN_INNER, JOIN_LEFT, JOIN_FULL, JOIN_SEMI, JOIN_ANTI}
        then Inr (clamp_row_est (Num (raw_size (jointype sj) f j p orows irows)))
        else Inl (Elog ''unrecognized join type'')))"
proof -
  obtain f cs where fk: "get_foreign_key_join_selectivity sel rt (relids outer_rel) (relids inner_rel) sj cl = (Num f, cs)"
      "0 \<le> f" "f \<le> 1"
    using assms unfolding selectivities_ok_def probability_def by (metis prod.collapse)
  have c: "\<exists>j. clauselist_selectivity sel rt qs (jointype sj) sj = Num j \<and> 0 \<le> j \<and> j \<le> 1" for qs
    using assms unfolding selectivities_ok_def probability_def by blast
  obtain j where j: "clauselist_selectivity sel rt (if IS_OUTER_JOIN (jointype sj)
      then filter (\<lambda>r. \<not> RINFO_IS_PUSHED_DOWN r (relids rel)) cs else cs) (jointype sj) sj = Num j" "0 \<le> j" "j \<le> 1"
    using c by blast
  obtain p where p: "clauselist_selectivity sel rt (filter (\<lambda>r. RINFO_IS_PUSHED_DOWN r (relids rel)) cs)
      (jointype sj) sj = Num p" "0 \<le> p"
    using c by blast
  have cut: "(if dless (Num x) (Num y) then Num y else Num x) = Num (max x y)" for x y by simp
  have "calc_joinrel_size_estimate sel rt rel outer_rel inner_rel orows irows sj cl =
      (if jointype sj \<in> {JOIN_INNER, JOIN_LEFT, JOIN_FULL, JOIN_SEMI, JOIN_ANTI}
       then Inr (clamp_row_est (Num (raw_size (jointype sj) f j p orows irows)))
       else Inl (Elog ''unrecognized join type''))" for orows irows
    unfolding calc_joinrel_size_estimate_def Let_def fk(1) prod.case j(1) p(1) dmul.simps cut
    by (cases "jointype sj") (simp_all add: IS_OUTER_JOIN_def raw_size_def)
  then show ?thesis using fk(2,3) j(2,3) p(2) by blast
qed

text \<open>The estimate of a join grows with the sizes of its inputs.\<close>

lemma calc_joinrel_size_mono:
  assumes "selectivities_ok sel" "0 \<le> o1" "o1 \<le> o2" "0 \<le> i1" "i1 \<le> i2"
    and "calc_joinrel_size_estimate sel rt rel outer_rel inner_rel o2 i2 sj cl = Inr n"
  shows "\<exists>m. calc_joinrel_size_estimate sel rt rel outer_rel inner_rel o1 i1 sj cl = Inr m \<and> m \<le> n"
proof -
  obtain f j p where s: "0 \<le> f" "f \<le> 1" "0 \<le> j" "j \<le> 1" "0 \<le> p"
    and c: "\<And>orows irows. calc_joinrel_size_estimate sel rt rel outer_rel inner_rel orows irows sj cl =
       (if jointype sj \<in> {JOIN_INNER, JOIN_LEFT, JOIN_FULL, JOIN_SEMI, JOIN_ANTI}
        then Inr (clamp_row_est (Num (raw_size (jointype sj) f j p orows irows)))
        else Inl (Elog ''unrecognized join type''))"
    using calc_joinrel_raw [OF assms(1), of rt rel outer_rel inner_rel sj cl] by blast
  have "clamp_row_est (Num (raw_size (jointype sj) f j p o1 i1)) \<le> clamp_row_est (Num (raw_size (jointype sj) f j p o2 i2))"
    by (intro clamp_row_est_mono raw_size_mono s assms(2-5))
  then show ?thesis using assms(6) unfolding c by (auto split: if_splits)
qed



text \<open>Outer joins keep their rows: when no pushed-down clause filters it, a left join is estimated
  at no less than its outer input, and a full join at no less than either input.\<close>

theorem outer_join_size_at_least_inputs:
  assumes "jointype sjinfo \<in> {JOIN_LEFT, JOIN_FULL}"
    and "\<And>cl. clauselist_selectivity sel rt (filter (\<lambda>r. RINFO_IS_PUSHED_DOWN r (relids rel)) cl)
           (jointype sjinfo) sjinfo = Num 1"
    and "real_of_int outer_rows \<le> MAXIMUM_ROWCOUNT" "real_of_int inner_rows \<le> MAXIMUM_ROWCOUNT"
  shows "\<exists>n. calc_joinrel_size_estimate sel rt rel outer_rel inner_rel outer_rows inner_rows sjinfo clauses
      = Inr n \<and> outer_rows \<le> n \<and> (if jointype sjinfo = JOIN_FULL then inner_rows \<le> n else True)"
proof -
  obtain f cl where fk: "get_foreign_key_join_selectivity sel rt (relids outer_rel) (relids inner_rel)
      sjinfo clauses = (f, cl)" by fastforce
  define x where "x = dmul (dmul (dmul (Num outer_rows) (Num inner_rows)) f) (clauselist_selectivity sel rt
    (filter (\<lambda>r. \<not> RINFO_IS_PUSHED_DOWN r (relids rel)) cl) (jointype sjinfo) sjinfo)"
  define y where "y = (if dless x (Num outer_rows) then Num outer_rows else x)"
  define z where "z = (if dless y (Num inner_rows) then Num inner_rows else y)"
  have one: "dmul d (Num 1) = d" for d by (cases d) simp_all
  have y: "\<not> dless y (Num outer_rows)" by (simp add: y_def)
  have z1: "\<not> dless z (Num inner_rows)" by (simp add: z_def)
  have z2: "\<not> dless z (Num outer_rows)" using y by (cases y) (auto simp: z_def)
  from assms(1) consider "jointype sjinfo = JOIN_LEFT" | "jointype sjinfo = JOIN_FULL" by blast
  then show ?thesis
  proof cases
    case 1
    have "calc_joinrel_size_estimate sel rt rel outer_rel inner_rel outer_rows inner_rows sjinfo clauses
        = Inr (clamp_row_est y)"
      using fk assms(2) [of cl] 1
      by (simp add: calc_joinrel_size_estimate_def IS_OUTER_JOIN_def one Let_def x_def y_def del: dless.simps dmul.simps)
    then show ?thesis using clamp_row_est_ge [OF y assms(3)] 1 by simp
  next
    case 2
    have "calc_joinrel_size_estimate sel rt rel outer_rel inner_rel outer_rows inner_rows sjinfo clauses
        = Inr (clamp_row_est z)"
      using fk assms(2) [of cl] 2
      by (simp add: calc_joinrel_size_estimate_def IS_OUTER_JOIN_def one Let_def x_def y_def z_def
          del: dless.simps dmul.simps)
    then show ?thesis using clamp_row_est_ge [OF z1 assms(4)] clamp_row_est_ge [OF z2 assms(3)] by simp
  qed
qed

theorem outer_join_size_at_least_inputs_witness:
  "\<exists>n. calc_joinrel_size_estimate sample_selec sample_planner sample_rel sample_rel sample_rel
      (real_of_int 4) (real_of_int 7) \<lparr>min_lefthand = None, min_righthand = None, syn_righthand = None, jointype = JOIN_FULL, ojrelid = 0,
       commute_above_l = None, commute_below_l = None, lhs_strict = False\<rparr>
      [] = Inr n \<and> 7 \<le> n"
proof -
  define sj where "sj = \<lparr>min_lefthand = None, min_righthand = None, syn_righthand = None, jointype = JOIN_FULL, ojrelid = 0,
       commute_above_l = None, commute_below_l = None, lhs_strict = False\<rparr>"
  have "\<exists>n. calc_joinrel_size_estimate sample_selec sample_planner sample_rel sample_rel sample_rel
      (real_of_int 4) (real_of_int 7) sj [] = Inr n \<and> real_of_int 4 \<le> n \<and>
      (if jointype sj = JOIN_FULL then real_of_int 7 \<le> n else True)"
    by (rule outer_join_size_at_least_inputs)
      (simp_all add: sj_def sample_selec_def MAXIMUM_ROWCOUNT_def)
  then show ?thesis by (auto simp: sj_def)
qed

text \<open>C30. Lero's table count: on a path tree of scans, joins and looked-through nodes the count goes up
  by the number of scans; any other tree is an error.\<close>

theorem add_join_input_tables_correct:
  "case lero_tables p of
     None \<Rightarrow> \<exists>e. add_join_input_tables rt p num = Inl e
   | Some ts \<Rightarrow>
       list_all (\<lambda>t. 1 \<le> relid (parent t) \<and> relid (parent t) \<le> length (rtable_alias rt)) ts \<longrightarrow>
       add_join_input_tables rt p num = Inr (num + int (length ts))"
  using add_join_input_tables_fails add_join_input_tables_counts
  by (auto split: option.splits simp: list_all_iff)

theorem add_join_input_tables_correct_witness:
  "add_join_input_tables sample_planner sample_join 0 = Inr 2"
proof -
  have "lero_tables sample_join = Some [info (sample_scan 2), info (sample_scan 1)]"
    by (simp add: sample_join_def sample_scan_def sample_path_def lero_action_of_def)
  with add_join_input_tables_correct [where p = sample_join and rt = sample_planner and num = 0] show ?thesis
    by (simp add: sample_scan_def sample_path_def sample_planner_def)
qed

text \<open>C3. Lero's planner: the plan is the one a run reaches when its estimates, in the order it asks for
  them, are answered by the recorded ones, changed by the swing factor exactly where the join has
  the chosen number of input tables, and by fresh ones after the recorded ones are used up.\<close>

theorem lero_planner_replays:
  assumes "enable_lero cfg" and "own_run sel P = Inr (t, p)"
    and "list_all (\<lambda>(r, q). countable_tables q) t" and "length t \<le> CARD_MAX_NUM"
  shows "plan_of (planner sel cfg hook P st) = answer_with sel P (map (swing cfg) t)"
  using hook_plan [OF assms(1,2) _ assms(4)] assms(1,3) by (auto simp: planner_def list_all_iff)

theorem lero_planner_replays_witness:
  "plan_of (planner sample_selec (sample_config (1 / 10)) None (Estimate sample_request Done) sample_lero) = Inr 2"
proof -
  have "own_run sample_selec (Estimate sample_request Done) = Inr ([(20, sample_request)], 20)"
    by (simp add: sample_request_facts)
  from lero_planner_replays [OF _ this, of "sample_config (1 / 10)" None sample_lero] show ?thesis
    by (simp add: sample_config_def countable_tables_def sample_request_facts CARD_MAX_NUM_def swing_def)
qed

text \<open>C28. Swing factor 1 changes nothing: for a query whose planning asks for at most 25000 join sizes, all
  of joins whose inputs Lero can count the tables of, the planner with Lero returns the plan of the
  planner without it.\<close>

theorem lero_neutral_factor:
  assumes "enable_lero cfg" and "lero_swing_factor cfg = 1" and "\<not> enable_lero plain"
    and "own_run sel P = Inr (t, p)"
    and "list_all (\<lambda>(r, q). countable_tables q) t" and "length t \<le> CARD_MAX_NUM"
  shows "plan_of (planner sel cfg hook P st) = plan_of (planner sel plain None P st)"
proof -
  have neutral: "map (swing cfg) t = map fst t" using assms(2) by (auto simp: swing_def)
  have "\<forall>(r, q)\<in>set t. countable_tables q" using assms(5) by (simp add: list_all_iff)
  from hook_plan [OF assms(1,4) this assms(6), of st] have "plan_of (planner sel cfg hook P st) = Inr p"
    using answer_with_own [OF assms(4)] assms(1) by (simp add: planner_def neutral del: map_eq_conv)
  then show ?thesis using disabled_planner [OF assms(3,4), of st] assms(3) by (simp add: planner_def)
qed

theorem lero_neutral_factor_witness:
  "plan_of (planner sample_selec (sample_config 1) None (Estimate sample_request Done) sample_lero) =
   plan_of (planner sample_selec ((sample_config 1)\<lparr>enable_lero := False\<rparr>) None
     (Estimate sample_request Done) sample_lero)"
proof -
  have "own_run sample_selec (Estimate sample_request Done) = Inr ([(20, sample_request)], 20)"
    by (simp add: sample_request_facts)
  then show ?thesis
    by (rule lero_neutral_factor [rotated 3])
      (simp_all add: sample_config_def countable_tables_def sample_request_facts CARD_MAX_NUM_def)
qed

text \<open>C29. The global arrays are never overrun, however many joins a run estimates: if the inputs of every
  join can be walked without a bad access, planning with Lero makes none.\<close>

theorem lero_arrays_in_bounds:
  assumes "safe_requests P"
  shows "lero_pgsysml_hook_planner sel cfg P st \<noteq> Inl BadAccess"
proof -
  define st0 where
    "st0 = st\<lparr>record_original_card_phase := True, join_card_num := 0, cur_card_idx := 0\<rparr>"
  have run: "safe_res (standard_planner sel cfg P st0)"
    "\<And>p st1. standard_planner sel cfg P st0 = Inr (p, st1) \<Longrightarrow> join_card_num st1 \<le> CARD_MAX_NUM"
    using standard_planner_safe [OF assms, of st0 sel cfg] by (auto simp: st0_def)
  have "safe_res (lero_pgsysml_hook_planner sel cfg P st)"
    unfolding lero_pgsysml_hook_planner_def st0_def [symmetric]
  proof (rule safe_res_bind [OF run(1)], clarify)
    fix p st1 assume "standard_planner sel cfg P st0 = Inr (p, st1)"
    then have n: "join_card_num st1 \<le> CARD_MAX_NUM" by (rule run(2))
    then have "\<forall>i\<in>set [0..<join_card_num st1]. i < CARD_MAX_NUM" by auto
    from swing_loop_spec [OF this] obtain cards where
      "swing_loop cfg [0..<join_card_num st1] (st1\<lparr>record_original_card_phase := False\<rparr>) =
       Inr (st1\<lparr>record_original_card_phase := False, lero_card_list := cards\<rparr>)" by fastforce
    then show "safe_res (res_bind
        (swing_loop cfg [0..<join_card_num st1] (st1\<lparr>record_original_card_phase := False\<rparr>))
        (standard_planner sel cfg P))"
      using standard_planner_safe [OF assms] n by simp
  qed
  then show ?thesis by (simp add: safe_res_def)
qed

theorem lero_arrays_in_bounds_witness:
  "lero_pgsysml_hook_planner sample_selec (sample_config 2) (Estimate sample_request Done) sample_lero
   \<noteq> Inl BadAccess"
  by (rule lero_arrays_in_bounds) (simp add: safe_res_def sample_request_facts)

section \<open>Where Lero departs from the estimates\<close>

text \<open>
  When the arrays are full the recording phase returns the size of the last join it recorded, for
  every later join, instead of the estimate it was given.
\<close>

lemma full_arrays_return_stale_rows:
  assumes "record_original_card_phase st" "CARD_MAX_NUM \<le> join_card_num st"
  shows "lero_pgsysml_set_joinrel_size_estimates st rt r outer_rel inner_rel = Inr (static_rows st, st)"
  using assms by (simp add: lero_pgsysml_set_joinrel_size_estimates_def)

text \<open>A changed estimate is not clamped again: a join of one row gets the swing factor as its size.\<close>

lemma swung_estimate_not_clamped:
  assumes "enable_lero cfg" "own_size sel q = Inr 1" "table_count q = Inr (lero_subquery_table_num cfg)"
  shows "plan_of (planner sel cfg hook (Estimate q Done) st) = Inr (lero_swing_factor cfg)"
  using hook_plan [of cfg sel "Estimate q Done" "[(1, q)]" 1 st] assms
  by (simp add: planner_def countable_tables_def swing_def CARD_MAX_NUM_def)

text \<open>
  The replay goes by position: if the changed first estimate leads the run to ask for another join
  than before, that join gets the size recorded for the one it replaces.
\<close>

lemma replay_is_positional:
  assumes "enable_lero cfg" "own_size sel q = Inr r" "table_count q = Inr (lero_subquery_table_num cfg)"
    "r * lero_swing_factor cfg \<noteq> r" "own_size sel q1 = Inr r1" "own_size sel q2 = Inr r2"
    "table_count q1 = Inr n" "n \<noteq> lero_subquery_table_num cfg"
  shows "plan_of (planner sel cfg hook
      (Estimate q (\<lambda>x. Estimate (if x = r then q1 else q2) (\<lambda>y. Done (x = r, y)))) st) = Inr (False, r1)"
  using hook_plan [of cfg sel "Estimate q (\<lambda>x. Estimate (if x = r then q1 else q2) (\<lambda>y. Done (x = r, y)))"
      "[(r, q), (r1, q1)]" "(True, r1)" st] assms
  by (simp add: planner_def countable_tables_def swing_def CARD_MAX_NUM_def)

end
