(* ===== verification/Prng.thy ===== *)
theory Prng
  imports Bitutils
begin

text \<open>
  The random number generator, \<^verbatim>\<open>src/common/pg_prng.c\<close>: xoroshiro128** on a state of two 64-bit words.
  Every routine returns its value with the new state. The rejection loop of
  \<^verbatim>\<open>pg_prng_uint64_range\<close> is \<open>None\<close> when it does not end. Doubles are reals, and signed results are
  the signed reading of the word.
\<close>

section \<open>The generator\<close>

record pg_prng_state =
  s0 :: "64 word"
  s1 :: "64 word"

definition rotl :: "64 word \<Rightarrow> nat \<Rightarrow> 64 word" where
  "rotl x bits = push_bit bits x OR drop_bit (64 - bits) x"

definition xoroshiro128ss :: "pg_prng_state \<Rightarrow> 64 word \<times> pg_prng_state" where
  "xoroshiro128ss state =
     (let sx = s1 state XOR s0 state;
          val = rotl (s0 state * 5) 7 * 9
      in (val, \<lparr>s0 = rotl (s0 state) 24 XOR sx XOR push_bit 16 sx, s1 = rotl sx 37\<rparr>))"

definition splitmix64 :: "64 word \<Rightarrow> 64 word \<times> 64 word" where
  "splitmix64 state =
     (let state' = state + 0x9E3779B97F4A7C15;
          v1 = (state' XOR drop_bit 30 state') * 0xBF58476D1CE4E5B9;
          v2 = (v1 XOR drop_bit 27 v1) * 0x94D049BB133111EB
      in (v2 XOR drop_bit 31 v2, state'))"

definition pg_prng_seed_check :: "pg_prng_state \<Rightarrow> pg_prng_state" where
  "pg_prng_seed_check state =
     (if s0 state = 0 \<and> s1 state = 0
      then \<lparr>s0 = 0x5851F42D4C957F2D, s1 = 0x14057B7EF767814F\<rparr>
      else state)"

definition pg_prng_seed :: "64 word \<Rightarrow> pg_prng_state" where
  "pg_prng_seed seed =
     (let (a, seed1) = splitmix64 seed; (b, seed2) = splitmix64 seed1
      in pg_prng_seed_check \<lparr>s0 = a, s1 = b\<rparr>)"

text \<open>The conversion of a double to \<^verbatim>\<open>int64\<close> drops the fraction.\<close>

definition trunc_to_int :: "real \<Rightarrow> int" where
  "trunc_to_int x = (if x \<ge> 0 then \<lfloor>x\<rfloor> else \<lceil>x\<rceil>)"

definition pg_prng_fseed :: "real \<Rightarrow> pg_prng_state" where
  "pg_prng_fseed fseed = pg_prng_seed (word_of_int (trunc_to_int ((2 ^ 52 - 1) * fseed)))"

section \<open>Drawing\<close>

definition pg_prng_uint64 :: "pg_prng_state \<Rightarrow> 64 word \<times> pg_prng_state" where
  "pg_prng_uint64 state = xoroshiro128ss state"

partial_function (option) range_loop ::
  "64 word \<Rightarrow> nat \<Rightarrow> pg_prng_state \<Rightarrow> (64 word \<times> pg_prng_state) option" where
  "range_loop rngw rshift state =
     (let (v, state') = xoroshiro128ss state; val = drop_bit rshift v
      in if val > rngw then range_loop rngw rshift state' else Some (val, state'))"

definition pg_prng_uint64_range ::
  "64 word \<Rightarrow> 64 word \<Rightarrow> pg_prng_state \<Rightarrow> (64 word \<times> pg_prng_state) option" where
  "pg_prng_uint64_range rmin rmax state =
     (if rmax > rmin
      then (let rngw = rmax - rmin in
            case range_loop rngw (63 - pg_leftmost_one_pos64 rngw) state of
              None \<Rightarrow> None
            | Some (val, state') \<Rightarrow> Some (rmin + val, state'))
      else Some (rmin, state))"

definition pg_prng_int64 :: "pg_prng_state \<Rightarrow> int \<times> pg_prng_state" where
  "pg_prng_int64 state = (let (v, state') = xoroshiro128ss state in (sint v, state'))"

definition pg_prng_int64p :: "pg_prng_state \<Rightarrow> int \<times> pg_prng_state" where
  "pg_prng_int64p state =
     (let (v, state') = xoroshiro128ss state in (sint (v AND 0x7FFFFFFFFFFFFFFF), state'))"

definition pg_prng_uint32 :: "pg_prng_state \<Rightarrow> 32 word \<times> pg_prng_state" where
  "pg_prng_uint32 state = (let (v, state') = xoroshiro128ss state in (ucast (drop_bit 32 v), state'))"

definition pg_prng_int32 :: "pg_prng_state \<Rightarrow> int \<times> pg_prng_state" where
  "pg_prng_int32 state =
     (let (v, state') = xoroshiro128ss state in (sint (ucast (drop_bit 32 v) :: 32 word), state'))"

definition pg_prng_int32p :: "pg_prng_state \<Rightarrow> int \<times> pg_prng_state" where
  "pg_prng_int32p state =
     (let (v, state') = xoroshiro128ss state in (sint (ucast (drop_bit 33 v) :: 32 word), state'))"

definition pg_prng_double :: "pg_prng_state \<Rightarrow> real \<times> pg_prng_state" where
  "pg_prng_double state =
     (let (v, state') = xoroshiro128ss state in (real (unat (drop_bit (64 - 52) v)) / 2 ^ 52, state'))"

definition pg_prng_double_normal :: "pg_prng_state \<Rightarrow> real \<times> pg_prng_state" where
  "pg_prng_double_normal state =
     (let (d1, state1) = pg_prng_double state; u1 = 1 - d1;
          (d2, state2) = pg_prng_double state1; u2 = 1 - d2
      in (sqrt (- 2 * ln u1) * sin (2 * pi * u2), state2))"

definition pg_prng_bool :: "pg_prng_state \<Rightarrow> bool \<times> pg_prng_state" where
  "pg_prng_bool state = (let (v, state') = xoroshiro128ss state in (drop_bit 63 v \<noteq> 0, state'))"

section \<open>The state never becomes zero\<close>

definition prng_ok :: "pg_prng_state \<Rightarrow> bool" where
  "prng_ok state = (s0 state \<noteq> 0 \<or> s1 state \<noteq> 0)"

lemma bit_rotl:
  assumes "0 < k" "k < 64" "i < 64"
  shows "bit (rotl x k) i \<longleftrightarrow> bit x (if k \<le> i then i - k else i + 64 - k)"
proof -
  have "\<not> bit x (64 - k + i)" if "k \<le> i" using that assms bit_imp_le_length [of x "64 - k + i"] by auto
  then show ?thesis using assms
    by (auto simp: rotl_def bit_or_iff bit_push_bit_iff bit_drop_bit_eq ac_simps)
qed

lemma rotl_inj:
  assumes "0 < k" "k < 64" "rotl x k = rotl y k"
  shows "x = y"
proof (rule word64_eqI)
  fix j :: nat assume j: "j < 64"
  show "bit x j = bit y j"
  proof (cases "j + k < 64")
    case True
    then show ?thesis using bit_rotl [OF assms(1,2), of "j + k" x] bit_rotl [OF assms(1,2), of "j + k" y] assms(3)
      by simp
  next
    case False
    then have "j + k - 64 < 64" "\<not> k \<le> j + k - 64" "j + k - 64 + 64 - k = j" using assms(2) j by linarith+
    then show ?thesis using bit_rotl [OF assms(1,2), of "j + k - 64" x] bit_rotl [OF assms(1,2), of "j + k - 64" y]
        assms(3) by simp
  qed
qed

lemma xoroshiro_inj:
  assumes "snd (xoroshiro128ss a) = snd (xoroshiro128ss b)"
  shows "a = b"
proof -
  let ?sx = "\<lambda>s. s1 s XOR s0 s"
  have "rotl (?sx a) 37 = rotl (?sx b) 37"
    "rotl (s0 a) 24 XOR ?sx a XOR push_bit 16 (?sx a) = rotl (s0 b) 24 XOR ?sx b XOR push_bit 16 (?sx b)"
    using assms by (simp_all add: xoroshiro128ss_def Let_def)
  moreover from this(1) have sx: "?sx a = ?sx b" by (rule rotl_inj [rotated 2]) simp_all
  ultimately have "rotl (s0 a) 24 = rotl (s0 b) 24"
    by (metis (no_types, opaque_lifting) xor.assoc xor_self_eq xor.right_neutral)
  then have s0: "s0 a = s0 b" by (rule rotl_inj [rotated 2]) simp_all
  then have "s1 a = s1 b" using sx
    by (metis (no_types, opaque_lifting) xor.assoc xor_self_eq xor.right_neutral)
  with s0 show ?thesis by simp
qed

lemma rotl_0 [simp]: "rotl 0 k = 0"
  by (simp add: rotl_def)

lemma xoroshiro_zero: "xoroshiro128ss \<lparr>s0 = 0, s1 = 0\<rparr> = (0, \<lparr>s0 = 0, s1 = 0\<rparr>)"
  by (simp add: xoroshiro128ss_def)

lemma prng_ok_iff: "prng_ok s \<longleftrightarrow> s \<noteq> \<lparr>s0 = 0, s1 = 0\<rparr>"
  by (cases s) (auto simp: prng_ok_def)

lemma xoroshiro_ok: "prng_ok s \<Longrightarrow> prng_ok (snd (xoroshiro128ss s))"
  unfolding prng_ok_iff using xoroshiro_inj [of s "\<lparr>s0 = 0, s1 = 0\<rparr>"] by (auto simp: xoroshiro_zero)

lemma seed_check_ok: "prng_ok (pg_prng_seed_check s)"
  by (simp add: prng_ok_def pg_prng_seed_check_def)

lemma seed_ok: "prng_ok (pg_prng_seed w)"
  by (simp add: pg_prng_seed_def seed_check_ok split: prod.splits)

section \<open>Rejection sampling\<close>

text \<open>The states and outputs of the generator in sequence.\<close>

primrec prng_state_at :: "nat \<Rightarrow> pg_prng_state \<Rightarrow> pg_prng_state" where
  "prng_state_at 0 s = s"
| "prng_state_at (Suc n) s = prng_state_at n (snd (xoroshiro128ss s))"

definition prng_out :: "nat \<Rightarrow> pg_prng_state \<Rightarrow> 64 word" where
  "prng_out n s = fst (xoroshiro128ss (prng_state_at n s))"

lemma prng_out_simps [simp]:
  "prng_out 0 s = fst (xoroshiro128ss s)"
  "prng_out (Suc n) s = prng_out n (snd (xoroshiro128ss s))"
  by (simp_all add: prng_out_def)

lemma range_loop_step:
  "range_loop r k s =
     (if drop_bit k (prng_out 0 s) > r then range_loop r k (snd (xoroshiro128ss s))
      else Some (drop_bit k (prng_out 0 s), snd (xoroshiro128ss s)))"
  by (subst range_loop.simps) (simp add: case_prod_beta Let_def)

lemma range_loop_first:
  assumes "\<forall>m<n. drop_bit k (prng_out m s) > r" "drop_bit k (prng_out n s) \<le> r"
  shows "range_loop r k s = Some (drop_bit k (prng_out n s), prng_state_at (Suc n) s)"
  using assms
proof (induction n arbitrary: s)
  case 0
  then show ?case by (auto simp: range_loop_step [of r k s] dest: leD)
next
  case (Suc n)
  have "\<forall>m<n. drop_bit k (prng_out m (snd (xoroshiro128ss s))) > r"
    using Suc.prems(1) by (metis Suc_less_eq prng_out_simps(2))
  moreover have "drop_bit k (prng_out 0 s) > r" using Suc.prems(1) by blast
  ultimately show ?case using Suc.IH [of "snd (xoroshiro128ss s)"] Suc.prems(2)
    by (simp add: range_loop_step [of r k s])
qed

lemma range_loop_returns:
  assumes "range_loop r k s = Some x"
  shows "\<exists>n. (\<forall>m<n. drop_bit k (prng_out m s) > r) \<and> drop_bit k (prng_out n s) \<le> r"
  using assms
proof (induction arbitrary: x rule: range_loop.raw_induct [rotated, consumes 1, case_names loop])
  case (loop f r k s x)
  show ?case
  proof (cases "drop_bit k (prng_out 0 s) > r")
    case True
    then have "f r k (snd (xoroshiro128ss s)) = Some x"
      using loop(2) by (simp add: case_prod_beta Let_def)
    from loop(1) [OF this] obtain n where
      n: "\<forall>m<n. drop_bit k (prng_out m (snd (xoroshiro128ss s))) > r"
        "drop_bit k (prng_out n (snd (xoroshiro128ss s))) \<le> r" by blast
    have "\<forall>m<Suc n. drop_bit k (prng_out m s) > r"
      using n(1) True by (metis less_Suc_eq_0_disj prng_out_simps(2))
    then show ?thesis using n(2) by (intro exI [of _ "Suc n"]) simp
  next
    case False
    then show ?thesis by (intro exI [of _ 0]) simp
  qed
qed


section \<open>Uniform ranges\<close>

lemma unat_less64: "unat w < 2 ^ 64" for w :: "64 word"
  using unsigned_less [of w] by simp

lemma unat_drop_bit: "unat (drop_bit k w) = unat w div 2 ^ k" for w :: "64 word"
proof -
  have "unat (drop_bit k w) = drop_bit k (take_bit 64 (unat w))"
    by (simp add: unsigned_drop_bit_eq del: drop_bit_eq_div)
  also have "take_bit 64 (unat w) = unat w" using unat_less64 by (simp add: take_bit_nat_eq_self)
  finally show ?thesis by (simp only: drop_bit_eq_div)
qed

lemma card_drop_bit:
  fixes t :: "64 word"
  assumes "k \<le> 64" "unat t < 2 ^ (64 - k)"
  shows "card {w :: 64 word. drop_bit k w = t} = 2 ^ k"
proof -
  have "Suc (unat t) * 2 ^ k \<le> 2 ^ (64 - k) * 2 ^ k" using assms(2) by (intro mult_le_mono1) simp
  then have top: "Suc (unat t) * 2 ^ k \<le> 2 ^ 64" using assms(1) by (simp flip: power_add)
  have "unat ` {w :: 64 word. drop_bit k w = t} = {unat t * 2 ^ k ..< Suc (unat t) * 2 ^ k}"
  proof (intro set_eqI iffI)
    fix n assume "n \<in> unat ` {w :: 64 word. drop_bit k w = t}"
    then obtain w :: "64 word" where w: "n = unat w" "unat w div 2 ^ k = unat t"
      by (auto simp: unat_drop_bit [symmetric])
    then show "n \<in> {unat t * 2 ^ k ..< Suc (unat t) * 2 ^ k}"
      using div_times_less_eq_dividend [of "unat w" "2 ^ k"] dividend_less_div_times [of "2 ^ k" "unat w"] by simp
  next
    fix n assume n: "n \<in> {unat t * 2 ^ k ..< Suc (unat t) * 2 ^ k}"
    then have "n < 2 ^ 64" using top by auto
    then have un: "unat (word_of_nat n :: 64 word) = n" by (simp add: unsigned_of_nat take_bit_nat_eq_self)
    have "n div 2 ^ k = unat t" using n by (intro div_nat_eqI) (auto simp: mult.commute)
    then have "drop_bit k (word_of_nat n :: 64 word) = t"
      by (simp only: word_unat_eq_iff unat_drop_bit un)
    then have "unat (word_of_nat n :: 64 word) \<in> unat ` {w :: 64 word. drop_bit k w = t}" by simp
    then show "n \<in> unat ` {w :: 64 word. drop_bit k w = t}" by (simp only: un)
  qed
  then have "card (unat ` {w :: 64 word. drop_bit k w = t}) = 2 ^ k" by simp
  moreover have "inj_on unat {w :: 64 word. drop_bit k w = t}"
    by (rule inj_onI) (simp only: word_unat_eq_iff)
  ultimately show ?thesis by (simp only: card_image)
qed

lemma leftmost_bounds:
  assumes "r \<noteq> 0"
  shows "pg_leftmost_one_pos64 r < 64" "2 ^ pg_leftmost_one_pos64 r \<le> unat r"
    "unat r < 2 ^ Suc (pg_leftmost_one_pos64 r)"
proof -
  let ?p = "pg_leftmost_one_pos64 r"
  show "?p < 64" by (rule bscan.leftmost_less [OF assms])
  have "bit (unat r) ?p" using bscan.leftmost_bit [OF assms] by (simp add: bit_unsigned_iff)
  then show "2 ^ ?p \<le> unat r" by (metis bit_less_exp less_irrefl not_le)
  have "take_bit (Suc ?p) (unat r) = unat r"
    by (rule bit_eqI) (auto simp: bit_take_bit_iff bit_unsigned_iff less_Suc_eq_le
        dest: bscan.leftmost_greatest)
  then show "unat r < 2 ^ Suc ?p" by (metis take_bit_nat_less_exp)
qed

section \<open>Correctness\<close>

lemma pg_prng_double_range: "0 \<le> fst (pg_prng_double s)" "fst (pg_prng_double s) < 1"
proof -
  define v where "v = fst (xoroshiro128ss s)"
  have d: "fst (pg_prng_double s) = real (unat v div 2 ^ 12) / 2 ^ 52"
    by (simp add: pg_prng_double_def case_prod_beta v_def unat_drop_bit)
  have "unat v div 2 ^ 12 < 2 ^ 52" using unat_less64 [of v] by (simp add: less_mult_imp_div_less)
  then have "real (unat v div 2 ^ 12) < 2 ^ 52" by (metis of_nat_less_iff of_nat_numeral of_nat_power)
  then show "0 \<le> fst (pg_prng_double s)" "fst (pg_prng_double s) < 1" by (simp_all add: d)
qed

lemma range_sum:
  fixes d :: "64 word"
  assumes "rmin < rmax" "d \<le> rmax - rmin"
  shows "rmin \<le> rmin + d" "rmin + d \<le> rmax"
proof -
  have le: "unat rmin \<le> unat rmax" using assms(1) by (simp add: word_le_nat_alt [symmetric])
  then have "unat d \<le> unat rmax - unat rmin" using assms by (simp add: word_le_nat_alt unat_sub diff_le_mono)
  then have "unat rmin + unat d \<le> unat rmax" using le by linarith
  moreover from this have "unat (rmin + d) = unat rmin + unat d"
    using unat_less64 [of rmax] by (simp add: unat_add_lem [THEN iffD1])
  ultimately show "rmin \<le> rmin + d" "rmin + d \<le> rmax" by (simp_all add: word_le_nat_alt)
qed

lemma range_words:
  fixes rmin rmax v :: "64 word"
  assumes "rmin < rmax" "rmin \<le> v" "v \<le> rmax"
  defines "k \<equiv> 63 - pg_leftmost_one_pos64 (rmax - rmin)"
  shows "card {w. drop_bit k w = v - rmin} = 2 ^ k" "2 ^ 63 < (unat (rmax - rmin) + 1) * 2 ^ k"
proof -
  define r where "r = rmax - rmin"
  define p where "p = pg_leftmost_one_pos64 r"
  have r: "r \<noteq> 0" using assms(1) by (auto simp: r_def)
  note p = leftmost_bounds [OF r, folded p_def]
  have k: "k = 63 - p" by (simp add: k_def p_def r_def)
  have "unat (v - rmin) \<le> unat r"
    using assms(1-3) by (simp add: r_def unat_sub word_le_nat_alt word_less_nat_alt)
  then have "unat (v - rmin) < 2 ^ (64 - k)" using p(1,3) by (simp add: k Suc_diff_Suc)
  then show "card {w. drop_bit k w = v - rmin} = 2 ^ k" by (rule card_drop_bit [rotated]) (simp add: k)
  have "(2::nat) ^ 63 = 2 ^ p * 2 ^ k" using p(1) by (simp add: k flip: power_add)
  also have "\<dots> < (unat r + 1) * 2 ^ k" using p(2) by (intro mult_less_mono1) simp_all
  finally show "2 ^ 63 < (unat (rmax - rmin) + 1) * 2 ^ k" by (simp add: r_def)
qed

lemma uint64_range_result:
  assumes "rmin < rmax" "pg_prng_uint64_range rmin rmax s = Some (v, s')"
  shows "\<exists>n. list_all (\<lambda>m. drop_bit (63 - pg_leftmost_one_pos64 (rmax - rmin)) (prng_out m s) > rmax - rmin) [0..<n] \<and>
      v = rmin + drop_bit (63 - pg_leftmost_one_pos64 (rmax - rmin)) (prng_out n s) \<and> s' = prng_state_at (Suc n) s"
    and "rmin \<le> v" "v \<le> rmax"
proof -
  let ?k = "63 - pg_leftmost_one_pos64 (rmax - rmin)" and ?r = "rmax - rmin"
  from assms obtain x where "range_loop ?r ?k s = Some x"
    by (auto simp: pg_prng_uint64_range_def Let_def split: option.splits)
  from range_loop_returns [OF this] obtain n where
    n: "\<forall>m<n. drop_bit ?k (prng_out m s) > ?r" "drop_bit ?k (prng_out n s) \<le> ?r" by blast
  define d where "d = drop_bit ?k (prng_out n s)"
  have res: "v = rmin + d" "s' = prng_state_at (Suc n) s"
    using range_loop_first [OF n] assms by (simp_all add: pg_prng_uint64_range_def d_def)
  have "list_all (\<lambda>m. drop_bit ?k (prng_out m s) > ?r) [0..<n]"
    using n(1) by (simp add: list_all_iff)
  then show "\<exists>n. list_all (\<lambda>m. drop_bit ?k (prng_out m s) > ?r) [0..<n] \<and>
      v = rmin + drop_bit ?k (prng_out n s) \<and> s' = prng_state_at (Suc n) s"
    using res by (intro exI [of _ n]) (simp add: d_def)
  show "rmin \<le> v" "v \<le> rmax" using range_sum [of rmin rmax d] assms(1) n(2) by (simp_all add: res d_def)
qed

text \<open>C40. The generator is never stuck: no seed gives the all-zero state, no step leads from another
  state into it, and different states have different successors.\<close>

theorem prng_state_never_zero:
  "prng_ok (pg_prng_seed w) \<and> prng_ok (pg_prng_fseed x) \<and> prng_ok (pg_prng_seed_check s) \<and>
   inj (\<lambda>state. snd (xoroshiro128ss state)) \<and>
   (if prng_ok s then prng_ok (snd (xoroshiro128ss s)) else snd (xoroshiro128ss s) = s)"
proof -
  have "snd (xoroshiro128ss s) = s" if "\<not> prng_ok s" using that by (simp add: prng_ok_iff xoroshiro_zero)
  then show ?thesis
    using seed_ok seed_check_ok xoroshiro_ok xoroshiro_inj by (auto simp: pg_prng_fseed_def inj_def)
qed

text \<open>Drawing from a range: an empty range gives its lower end; otherwise the result is the first of
  the generator's outputs, shifted to the width of the range, that falls into it, and lies
  between the two ends. The draw fails to return only if no output ever falls into the range.\<close>

theorem prng_range_first_accepted:
  "case pg_prng_uint64_range rmin rmax s of
     None \<Rightarrow> rmin < rmax \<and> (\<forall>n. drop_bit (63 - pg_leftmost_one_pos64 (rmax - rmin)) (prng_out n s) > rmax - rmin)
   | Some (v, s') \<Rightarrow>
       if rmax \<le> rmin then v = rmin \<and> s' = s
       else rmin \<le> v \<and> v \<le> rmax \<and>
         (\<exists>n. list_all (\<lambda>m. drop_bit (63 - pg_leftmost_one_pos64 (rmax - rmin)) (prng_out m s) > rmax - rmin) [0..<n] \<and>
            v = rmin + drop_bit (63 - pg_leftmost_one_pos64 (rmax - rmin)) (prng_out n s) \<and>
            s' = prng_state_at (Suc n) s)"
proof (cases "rmin < rmax")
  case False
  then show ?thesis by (auto simp: pg_prng_uint64_range_def)
next
  case True
  let ?k = "63 - pg_leftmost_one_pos64 (rmax - rmin)" and ?r = "rmax - rmin"
  show ?thesis
  proof (cases "pg_prng_uint64_range rmin rmax s")
    case None
    then have none: "range_loop ?r ?k s = None"
      using True by (auto simp: pg_prng_uint64_range_def Let_def split: option.splits)
    have "drop_bit ?k (prng_out n s) > ?r" for n
    proof (rule ccontr)
      assume "\<not> drop_bit ?k (prng_out n s) > ?r"
      then obtain m where m: "drop_bit ?k (prng_out m s) \<le> ?r" "\<forall>i<m. \<not> drop_bit ?k (prng_out i s) \<le> ?r"
        using exists_least_iff [of "\<lambda>m. drop_bit ?k (prng_out m s) \<le> ?r"] by (auto simp: not_less)
      then show False
        using range_loop_first [where n = m and k = ?k and s = s and r = ?r] none by (auto simp: not_le)
    qed
    then show ?thesis using None True by simp
  next
    case (Some x)
    obtain v s' where x: "x = (v, s')" by fastforce
    have ne: "\<not> rmax \<le> rmin" using True by simp
    show ?thesis unfolding Some x option.case prod.case if_not_P [OF ne]
      using uint64_range_result [OF True, of s v s'] Some x by (intro conjI) simp_all
  qed
qed

text \<open>C16. \<^verbatim>\<open>pg_prng_uint64_range\<close> is unbiased. It draws raw words until one is accepted, and the word alone
  decides about acceptance and the result. Every value of the range is the result of the same
  number of words, no other value is the result of any, and more than half of all words are
  accepted.\<close>

theorem prng_range_uniform:
  assumes "rmin < rmax"
  shows "\<exists>accept N.
    (\<forall>s. pg_prng_uint64_range rmin rmax s =
      (case accept (fst (pg_prng_uint64 s)) of
         None \<Rightarrow> pg_prng_uint64_range rmin rmax (snd (pg_prng_uint64 s))
       | Some v \<Rightarrow> Some (v, snd (pg_prng_uint64 s)))) \<and>
    (\<forall>v. card {w. accept w = Some v} = (if rmin \<le> v \<and> v \<le> rmax then N else 0)) \<and>
    2 ^ 63 < (unat (rmax - rmin) + 1) * N"
proof -
  let ?k = "63 - pg_leftmost_one_pos64 (rmax - rmin)"
  define accept where "accept = (\<lambda>w. if drop_bit ?k w > rmax - rmin then None else Some (rmin + drop_bit ?k w))"
  have draw: "pg_prng_uint64_range rmin rmax s =
      (case accept (fst (pg_prng_uint64 s)) of
         None \<Rightarrow> pg_prng_uint64_range rmin rmax (snd (pg_prng_uint64 s))
       | Some v \<Rightarrow> Some (v, snd (pg_prng_uint64 s)))" for s
    using assms range_loop_step [of "rmax - rmin" ?k s]
    by (simp add: pg_prng_uint64_range_def accept_def Let_def pg_prng_uint64_def)
  have words: "card {w. accept w = Some v} = (if rmin \<le> v \<and> v \<le> rmax then 2 ^ ?k else 0)" for v
  proof (cases "rmin \<le> v \<and> v \<le> rmax")
    case True
    then have "v - rmin \<le> rmax - rmin" using assms by (simp add: word_le_nat_alt unat_sub diff_le_mono)
    then have "{w. accept w = Some v} = {w. drop_bit ?k w = v - rmin}"
      by (auto simp: accept_def algebra_simps split: if_splits)
    then show ?thesis using True range_words(1) [OF assms] by simp
  next
    case False
    then have "{w. accept w = Some v} = {}" using range_sum [OF assms] by (auto simp: accept_def not_less split: if_splits)
    then show ?thesis using False by simp
  qed
  have "2 ^ 63 < (unat (rmax - rmin) + 1) * 2 ^ ?k" using assms by (intro range_words(2) [of rmin rmax rmin]) auto
  with draw words show ?thesis by (intro exI [of _ accept] exI [of _ "2 ^ ?k"]) blast
qed

theorem prng_range_uniform_witness:
  "\<exists>accept N.
    (\<forall>s. pg_prng_uint64_range 1 7 s =
      (case accept (fst (pg_prng_uint64 s)) of
         None \<Rightarrow> pg_prng_uint64_range 1 7 (snd (pg_prng_uint64 s))
       | Some v \<Rightarrow> Some (v, snd (pg_prng_uint64 s)))) \<and>
    card {w. accept w = Some 5} = N \<and> card {w. accept w = Some 7} = N \<and> card {w. accept w = Some 8} = 0 \<and> 2 ^ 63 < 7 * N"
proof -
  have "(1 :: 64 word) < 7" by simp
  from prng_range_uniform [OF this] obtain accept N where u:
    "\<forall>s. pg_prng_uint64_range 1 7 s =
      (case accept (fst (pg_prng_uint64 s)) of
         None \<Rightarrow> pg_prng_uint64_range 1 7 (snd (pg_prng_uint64 s))
       | Some v \<Rightarrow> Some (v, snd (pg_prng_uint64 s)))"
    "\<forall>v. card {w. accept w = Some v} = (if 1 \<le> v \<and> v \<le> 7 then N else 0)"
    "2 ^ 63 < (unat (7 - 1 :: 64 word) + 1) * N" by blast
  have "card {w. accept w = Some 5} = N" "card {w. accept w = Some 7} = N" "card {w. accept w = Some 8} = 0"
    using u(2) by simp_all
  moreover have "2 ^ 63 < 7 * N" using u(3) by simp
  ultimately show ?thesis using u(1) by blast
qed

text \<open>Ranges of the other routines: a double lies in [0,1), and the arguments of the logarithm in the
  normal distribution are positive; the nonnegative integers are nonnegative and fit their type.\<close>

theorem prng_value_ranges:
  "0 \<le> fst (pg_prng_double s) \<and> fst (pg_prng_double s) < 1 \<and>
   0 \<le> fst (pg_prng_int64p s) \<and> fst (pg_prng_int64p s) < 2 ^ 63 \<and>
   0 \<le> fst (pg_prng_int32p s) \<and> fst (pg_prng_int32p s) < 2 ^ 31 \<and>
   - (2 ^ 31) \<le> fst (pg_prng_int32 s) \<and> fst (pg_prng_int32 s) < 2 ^ 31"
proof -
  define v where "v = fst (xoroshiro128ss s)"
  note double = pg_prng_double_range [of s]
  have "\<not> bit (v AND 0x7FFFFFFFFFFFFFFF) 63" by (simp add: bit_and_iff bit_numeral_word_iff)
  then have i64: "0 \<le> fst (pg_prng_int64p s)"
    using bit_last_iff [of "v AND 0x7FFFFFFFFFFFFFFF"]
    by (simp add: pg_prng_int64p_def case_prod_beta v_def [symmetric])
  have "fst (pg_prng_int64p s) < 2 ^ 63"
    using sint_less [of "v AND 0x7FFFFFFFFFFFFFFF"]
    by (simp add: pg_prng_int64p_def case_prod_beta v_def [symmetric])
  moreover have "0 \<le> fst (pg_prng_int32p s)"
  proof -
    have "\<not> bit (ucast (drop_bit 33 v) :: 32 word) 31"
      using bit_imp_le_length [of v 64] by (auto simp: bit_unsigned_iff bit_drop_bit_eq)
    then show ?thesis using bit_last_iff [of "ucast (drop_bit 33 v) :: 32 word"]
      by (simp add: pg_prng_int32p_def case_prod_beta v_def [symmetric])
  qed
  moreover have "fst (pg_prng_int32p s) < 2 ^ 31"
    using sint_less [of "ucast (drop_bit 33 v) :: 32 word"]
    by (simp add: pg_prng_int32p_def case_prod_beta v_def [symmetric])
  moreover have "- (2 ^ 31) \<le> fst (pg_prng_int32 s)" "fst (pg_prng_int32 s) < 2 ^ 31"
    using sint_greater_eq [of "ucast (drop_bit 32 v) :: 32 word"] sint_less [of "ucast (drop_bit 32 v) :: 32 word"]
    by (simp_all add: pg_prng_int32_def case_prod_beta v_def [symmetric])
  ultimately show ?thesis using double i64 by simp
qed

end
