(* ===== verification/Geqopool.thy ===== *)
theory Geqopool
  imports Prng
begin

text \<open>
  The genetic optimizer's tours and pool: \<^verbatim>\<open>geqo_random.c\<close>, \<^verbatim>\<open>geqo_copy.c\<close>, \<^verbatim>\<open>geqo_recombination.c\<close>,
  \<^verbatim>\<open>geqo_pool.c\<close> and \<^verbatim>\<open>geqo_selection.c\<close> of \<^verbatim>\<open>src/backend/optimizer/geqo\<close>. Code that draws random
  numbers is a function from the generator's state to a result and a new state; \<open>None\<close> means that it
  does not return. Arrays are lists, with every access tested. A C \<^verbatim>\<open>int\<close> is an integer; the
  conversions to and from the 64-bit words of the generator are written out.
\<close>

section \<open>Computations with random draws\<close>

type_synonym 'a rnd = "pg_prng_state \<Rightarrow> ('a \<times> pg_prng_state) res option"

definition rnd_return :: "'a \<Rightarrow> 'a rnd" where
  "rnd_return x s = Some (Inr (x, s))"

definition rnd_res :: "'a res \<Rightarrow> 'a rnd" where
  "rnd_res r s = (case r of Inl e \<Rightarrow> Some (Inl e) | Inr x \<Rightarrow> Some (Inr (x, s)))"

definition rnd_bind :: "'a rnd \<Rightarrow> ('a \<Rightarrow> 'b rnd) \<Rightarrow> 'b rnd" where
  "rnd_bind m f s =
     (case m s of
        None \<Rightarrow> None
      | Some (Inl e) \<Rightarrow> Some (Inl e)
      | Some (Inr (x, s')) \<Rightarrow> f x s')"

text \<open>A value computed without draws, which may also not return.\<close>

definition rnd_opt :: "'a res option \<Rightarrow> 'a rnd" where
  "rnd_opt m s =
     (case m of
        None \<Rightarrow> None
      | Some (Inl e) \<Rightarrow> Some (Inl e)
      | Some (Inr x) \<Rightarrow> Some (Inr (x, s)))"

definition aget :: "'a list \<Rightarrow> int \<Rightarrow> 'a res" where
  "aget xs i = (if 0 \<le> i \<and> i < int (length xs) then Inr (xs ! nat i) else Inl BadAccess)"

definition aset :: "'a list \<Rightarrow> int \<Rightarrow> 'a \<Rightarrow> 'a list res" where
  "aset xs i v = (if 0 \<le> i \<and> i < int (length xs) then Inr (xs[nat i := v]) else Inl BadAccess)"

section \<open>Random numbers\<close>

definition geqo_set_seed :: "real \<Rightarrow> pg_prng_state" where
  "geqo_set_seed seed = pg_prng_fseed seed"

definition geqo_rand :: "real rnd" where
  "geqo_rand s = (case pg_prng_double s of (v, s') \<Rightarrow> Some (Inr (v, s')))"

definition geqo_randint :: "int \<Rightarrow> int \<Rightarrow> int rnd" where
  "geqo_randint upper lower s =
     (case pg_prng_uint64_range (word_of_int lower) (word_of_int upper) s of
        None \<Rightarrow> None
      | Some (v, s') \<Rightarrow> Some (Inr (sint (ucast v :: 32 word), s')))"

section \<open>Tours\<close>

type_synonym Gene = int

record Chromosome =
  gene_string :: "Gene list"
  worth :: real

record Pool =
  pool_data :: "Chromosome list"
  pool_size :: int
  string_length :: int

text \<open>The loop of \<^verbatim>\<open>geqo_copy\<close>.\<close>

fun copy_genes :: "int list \<Rightarrow> Gene list \<Rightarrow> Gene list \<Rightarrow> Gene list res" where
  "copy_genes [] dst src = Inr dst"
| "copy_genes (i # is) dst src =
     res_bind (aget src i) (\<lambda>g. res_bind (aset dst i g) (\<lambda>dst'. copy_genes is dst' src))"

definition geqo_copy :: "Chromosome \<Rightarrow> Chromosome \<Rightarrow> int \<Rightarrow> Chromosome res" where
  "geqo_copy chromo1 chromo2 n =
     res_bind (copy_genes [0..n - 1] (gene_string chromo1) (gene_string chromo2)) (\<lambda>g.
       Inr \<lparr>gene_string = g, worth = worth chromo2\<rparr>)"

fun init_tour_loop :: "int list \<Rightarrow> Gene list \<Rightarrow> Gene list rnd" where
  "init_tour_loop [] tour = rnd_return tour"
| "init_tour_loop (i # is) tour =
     rnd_bind (geqo_randint i 0) (\<lambda>j.
     rnd_bind (rnd_res (if i \<noteq> j then res_bind (aget tour j) (aset tour i) else Inr tour)) (\<lambda>tour1.
     rnd_bind (rnd_res (aset tour1 j (i + 1))) (init_tour_loop is)))"

definition init_tour :: "Gene list \<Rightarrow> int \<Rightarrow> Gene list rnd" where
  "init_tour tour num_gene =
     rnd_bind (rnd_res (if num_gene > 0 then aset tour 0 1 else Inr tour))
       (init_tour_loop [1..num_gene - 1])"

section \<open>The pool\<close>

text \<open>
  Fresh memory has arbitrary contents; they are an argument, the same for every gene. A chromosome
  has room for one gene more than a tour has.
\<close>

definition alloc_chromo :: "Gene \<Rightarrow> int \<Rightarrow> Chromosome" where
  "alloc_chromo junk n = \<lparr>gene_string = replicate (nat (n + 1)) junk, worth = of_int junk\<rparr>"

definition alloc_pool :: "Gene \<Rightarrow> int \<Rightarrow> int \<Rightarrow> Pool" where
  "alloc_pool junk sz n =
     \<lparr>pool_data = replicate (nat sz) (alloc_chromo junk n), pool_size = sz, string_length = n\<rparr>"

definition DBL_MAX :: real where
  "DBL_MAX = (2 - 1 / 2 ^ 52) * 2 ^ 1023"

text \<open>
  The fitness function \<^verbatim>\<open>geqo_eval\<close> is an argument here; it may raise an error and works on a planner
  state of its own. The loop ends with an error after 10000 failures for the first entry; later
  entries are tried without limit.
\<close>

partial_function (option) init_pool_loop ::
  "(Gene list \<Rightarrow> 's \<Rightarrow> (real \<times> 's) res) \<Rightarrow> Pool \<Rightarrow> int \<Rightarrow> int \<Rightarrow> 's \<Rightarrow> pg_prng_state \<Rightarrow>
   ((Pool \<times> 's) \<times> pg_prng_state) res option" where
  "init_pool_loop eval pool i bad st s =
     (if i < pool_size pool
      then (case rnd_bind (rnd_res (aget (pool_data pool) i)) (\<lambda>c.
                   rnd_bind (init_tour (gene_string c) (string_length pool)) (\<lambda>tour.
                   rnd_bind (rnd_res (eval (take (nat (string_length pool)) tour) st)) (\<lambda>(w, st').
                   rnd_bind (rnd_res (aset (pool_data pool) i \<lparr>gene_string = tour, worth = w\<rparr>)) (\<lambda>d.
                   rnd_return (d, w, st'))))) s of
              None \<Rightarrow> None
            | Some (Inl e) \<Rightarrow> Some (Inl e)
            | Some (Inr ((d, w, st'), s')) \<Rightarrow>
                if w < DBL_MAX then init_pool_loop eval (pool\<lparr>pool_data := d\<rparr>) (i + 1) bad st' s'
                else if i = 0 \<and> bad + 1 \<ge> 10000
                then Some (Inl (Elog ''geqo failed to make a valid plan''))
                else init_pool_loop eval (pool\<lparr>pool_data := d\<rparr>) i (bad + 1) st' s')
      else Some (Inr ((pool, st), s)))"

definition random_init_pool ::
  "(Gene list \<Rightarrow> 's \<Rightarrow> (real \<times> 's) res) \<Rightarrow> Pool \<Rightarrow> 's \<Rightarrow> (Pool \<times> 's) rnd" where
  "random_init_pool eval pool st s = init_pool_loop eval pool 0 0 st s"

definition compare_chromo :: "Chromosome \<Rightarrow> Chromosome \<Rightarrow> int" where
  "compare_chromo c1 c2 = (if worth c1 = worth c2 then 0 else if worth c1 > worth c2 then 1 else - 1)"

text \<open>The sort routine is an argument.\<close>

definition sort_pool ::
  "((Chromosome \<Rightarrow> Chromosome \<Rightarrow> int) \<Rightarrow> Chromosome list \<Rightarrow> Chromosome list) \<Rightarrow> Pool \<Rightarrow> Pool" where
  "sort_pool qsort pool = pool\<lparr>pool_data := qsort compare_chromo (pool_data pool)\<rparr>"

text \<open>The binary search for the place of a new chromosome.\<close>

partial_function (option) spread_search ::
  "real \<Rightarrow> Chromosome list \<Rightarrow> int \<Rightarrow> int \<Rightarrow> int \<Rightarrow> int res option" where
  "spread_search w d top_i mid_i bot_i =
     (case aget d top_i of
        Inl e \<Rightarrow> Some (Inl e)
      | Inr t \<Rightarrow>
          if w \<le> worth t then Some (Inr top_i)
          else case aget d mid_i of
            Inl e \<Rightarrow> Some (Inl e)
          | Inr m \<Rightarrow>
              if w = worth m then Some (Inr mid_i)
              else case aget d bot_i of
                Inl e \<Rightarrow> Some (Inl e)
              | Inr b \<Rightarrow>
                  if w = worth b then Some (Inr bot_i)
                  else if bot_i - top_i \<le> 1 then Some (Inr bot_i)
                  else if w < worth m
                  then spread_search w d top_i (top_i + (mid_i - top_i) div 2) mid_i
                  else spread_search w d mid_i (mid_i + (bot_i - mid_i) div 2) bot_i)"

text \<open>The shifting loop: the chromosome in hand goes into each slot, whose content is taken along.\<close>

fun shift_loop :: "int list \<Rightarrow> Chromosome \<Rightarrow> Chromosome list \<Rightarrow> Chromosome list res" where
  "shift_loop [] swap_chromo d = Inr d"
| "shift_loop (i # is) swap_chromo d =
     res_bind (aget d i) (\<lambda>tmp_chromo. res_bind (aset d i swap_chromo) (shift_loop is tmp_chromo))"

definition spread_chromo :: "Chromosome \<Rightarrow> Pool \<Rightarrow> Pool res option" where
  "spread_chromo chromo pool =
     (let d = pool_data pool; n = pool_size pool in
      case aget d (n - 1) of
        Inl e \<Rightarrow> Some (Inl e)
      | Inr last_chromo \<Rightarrow>
          if worth chromo > worth last_chromo then Some (Inr pool)
          else case spread_search (worth chromo) d 0 (n div 2) (n - 1) of
            None \<Rightarrow> None
          | Some (Inl e) \<Rightarrow> Some (Inl e)
          | Some (Inr index) \<Rightarrow>
              Some (res_bind (geqo_copy last_chromo chromo (string_length pool)) (\<lambda>new_last.
                    res_bind (aset d (n - 1) new_last) (\<lambda>d1.
                    res_bind (shift_loop [index..n - 1] new_last d1) (\<lambda>d2.
                      Inr (pool\<lparr>pool_data := d2\<rparr>))))))"

section \<open>Selection\<close>

text \<open>
  The double arithmetic rounds: \<open>fl\<close> gives the double for the exact result of one operation, and is an
  argument. The test of the loop keeps an index out of the pool that roundoff has produced. The result
  is converted to \<^verbatim>\<open>int\<close> by dropping the fraction.
\<close>

definition linear_index :: "(real \<Rightarrow> real) \<Rightarrow> int \<Rightarrow> real \<Rightarrow> real \<Rightarrow> real" where
  "linear_index fl sz bias r =
     (let v = fl (fl (bias * bias) - fl (fl (4 * fl (bias - 1)) * r));
          sqrtval = (if v > 0 then fl (sqrt v) else v)
      in fl (fl (fl (of_int sz * fl (bias - sqrtval)) / 2) / fl (bias - 1)))"

partial_function (option) linear_rand ::
  "(real \<Rightarrow> real) \<Rightarrow> int \<Rightarrow> real \<Rightarrow> pg_prng_state \<Rightarrow> (int \<times> pg_prng_state) res option" where
  "linear_rand fl sz bias s =
     (case geqo_rand s of
        None \<Rightarrow> None
      | Some (Inl e) \<Rightarrow> Some (Inl e)
      | Some (Inr (r, s')) \<Rightarrow>
          (let index = linear_index fl sz bias r in
           if index < 0 \<or> index \<ge> of_int sz then linear_rand fl sz bias s'
           else Some (Inr (trunc_to_int index, s'))))"

partial_function (option) other_rand ::
  "(real \<Rightarrow> real) \<Rightarrow> int \<Rightarrow> real \<Rightarrow> int \<Rightarrow> int \<Rightarrow> pg_prng_state \<Rightarrow> (int \<times> pg_prng_state) res option" where
  "other_rand fl sz bias first second s =
     (if first = second
      then (case linear_rand fl sz bias s of
              None \<Rightarrow> None
            | Some (Inl e) \<Rightarrow> Some (Inl e)
            | Some (Inr (second', s')) \<Rightarrow> other_rand fl sz bias first second' s')
      else Some (Inr (second, s)))"

definition geqo_selection ::
  "(real \<Rightarrow> real) \<Rightarrow> Chromosome \<Rightarrow> Chromosome \<Rightarrow> Pool \<Rightarrow> real \<Rightarrow> (Chromosome \<times> Chromosome) rnd" where
  "geqo_selection fl momma daddy pool bias =
     rnd_bind (linear_rand fl (pool_size pool) bias) (\<lambda>first.
     rnd_bind (linear_rand fl (pool_size pool) bias) (\<lambda>second0.
     rnd_bind (if pool_size pool > 1 then other_rand fl (pool_size pool) bias first second0
               else rnd_return second0) (\<lambda>second.
     rnd_bind (rnd_res (res_bind (aget (pool_data pool) first) (\<lambda>c.
       geqo_copy momma c (string_length pool)))) (\<lambda>momma'.
     rnd_bind (rnd_res (res_bind (aget (pool_data pool) second) (\<lambda>c.
       geqo_copy daddy c (string_length pool)))) (\<lambda>daddy'.
       rnd_return (momma', daddy'))))))"

section \<open>Reasoning about draws\<close>

text \<open>
  \<open>runs live G m Q\<close>: from every state in \<open>G\<close> the computation makes no error, a value it returns
  satisfies \<open>Q\<close> and leaves a state in \<open>G\<close>, and if \<open>live\<close> holds it does return.
\<close>

definition runs :: "bool \<Rightarrow> (pg_prng_state \<Rightarrow> bool) \<Rightarrow> 'a rnd \<Rightarrow> ('a \<Rightarrow> bool) \<Rightarrow> bool" where
  "runs live G m Q \<longleftrightarrow>
     (\<forall>s. G s \<longrightarrow>
       (case m s of
          None \<Rightarrow> \<not> live
        | Some (Inl e) \<Rightarrow> False
        | Some (Inr (x, s')) \<Rightarrow> Q x \<and> G s'))"

lemma runs_return: "Q x \<Longrightarrow> runs live G (rnd_return x) Q"
  by (simp add: runs_def rnd_return_def)

lemma runs_res: "r = Inr x \<Longrightarrow> Q x \<Longrightarrow> runs live G (rnd_res r) Q"
  by (simp add: runs_def rnd_res_def)

lemma runs_opt: "m = Some (Inr x) \<Longrightarrow> Q x \<Longrightarrow> runs live G (rnd_opt m) Q"
  by (simp add: runs_def rnd_opt_def)

lemma runs_bind:
  assumes "runs live G m P" "\<And>x. P x \<Longrightarrow> runs live G (f x) Q"
  shows "runs live G (rnd_bind m f) Q"
  unfolding runs_def
proof (intro allI impI)
  fix s assume s: "G s"
  show "case rnd_bind m f s of None \<Rightarrow> \<not> live | Some (Inl e) \<Rightarrow> False | Some (Inr (x, s')) \<Rightarrow> Q x \<and> G s'"
  proof (cases "m s")
    case None
    then show ?thesis using assms(1) s by (auto simp: runs_def rnd_bind_def)
  next
    case (Some r)
    then obtain x s' where r: "r = Inr (x, s')" "P x" "G s'"
      using assms(1) s by (cases r) (auto simp: runs_def)
    then show ?thesis using assms(2) [OF r(2)] Some by (simp add: runs_def rnd_bind_def)
  qed
qed

lemma runs_res_bind: "r = Inr x \<Longrightarrow> runs live G (f x) Q \<Longrightarrow> runs live G (rnd_bind (rnd_res r) f) Q"
  by (simp add: runs_def rnd_bind_def rnd_res_def)

lemma runs_mono: "runs live G m P \<Longrightarrow> (\<And>x. P x \<Longrightarrow> Q x) \<Longrightarrow> runs live G m Q"
  unfolding runs_def by (fastforce split: option.splits sum.splits)

lemma runs_result: "runs live G m Q \<Longrightarrow> G s \<Longrightarrow> m s = Some (Inr (x, s')) \<Longrightarrow> Q x"
  unfolding runs_def by fastforce

lemma runs_returns: "runs True G m Q \<Longrightarrow> G s \<Longrightarrow> \<exists>x s'. m s = Some (Inr (x, s')) \<and> Q x \<and> G s'"
  unfolding runs_def by (fastforce split: option.splits sum.splits)

lemma runs_some: "runs live G m Q \<Longrightarrow> G s \<Longrightarrow> m s = Some r \<Longrightarrow> \<exists>x s'. r = Inr (x, s') \<and> Q x \<and> G s'"
  unfolding runs_def by (cases r) fastforce+

text \<open>
  A set of generator states closed under steps; if \<open>live\<close> holds, every draw from a range returns
  there.
\<close>

locale random_source =
  fixes live :: bool and G :: "pg_prng_state \<Rightarrow> bool"
  assumes step_closed: "G s \<Longrightarrow> G (snd (xoroshiro128ss s))"
    and draws_end: "live \<Longrightarrow> G s \<Longrightarrow> pg_prng_uint64_range lo up s \<noteq> None"
begin

lemma state_at_closed: "G s \<Longrightarrow> G (prng_state_at n s)"
  by (induction n arbitrary: s) (simp_all add: step_closed)

lemma rand_run: "runs live G geqo_rand (\<lambda>r. 0 \<le> r \<and> r < 1)"
proof -
  have "geqo_rand s = Some (Inr (fst (pg_prng_double s), snd (xoroshiro128ss s)))" for s
    by (simp add: geqo_rand_def pg_prng_double_def case_prod_beta)
  then show ?thesis using pg_prng_double_range step_closed by (simp add: runs_def)
qed

lemma randint_run:
  assumes "0 \<le> l" "l \<le> u" "u < 2 ^ 31"
  shows "runs live G (geqo_randint u l) (\<lambda>v. l \<le> v \<and> v \<le> u)"
  unfolding runs_def
proof (intro allI impI)
  fix s assume s: "G s"
  let ?lo = "word_of_int l :: 64 word" and ?up = "word_of_int u :: 64 word"
  have small: "uint (word_of_int x :: 64 word) = x" if "0 \<le> x" "x < 2 ^ 31" for x
    using that by (simp add: unsigned_of_int take_bit_int_eq_self)
  have bounds: "uint ?lo = l" "uint ?up = u" using assms small by auto
  show "case geqo_randint u l s of None \<Rightarrow> \<not> live | Some (Inl e) \<Rightarrow> False
      | Some (Inr (v, s')) \<Rightarrow> (l \<le> v \<and> v \<le> u) \<and> G s'"
  proof (cases "pg_prng_uint64_range ?lo ?up s")
    case None
    then show ?thesis using draws_end [OF _ s, of ?lo ?up] by (auto simp: geqo_randint_def)
  next
    case (Some x)
    obtain v s' where x: "x = (v, s')" by fastforce
    have v: "?lo \<le> v \<and> v \<le> ?up \<and> G s'"
    proof (cases "?lo < ?up")
      case True
      then show ?thesis
        using uint64_range_result [OF True, of s v s'] Some x state_at_closed [OF step_closed [OF s]] by auto
    next
      case False
      then have "v = ?lo" "s' = s" using Some x by (simp_all add: pg_prng_uint64_range_def)
      moreover have "?lo \<le> ?up" using assms(2) bounds by (simp add: word_le_def)
      ultimately show ?thesis using s by simp
    qed
    then have u: "l \<le> uint v" "uint v \<le> u" using bounds by (simp_all add: word_le_def)
    have "sint (ucast v :: 32 word) = uint v"
    proof -
      have "uint (ucast v :: 32 word) = uint v"
        using u assms by (simp add: unsigned_ucast_eq take_bit_int_eq_self)
      then show ?thesis using u assms by (simp add: sint_uint signed_take_bit_int_eq_self)
    qed
    then show ?thesis using Some x u v by (simp add: geqo_randint_def)
  qed
qed

end

interpretation any_source: random_source False "\<lambda>_. True"
  by unfold_locales simp_all

lemma range_loop_zero: "range_loop r k \<lparr>s0 = 0, s1 = 0\<rparr> = Some (0, \<lparr>s0 = 0, s1 = 0\<rparr>)"
  by (subst range_loop_step) (simp add: xoroshiro_zero)

interpretation zero_source: random_source True "\<lambda>s. s = \<lparr>s0 = 0, s1 = 0\<rparr>"
  by unfold_locales (auto simp: xoroshiro_zero pg_prng_uint64_range_def range_loop_zero Let_def)

section \<open>Random tours\<close>

definition is_tour :: "int \<Rightarrow> Gene list \<Rightarrow> bool" where
  "is_tour n tour \<longleftrightarrow> mset tour = mset [1..n]"

lemma aget_ok: "0 \<le> i \<Longrightarrow> i < int (length xs) \<Longrightarrow> aget xs i = Inr (xs ! nat i)"
  by (simp add: aget_def)

lemma aset_ok: "0 \<le> i \<Longrightarrow> i < int (length xs) \<Longrightarrow> aset xs i v = Inr (xs[nat i := v])"
  by (simp add: aset_def)

lemma upto_snoc: "[1..int i + 1] = [1..int i] @ [int i + 1]"
  using upto_rec2 [of 1 "int i + 1"] by simp

text \<open>One round of the shuffle on the first \<open>i\<close> genes.\<close>

lemma shuffle_step:
  assumes "mset (take i t) = mset [1..int i]" "i < length t" "j \<le> i"
  shows "mset (take (Suc i) ((if i \<noteq> j then t[i := t ! j] else t)[j := int i + 1])) = mset [1..int i + 1]"
proof (cases "i = j")
  case True
  have "take (Suc i) (t[i := int i + 1]) = take i t @ [int i + 1]"
    using assms(2) by (simp add: take_Suc_conv_app_nth)
  then show ?thesis using assms(1) True by (simp add: upto_snoc)
next
  case False
  have j: "j < i" using False assms(3) by simp
  have "take (Suc i) (t[i := t ! j, j := int i + 1]) = (take i t)[j := int i + 1] @ [t ! j]"
    using assms(2) j by (simp add: take_Suc_conv_app_nth list_update_append take_update_swap)
  moreover have "t ! j \<in># mset (take i t)" using assms(2) j
    by (auto simp: in_set_conv_nth intro!: exI [of _ j])
  ultimately have "mset (take (Suc i) (t[i := t ! j, j := int i + 1])) =
      add_mset (int i + 1) (mset (take i t))"
    using j assms(2) by (simp add: mset_update insert_DiffM)
  then show ?thesis using assms(1) False by (simp add: upto_snoc)
qed

context random_source
begin

lemma init_tour_loop_run:
  assumes "mset (take i t) = mset [1..int i]" "1 \<le> i" "int i \<le> n" "n \<le> int (length t)" "n < 2 ^ 31"
  shows "runs live G (init_tour_loop [int i..n - 1] t)
    (\<lambda>t'. length t' = length t \<and> is_tour n (take (nat n) t'))"
  using assms
proof (induction "nat n - i" arbitrary: i t)
  case 0
  then have "int i = n" by linarith
  then show ?case using "0.prems" by (auto intro!: runs_return simp: is_tour_def)
next
  case (Suc d)
  then have lt: "int i < n" by linarith
  then have il: "i < length t" using Suc.prems by linarith
  have list: "[int i..n - 1] = int i # [int (Suc i)..n - 1]" using lt by (simp add: upto_rec1 add.commute)
  show ?case unfolding list init_tour_loop.simps
  proof (rule runs_bind [OF randint_run])
    fix j assume j: "0 \<le> j \<and> j \<le> int i"
    define t1 where "t1 = (if i \<noteq> nat j then t[i := t ! nat j] else t)"
    have step: "(if int i \<noteq> j then res_bind (aget t j) (aset t (int i)) else Inr t) = Inr t1"
      using j il by (auto simp: aget_ok aset_ok t1_def)
    have len: "length t1 = length t" by (simp add: t1_def)
    show "runs live G
        (rnd_bind (rnd_res (if int i \<noteq> j then res_bind (aget t j) (aset t (int i)) else Inr t)) (\<lambda>tour1.
           rnd_bind (rnd_res (aset tour1 j (int i + 1))) (init_tour_loop [int (Suc i)..n - 1])))
        (\<lambda>t'. length t' = length t \<and> is_tour n (take (nat n) t'))"
    proof (rule runs_res_bind [OF step], rule runs_res_bind [OF aset_ok])
      show "0 \<le> j" "j < int (length t1)" using j il len by simp_all
      have "nat j \<le> i" "int (Suc i) = int i + 1" using j by linarith+
      then have "mset (take (Suc i) (t1[nat j := int i + 1])) = mset [1..int (Suc i)]"
        using shuffle_step [OF Suc.prems(1) il, of "nat j", folded t1_def] by (simp add: add.commute)
      then show "runs live G (init_tour_loop [int (Suc i)..n - 1] (t1[nat j := int i + 1]))
          (\<lambda>t'. length t' = length t \<and> is_tour n (take (nat n) t'))"
        using Suc.hyps(1) [of "Suc i" "t1[nat j := int i + 1]"] Suc.hyps(2) Suc.prems lt len by simp
    qed
  qed (use Suc.prems lt in auto)
qed

lemma init_tour_run:
  assumes "0 \<le> n" "n \<le> int (length t)" "n < 2 ^ 31"
  shows "runs live G (init_tour t n) (\<lambda>t'. length t' = length t \<and> is_tour n (take (nat n) t'))"
proof (cases "n = 0")
  case True
  then show ?thesis unfolding init_tour_def
    by (intro runs_res_bind [where x = t]) (auto simp: is_tour_def intro!: runs_return)
next
  case False
  then have n: "0 < n" using assms by simp
  define t1 where "t1 = t[0 := 1]"
  have t1: "(if n > 0 then aset t 0 1 else Inr t) = Inr t1" using n assms by (auto simp: aset_def t1_def)
  have "mset (take 1 t1) = mset [1..int 1]" using n assms by (cases t) (auto simp: t1_def)
  from init_tour_loop_run [OF this, of n] have
    "runs live G (init_tour_loop [1..n - 1] t1) (\<lambda>t'. length t' = length t \<and> is_tour n (take (nat n) t'))"
    using n assms by (simp add: t1_def)
  then show ?thesis unfolding init_tour_def by (rule runs_res_bind [OF t1])
qed

end


section \<open>Copying and spreading\<close>

lemma copy_genes_spec:
  assumes "n \<le> length dst" "n \<le> length src" "i \<le> n"
  shows "copy_genes [int i..int n - 1] dst src = Inr (take i dst @ drop i (take n src) @ drop n dst)"
  using assms
proof (induction "n - i" arbitrary: i dst)
  case 0
  then show ?case by simp
next
  case (Suc d)
  then have i: "i < n" by simp
  have list: "[int i..int n - 1] = int i # [int (Suc i)..int n - 1]"
    using i by (simp add: upto_rec1 add.commute)
  have "copy_genes [int i..int n - 1] dst src = copy_genes [int (Suc i)..int n - 1] (dst[i := src ! i]) src"
    unfolding list copy_genes.simps using i Suc.prems by (simp add: aget_ok aset_ok)
  also have "\<dots> = Inr (take (Suc i) (dst[i := src ! i]) @ drop (Suc i) (take n src) @ drop n (dst[i := src ! i]))"
    using Suc i by (intro Suc.hyps(1)) auto
  also have "take (Suc i) (dst[i := src ! i]) = take i dst @ [src ! i]"
    using i Suc.prems by (simp add: take_Suc_conv_app_nth)
  also have "drop n (dst[i := src ! i]) = drop n dst" using i by simp
  finally show ?case using i Suc.prems by (simp add: Cons_nth_drop_Suc [symmetric])
qed

lemma geqo_copy_spec:
  assumes "0 \<le> n" "n \<le> int (length (gene_string c1))" "n \<le> int (length (gene_string c2))"
  shows "geqo_copy c1 c2 n =
    Inr \<lparr>gene_string = take (nat n) (gene_string c2) @ drop (nat n) (gene_string c1), worth = worth c2\<rparr>"
  using copy_genes_spec [of "nat n" "gene_string c1" "gene_string c2" 0] assms
  by (simp add: geqo_copy_def)

definition worths :: "Chromosome list \<Rightarrow> real list" where
  "worths d = map worth d"

lemma worths_simps [simp]:
  "worths [] = []" "worths (c # d) = worth c # worths d" "worths (d @ e) = worths d @ worths e"
  "length (worths d) = length d" "worths (take k d) = take k (worths d)"
  "worths (drop k d) = drop k (worths d)" "worths (butlast d) = butlast (worths d)"
  by (simp_all add: worths_def take_map drop_map map_butlast)

text \<open>The place of a new chromosome: everything before it is no worse, everything from it on no better.\<close>

definition place_ok :: "real \<Rightarrow> Chromosome list \<Rightarrow> nat \<Rightarrow> bool" where
  "place_ok w d k \<longleftrightarrow> k < length d \<and> (\<forall>j<k. worth (d ! j) \<le> w) \<and>
     (\<forall>j. k \<le> j \<longrightarrow> j < length d \<longrightarrow> w \<le> worth (d ! j))"

lemma place_okI:
  assumes "sorted (worths d)" "k < length d" "w \<le> worth (d ! k)" "k = 0 \<or> worth (d ! (k - 1)) \<le> w"
  shows "place_ok w d k"
proof -
  have mono: "worth (d ! i) \<le> worth (d ! j)" if "i \<le> j" "j < length d" for i j
    using sorted_nth_mono [OF assms(1), of i j] that by (simp add: worths_def)
  have "worth (d ! j) \<le> w" if "j < k" for j
  proof -
    have "worth (d ! j) \<le> worth (d ! (k - 1))" using that assms(2) by (intro mono) auto
    then show ?thesis using that assms(4) by auto
  qed
  moreover have "w \<le> worth (d ! j)" if "k \<le> j" "j < length d" for j
    using mono [OF that] assms(3) by linarith
  ultimately show ?thesis using assms(2) by (simp add: place_ok_def)
qed

lemma spread_search_spec:
  assumes "sorted (worths d)" "t \<le> m" "m \<le> b" "b < length d" "b - t \<ge> 2 \<longrightarrow> t < m \<and> m < b"
    "t = 0 \<or> worth (d ! t) < w" "w \<le> worth (d ! b)"
  shows "\<exists>k. spread_search w d (int t) (int m) (int b) = Some (Inr (int k)) \<and> place_ok w d k"
  using assms
proof (induction "b - t" arbitrary: t m b rule: less_induct)
  case less
  have mono: "worth (d ! i) \<le> worth (d ! j)" if "i \<le> j" "j < length d" for i j
    using sorted_nth_mono [OF less.prems(1), of i j] that by (simp add: worths_def)
  have acc: "aget d (int t) = Inr (d ! t)" "aget d (int m) = Inr (d ! m)" "aget d (int b) = Inr (d ! b)"
    using less.prems by (simp_all add: aget_ok)
  note unf = spread_search.simps [of w d "int t" "int m" "int b"]
  consider "w \<le> worth (d ! t)" | "worth (d ! t) < w" "w = worth (d ! m)"
    | "worth (d ! t) < w" "w \<noteq> worth (d ! m)" "w = worth (d ! b)"
    | "worth (d ! t) < w" "w \<noteq> worth (d ! m)" "w \<noteq> worth (d ! b)" "b - t \<le> 1"
    | "worth (d ! t) < w" "w < worth (d ! m)" "w \<noteq> worth (d ! b)" "b - t \<ge> 2"
    | "worth (d ! t) < w" "worth (d ! m) < w" "w \<noteq> worth (d ! b)" "b - t \<ge> 2"
    by linarith
  then show ?case
  proof cases
    case 1
    then have "t = 0" using less.prems(6) by auto
    then have "place_ok w d t" using 1 less.prems by (intro place_okI) auto
    moreover have "spread_search w d (int t) (int m) (int b) = Some (Inr (int t))"
      by (subst unf) (use 1 in \<open>simp add: acc\<close>)
    ultimately show ?thesis by blast
  next
    case 2
    have "place_ok w d m" using 2 less.prems mono [of "m - 1" m] by (intro place_okI) auto
    moreover have "spread_search w d (int t) (int m) (int b) = Some (Inr (int m))"
      by (subst unf) (use 2 in \<open>simp add: acc\<close>)
    ultimately show ?thesis by blast
  next
    case 3
    have "place_ok w d b" using 3 less.prems mono [of "b - 1" b] by (intro place_okI) auto
    moreover have "spread_search w d (int t) (int m) (int b) = Some (Inr (int b))"
      by (subst unf) (use 3 in \<open>simp add: acc\<close>)
    ultimately show ?thesis by blast
  next
    case 4
    have small: "int b - int t \<le> 1" using 4 by linarith
    have "t \<noteq> b" using 4 less.prems(7) by auto
    then have "b - 1 = t" using 4 less.prems by linarith
    then have "place_ok w d b" using 4 less.prems by (intro place_okI) auto
    moreover have "spread_search w d (int t) (int m) (int b) = Some (Inr (int b))"
      by (subst unf) (use 4 small in \<open>simp add: acc\<close>)
    ultimately show ?thesis by blast
  next
    case 5
    have "t \<noteq> m" using 5 by auto
    then have tm: "t < m" "m < b" using 5 less.prems by auto
    have eq: "int t + (int m - int t) div 2 = int (t + (m - t) div 2)" using tm by (simp add: zdiv_int)
    have "\<exists>k. spread_search w d (int t) (int (t + (m - t) div 2)) (int m) = Some (Inr (int k)) \<and> place_ok w d k"
      using tm less.prems 5 by (intro less.hyps) auto
    moreover have "\<not> int b - int t \<le> 1" "\<not> w \<le> worth (d ! t)" "w \<noteq> worth (d ! m)" using 5 by auto
    ultimately show ?thesis by (subst unf) (use 5 in \<open>simp add: acc eq\<close>)
  next
    case 6
    have tm: "t < m" "m < b" using 6 less.prems by auto
    have eq: "int m + (int b - int m) div 2 = int (m + (b - m) div 2)" using tm by (simp add: zdiv_int)
    have "\<exists>k. spread_search w d (int m) (int (m + (b - m) div 2)) (int b) = Some (Inr (int k)) \<and> place_ok w d k"
      using tm less.prems 6 by (intro less.hyps) auto
    moreover have "\<not> int b - int t \<le> 1" "\<not> w \<le> worth (d ! t)" "w \<noteq> worth (d ! m)" "\<not> w < worth (d ! m)"
      using 6 by auto
    ultimately show ?thesis by (subst unf) (use 6 in \<open>simp add: acc eq\<close>)
  qed
qed

lemma shift_loop_spec:
  "k \<le> length d \<Longrightarrow>
   shift_loop [int k..int (length d) - 1] c d = Inr (take k d @ butlast (c # drop k d))"
proof (induction "length d - k" arbitrary: k c d)
  case 0
  then show ?case by simp
next
  case (Suc n)
  then have k: "k < length d" by simp
  have list: "[int k..int (length d) - 1] = int k # [int (Suc k)..int (length (d[k := c])) - 1]"
    using k by (simp add: upto_rec1 add.commute)
  have "shift_loop [int k..int (length d) - 1] c d =
      shift_loop [int (Suc k)..int (length (d[k := c])) - 1] (d ! k) (d[k := c])"
    unfolding list shift_loop.simps using k by (simp add: aget_ok aset_ok)
  also have "\<dots> = Inr (take (Suc k) (d[k := c]) @ butlast (d ! k # drop (Suc k) (d[k := c])))"
    using Suc k by (intro Suc.hyps(1)) auto
  also have "take (Suc k) (d[k := c]) = take k d @ [c]" using k by (simp add: take_Suc_conv_app_nth)
  finally show ?case using k by (simp add: Cons_nth_drop_Suc)
qed


text \<open>What counts of a chromosome: its tour and its worth.\<close>

definition individual :: "int \<Rightarrow> Chromosome \<Rightarrow> Gene list \<times> real" where
  "individual n c = (take (nat n) (gene_string c), worth c)"

definition pool_shape :: "Pool \<Rightarrow> bool" where
  "pool_shape pool \<longleftrightarrow>
     0 \<le> string_length pool \<and> pool_size pool = int (length (pool_data pool)) \<and>
     (\<forall>c\<in>set (pool_data pool). length (gene_string c) = nat (string_length pool) + 1)"

lemma insert_sorted:
  assumes "sorted (worths d)" "place_ok (worth c) d k"
  shows "sorted (worths (take k d @ c # butlast (drop k d)))"
proof -
  have "sorted (take k (worths d))" "sorted (butlast (drop k (worths d)))"
    using assms(1) by (simp_all add: sorted_wrt_take sorted_wrt_drop sorted_butlast)
  moreover have "x \<le> worth c" if "x \<in> set (take k (worths d))" for x
    using that assms(2) by (auto simp: in_set_conv_nth place_ok_def worths_def)
  moreover have "worth c \<le> x" if "x \<in> set (butlast (drop k (worths d)))" for x
  proof -
    from that have "x \<in> set (drop k (worths d))" by (rule in_set_butlastD)
    then obtain i where "i < length d - k" "x = worth (d ! (k + i))"
      by (auto simp: in_set_conv_nth worths_def)
    then show ?thesis using assms(2) by (simp add: place_ok_def)
  qed
  ultimately show ?thesis by (fastforce simp: sorted_append)
qed

lemma spread_chromo_insert:
  assumes "pool_shape pool" "pool_data pool \<noteq> []" "sorted (worths (pool_data pool))"
    "string_length pool \<le> int (length (gene_string c))"
    "worth c \<le> worth (last (pool_data pool))"
  shows "\<exists>k new. spread_chromo c pool =
      Some (Inr (pool\<lparr>pool_data := take k (pool_data pool) @ new # butlast (drop k (pool_data pool))\<rparr>)) \<and>
    place_ok (worth c) (pool_data pool) k \<and>
    individual (string_length pool) new = individual (string_length pool) c \<and>
    length (gene_string new) = nat (string_length pool) + 1"
proof -
  define d where "d = pool_data pool"
  define n where "n = string_length pool"
  have len: "pool_size pool = int (length d)" "0 < length d" "0 \<le> n"
    using assms(1,2) by (auto simp: pool_shape_def d_def n_def)
  have last: "aget d (int (length d) - 1) = Inr (last d)"
  proof -
    have "nat (int (length d) - 1) = length d - 1" by simp
    then show ?thesis using len assms(2) by (simp add: aget_def last_conv_nth d_def)
  qed
  have lastn: "d ! (length d - 1) = last d" using assms(2) by (simp add: d_def last_conv_nth)
  have mid: "int (length d) div 2 = int (length d div 2)" "int (length d) - 1 = int (length d - 1)"
    using len(2) by (simp add: zdiv_int, linarith)
  have "\<exists>k. spread_search (worth c) d (int 0) (int (length d div 2)) (int (length d - 1)) =
      Some (Inr (int k)) \<and> place_ok (worth c) d k"
  proof (rule spread_search_spec)
    show "sorted (worths d)" using assms(3) by (simp add: d_def)
    show "worth c \<le> worth (d ! (length d - 1))" unfolding lastn using assms(5) by (simp add: d_def)
    show "length d div 2 \<le> length d - 1" "length d - 1 < length d"
      "length d - 1 - 0 \<ge> 2 \<longrightarrow> 0 < length d div 2 \<and> length d div 2 < length d - 1"
      using len(2) by linarith+
  qed simp_all
  then have "\<exists>k. spread_search (worth c) d 0 (int (length d) div 2) (int (length d) - 1) = Some (Inr (int k)) \<and>
      place_ok (worth c) d k" by (simp only: mid semiring_1_class.of_nat_0)
  then obtain k where k: "spread_search (worth c) d 0 (int (length d) div 2) (int (length d) - 1) =
      Some (Inr (int k))" "place_ok (worth c) d k" by blast
  have lastlen: "length (gene_string (last d)) = nat n + 1"
    using assms(1,2) by (simp add: pool_shape_def d_def n_def)
  define new where "new = \<lparr>gene_string = take (nat n) (gene_string c) @ drop (nat n) (gene_string (last d)),
    worth = worth c\<rparr>"
  have copy: "geqo_copy (last d) c n = Inr new"
    unfolding new_def using assms(4) len lastlen by (intro geqo_copy_spec) (auto simp: n_def)
  define d1 where "d1 = d[length d - 1 := new]"
  have d1: "aset d (int (length d) - 1) new = Inr d1"
  proof -
    have "nat (int (length d) - 1) = length d - 1" by simp
    then show ?thesis using len by (simp add: aset_def d1_def)
  qed
  have kd: "k < length d" using k(2) by (simp add: place_ok_def)
  have shift: "shift_loop [int k..int (length d) - 1] new d1 = Inr (take k d1 @ butlast (new # drop k d1))"
    using shift_loop_spec [of k d1 new] kd by (simp add: d1_def)
  have bl: "butlast d1 = butlast d" by (simp add: d1_def butlast_list_update)
  have "take k d1 = take k d" using kd by (simp add: d1_def)
  moreover have "butlast (drop k d1) = butlast (drop k d)" using bl by (simp add: butlast_drop)
  moreover have "drop k d1 \<noteq> []" using kd by (simp add: d1_def)
  ultimately have data: "take k d1 @ butlast (new # drop k d1) = take k d @ new # butlast (drop k d)"
    by simp
  have "\<not> worth c > worth (last d)" using assms(5) by (simp add: d_def)
  then have "spread_chromo c pool = Some (Inr (pool\<lparr>pool_data := take k d @ new # butlast (drop k d)\<rparr>))"
    unfolding spread_chromo_def Let_def d_def [symmetric] n_def [symmetric] len(1) last sum.case k(1) option.case
    by (simp only: copy d1 shift [unfolded data] res_bind_simps Let_def if_False)
  moreover have "individual n new = individual n c" "length (gene_string new) = nat n + 1"
    using assms(4) lastlen len(3) by (auto simp: individual_def new_def n_def)
  ultimately show ?thesis using k(2) unfolding d_def n_def by blast
qed

lemma mset_spread:
  assumes "k < length d"
  shows "mset (take k d @ c # butlast (drop k d)) = add_mset c (mset (butlast d))"
proof -
  have "butlast d = take k d @ butlast (drop k d)"
    using assms by (metis append_take_drop_id butlast_append drop_eq_Nil not_le)
  then show ?thesis by simp
qed

section \<open>Selection\<close>

text \<open>The distribution function to the density \<open>bias - 2 (bias - 1) x\<close>.\<close>

definition linear_cdf :: "real \<Rightarrow> real \<Rightarrow> real" where
  "linear_cdf bias x = bias * x - (bias - 1) * x\<^sup>2"

lemma linear_cdf_mono:
  assumes "1 < bias" "bias \<le> 2" "x < y" "y \<le> 1"
  shows "linear_cdf bias x < linear_cdf bias y"
proof -
  have "linear_cdf bias y - linear_cdf bias x = (y - x) * (bias - (bias - 1) * (x + y))"
    by (simp add: linear_cdf_def power2_eq_square algebra_simps)
  moreover have "(bias - 1) * (x + y) < (bias - 1) * 2" using assms by (intro mult_strict_left_mono) simp_all
  then have "0 < bias - (bias - 1) * (x + y)" using assms(2) by simp
  ultimately show ?thesis using assms(3) mult_pos_pos [of "y - x" "bias - (bias - 1) * (x + y)"] by linarith
qed

text \<open>In exact arithmetic the index is the argument at which the distribution function takes the drawn value.\<close>

lemma linear_index_inverts:
  assumes "1 < bias" "bias \<le> 2" "0 \<le> r" "r < 1" "0 < sz"
  shows "\<exists>x. linear_index (\<lambda>x. x) sz bias r = of_int sz * x \<and> 0 \<le> x \<and> x < 1 \<and> linear_cdf bias x = r"
proof -
  define v where "v = bias * bias - 4 * (bias - 1) * r"
  have v: "v = (2 - bias)\<^sup>2 + 4 * (bias - 1) * (1 - r)"
    by (simp add: v_def power2_eq_square algebra_simps)
  have "0 < 4 * (bias - 1) * (1 - r)" using assms by simp
  then have "(2 - bias)\<^sup>2 < v" "0 < v" using v by (simp_all add: add_nonneg_pos)
  then have up: "2 - bias < sqrt v" by (simp add: real_less_rsqrt)
  have "v \<le> bias\<^sup>2" using assms by (simp add: v_def power2_eq_square)
  then have lo: "sqrt v \<le> bias" using assms by (simp add: real_le_lsqrt)
  define x where "x = (bias - sqrt v) / (2 * (bias - 1))"
  have idx: "linear_index (\<lambda>x. x) sz bias r = of_int sz * x"
    unfolding x_def using \<open>0 < v\<close>
    by (simp only: linear_index_def v_def [symmetric] Let_def if_True times_divide_eq_right divide_divide_eq_left)
  have "0 \<le> x" "x < 1" using lo up assms by (simp_all add: x_def divide_less_eq)
  moreover have "linear_cdf bias x = r"
  proof -
    have "sqrt v = bias - 2 * (bias - 1) * x" using assms(1) by (simp add: x_def)
    then have "v = (bias - 2 * (bias - 1) * x)\<^sup>2" using \<open>0 < v\<close> real_sqrt_pow2 [of v] by simp
    also have "\<dots> = bias * bias - 4 * (bias - 1) * linear_cdf bias x"
      by (simp add: linear_cdf_def power2_eq_square algebra_simps)
    finally show ?thesis using assms(1) by (simp add: v_def)
  qed
  ultimately show ?thesis using idx by blast
qed

lemma linear_index_range:
  assumes "1 < bias" "bias \<le> 2" "0 \<le> r" "r < 1" "0 < sz"
  shows "0 \<le> linear_index (\<lambda>x. x) sz bias r \<and> linear_index (\<lambda>x. x) sz bias r < of_int sz"
proof -
  obtain x where x: "linear_index (\<lambda>x. x) sz bias r = of_int sz * x" "0 \<le> x" "x < 1"
    using linear_index_inverts [OF assms] by blast
  have "of_int sz * x < of_int sz * 1" using x(3) assms(5) by (intro mult_strict_left_mono) simp_all
  then show ?thesis using x assms(5) by simp
qed

lemma trunc_range: "0 \<le> x \<Longrightarrow> x < of_int n \<Longrightarrow> 0 \<le> trunc_to_int x \<and> trunc_to_int x < n"
  by (simp add: trunc_to_int_def floor_less_iff)

text \<open>In exact arithmetic the first draw is always accepted.\<close>

lemma linear_rand_eq:
  assumes "1 < bias" "bias \<le> 2" "0 < sz"
  shows "linear_rand (\<lambda>x. x) sz bias s =
    Some (Inr (trunc_to_int (linear_index (\<lambda>x. x) sz bias (fst (pg_prng_double s))), snd (xoroshiro128ss s)))"
proof -
  have draw: "geqo_rand s = Some (Inr (fst (pg_prng_double s), snd (xoroshiro128ss s)))"
    by (simp add: geqo_rand_def pg_prng_double_def case_prod_beta)
  have "0 \<le> fst (pg_prng_double s)" "fst (pg_prng_double s) < 1" using pg_prng_double_range by simp_all
  from linear_index_range [OF assms(1,2) this assms(3)] draw show ?thesis
    by (subst linear_rand.simps) (simp add: Let_def not_less [symmetric])
qed

text \<open>With rounding, the test of the loop keeps the result inside the pool.\<close>

lemma linear_rand_result:
  assumes "linear_rand fl sz bias s = Some r"
  shows "\<exists>i s'. r = Inr (i, s') \<and> 0 \<le> i \<and> i < sz"
  using assms
proof (induction rule: linear_rand.raw_induct [rotated, consumes 1, case_names loop])
  case (loop f fl sz bias s r)
  obtain d s' where draw: "geqo_rand s = Some (Inr (d, s'))"
    by (cases "pg_prng_double s") (simp add: geqo_rand_def)
  let ?i = "linear_index fl sz bias d"
  show ?case
  proof (cases "?i < 0 \<or> ?i \<ge> of_int sz")
    case True
    then have "f fl sz bias s' = Some r" using loop(2) draw by (simp add: Let_def)
    then show ?thesis by (rule loop(1))
  next
    case False
    then have "r = Inr (trunc_to_int ?i, s')" using loop(2) draw by (simp add: Let_def)
    then show ?thesis using trunc_range [of ?i sz] False by simp
  qed
qed

lemma linear_rand_run: "runs False (\<lambda>_. True) (linear_rand fl sz bias) (\<lambda>i. 0 \<le> i \<and> i < sz)"
  unfolding runs_def using linear_rand_result [of fl sz bias] by (fastforce split: option.split sum.split)

lemma other_rand_result:
  assumes "other_rand fl sz bias first second s = Some r" "0 \<le> second" "second < sz"
  shows "\<exists>i s'. r = Inr (i, s') \<and> 0 \<le> i \<and> i < sz \<and> i \<noteq> first"
  using assms
proof (induction rule: other_rand.raw_induct [rotated, consumes 1, case_names loop])
  case (loop f fl sz bias first second s r)
  show ?case
  proof (cases "first = second")
    case False
    then show ?thesis using loop(2) loop(3-) by auto
  next
    case True
    from True loop(2) obtain x where x: "linear_rand fl sz bias s = Some x" by (cases "linear_rand fl sz bias s") auto
    then obtain i s' where i: "x = Inr (i, s')" "0 \<le> i" "i < sz" using linear_rand_result [OF x] by blast
    then have "f fl sz bias first i s' = Some r" using True loop(2) x by simp
    from loop(1) [OF this] loop(3-) i show ?thesis by auto
  qed
qed

lemma geqo_selection_run:
  assumes "pool_shape pool"
    "length (gene_string momma) = nat (string_length pool) + 1"
    "length (gene_string daddy) = nat (string_length pool) + 1"
  shows "runs False (\<lambda>_. True) (geqo_selection fl momma daddy pool bias)
    (\<lambda>(m, d). \<exists>i j. i < length (pool_data pool) \<and> j < length (pool_data pool) \<and>
       (1 < pool_size pool \<longrightarrow> i \<noteq> j) \<and>
       individual (string_length pool) m = individual (string_length pool) (pool_data pool ! i) \<and>
       individual (string_length pool) d = individual (string_length pool) (pool_data pool ! j) \<and>
       length (gene_string m) = nat (string_length pool) + 1 \<and>
       length (gene_string d) = nat (string_length pool) + 1)"
proof -
  let ?sz = "pool_size pool" and ?n = "string_length pool" and ?d = "pool_data pool"
  have sz: "?sz = int (length ?d)" "0 \<le> ?n" using assms(1) by (auto simp: pool_shape_def)
  have index: "runs False (\<lambda>_. True) (linear_rand fl ?sz bias) (\<lambda>i. 0 \<le> i \<and> i < ?sz)" by (rule linear_rand_run)
  have other: "runs False (\<lambda>_. True)
      (if ?sz > 1 then other_rand fl ?sz bias first second else rnd_return second)
      (\<lambda>j. 0 \<le> j \<and> j < ?sz \<and> (1 < ?sz \<longrightarrow> first \<noteq> j))" if "0 \<le> second" "second < ?sz" for first second
    unfolding runs_def
    using other_rand_result [of fl ?sz bias first second] that
    by (fastforce simp: rnd_return_def split: option.split sum.split)
  have copy: "\<exists>c'. res_bind (aget ?d i) (\<lambda>c. geqo_copy c0 c ?n) = Inr c' \<and>
      individual ?n c' = individual ?n (?d ! nat i) \<and> length (gene_string c') = nat ?n + 1"
    if "0 \<le> i" "i < ?sz" "length (gene_string c0) = nat ?n + 1" for i c0
  proof -
    have len: "length (gene_string (?d ! nat i)) = nat ?n + 1"
      using assms(1) that sz by (simp add: pool_shape_def nat_less_iff)
    then have "geqo_copy c0 (?d ! nat i) ?n =
        Inr \<lparr>gene_string = take (nat ?n) (gene_string (?d ! nat i)) @ drop (nat ?n) (gene_string c0),
          worth = worth (?d ! nat i)\<rparr>"
      using that sz by (intro geqo_copy_spec) auto
    then show ?thesis using that sz len by (auto simp: aget_def individual_def)
  qed
  show ?thesis unfolding geqo_selection_def
  proof (intro runs_bind [OF index] runs_bind [OF other])
    fix first second0 second
    assume f: "0 \<le> first \<and> first < ?sz" and s: "0 \<le> second \<and> second < ?sz \<and> (1 < ?sz \<longrightarrow> first \<noteq> second)"
    from copy [of first momma] f assms(2) obtain m where
      m: "res_bind (aget ?d first) (\<lambda>c. geqo_copy momma c ?n) = Inr m"
        "individual ?n m = individual ?n (?d ! nat first)" "length (gene_string m) = nat ?n + 1" by blast
    from copy [of second daddy] s assms(3) obtain d where
      d: "res_bind (aget ?d second) (\<lambda>c. geqo_copy daddy c ?n) = Inr d"
        "individual ?n d = individual ?n (?d ! nat second)" "length (gene_string d) = nat ?n + 1" by blast
    show "runs False (\<lambda>_. True)
       (rnd_bind (rnd_res (res_bind (aget ?d first) (\<lambda>c. geqo_copy momma c ?n))) (\<lambda>momma'.
        rnd_bind (rnd_res (res_bind (aget ?d second) (\<lambda>c. geqo_copy daddy c ?n))) (\<lambda>daddy'.
          rnd_return (momma', daddy'))))
       (\<lambda>(m, d). \<exists>i j. i < length ?d \<and> j < length ?d \<and> (1 < ?sz \<longrightarrow> i \<noteq> j) \<and>
         individual ?n m = individual ?n (?d ! i) \<and> individual ?n d = individual ?n (?d ! j) \<and>
         length (gene_string m) = nat ?n + 1 \<and> length (gene_string d) = nat ?n + 1)"
    proof (rule runs_res_bind [OF m(1)], rule runs_res_bind [OF d(1)], rule runs_return)
      have "nat first < length ?d" "nat second < length ?d" "1 < ?sz \<longrightarrow> nat first \<noteq> nat second"
        using f s sz by auto
      then show "case (m, d) of (m, d) \<Rightarrow> \<exists>i j. i < length ?d \<and> j < length ?d \<and> (1 < ?sz \<longrightarrow> i \<noteq> j) \<and>
         individual ?n m = individual ?n (?d ! i) \<and> individual ?n d = individual ?n (?d ! j) \<and>
         length (gene_string m) = nat ?n + 1 \<and> length (gene_string d) = nat ?n + 1"
        using m d by auto
    qed
  qed auto
qed

section \<open>The initial pool\<close>

text \<open>
  A chromosome of the pool: a permutation with the worth the evaluation gave it in some state of
  those in \<open>I\<close>.
\<close>

definition good_chromo :: "(Gene list \<Rightarrow> 's \<Rightarrow> (real \<times> 's) res) \<Rightarrow> ('s \<Rightarrow> bool) \<Rightarrow> int \<Rightarrow> Chromosome \<Rightarrow> bool" where
  "good_chromo eval I n c \<longleftrightarrow>
     is_tour n (take (nat n) (gene_string c)) \<and>
     (\<exists>u u'. I u \<and> eval (take (nat n) (gene_string c)) u = Inr (worth c, u')) \<and> worth c < DBL_MAX"

lemma pool_shape_update:
  assumes "pool_shape pool" "0 \<le> i" "i < pool_size pool" "length (gene_string c) = nat (string_length pool) + 1"
  shows "aset (pool_data pool) i c = Inr ((pool_data pool)[nat i := c]) \<and>
    pool_shape (pool\<lparr>pool_data := (pool_data pool)[nat i := c]\<rparr>)"
  using assms set_update_subset_insert [of "pool_data pool" "nat i" c]
  by (auto simp: pool_shape_def aset_def)

lemma init_pool_step:
  assumes "pool_shape pool" "0 \<le> i" "i < pool_size pool" "string_length pool < 2 ^ 31"
    and "rnd_bind (rnd_res (aget (pool_data pool) i)) (\<lambda>c.
      rnd_bind (init_tour (gene_string c) (string_length pool)) (\<lambda>tour.
      rnd_bind (rnd_res (eval (take (nat (string_length pool)) tour) st)) (\<lambda>(w, st').
      rnd_bind (rnd_res (aset (pool_data pool) i \<lparr>gene_string = tour, worth = w\<rparr>)) (\<lambda>d.
      rnd_return (d, w, st'))))) s = Some r"
  shows "\<exists>tour s'. length tour = nat (string_length pool) + 1 \<and>
    is_tour (string_length pool) (take (nat (string_length pool)) tour) \<and>
    (case eval (take (nat (string_length pool)) tour) st of
       Inl e \<Rightarrow> r = Inl e
     | Inr (w, st') \<Rightarrow> r = Inr (((pool_data pool)[nat i := \<lparr>gene_string = tour, worth = w\<rparr>], w, st'), s'))"
proof -
  let ?n = "string_length pool" and ?c = "pool_data pool ! nat i"
  have get: "aget (pool_data pool) i = Inr ?c" and len: "length (gene_string ?c) = nat ?n + 1" "0 \<le> ?n"
    using assms(1-3) by (auto simp: pool_shape_def aget_def)
  have tour: "runs False (\<lambda>_. True) (init_tour (gene_string ?c) ?n)
      (\<lambda>t. length t = length (gene_string ?c) \<and> is_tour ?n (take (nat ?n) t))"
    using len assms(4) by (intro any_source.init_tour_run) auto
  obtain x where x: "init_tour (gene_string ?c) ?n s = Some x"
    using assms(5) get by (cases "init_tour (gene_string ?c) ?n s") (auto simp: rnd_bind_def rnd_res_def)
  obtain t s' where t: "x = Inr (t, s')" "length t = nat ?n + 1" "is_tour ?n (take (nat ?n) t)"
    using runs_some [OF tour _ x] len by auto
  have "aset (pool_data pool) i \<lparr>gene_string = t, worth = w\<rparr> = Inr ((pool_data pool)[nat i := \<lparr>gene_string = t, worth = w\<rparr>])" for w
    using pool_shape_update [OF assms(1-3), of "\<lparr>gene_string = t, worth = w\<rparr>"] t(2) by simp
  then have "case eval (take (nat ?n) t) st of
       Inl e \<Rightarrow> r = Inl e
     | Inr (w, st') \<Rightarrow> r = Inr (((pool_data pool)[nat i := \<lparr>gene_string = t, worth = w\<rparr>], w, st'), s')"
    using assms(5) get x t(1)
    by (auto simp: rnd_bind_def rnd_res_def rnd_return_def split: sum.splits prod.splits)
  then show ?thesis using t(2,3) by blast
qed

text \<open>A number of evaluations of tours in a row, each without a valid plan.\<close>

primrec failing_run :: "(Gene list \<Rightarrow> 's \<Rightarrow> (real \<times> 's) res) \<Rightarrow> int \<Rightarrow> nat \<Rightarrow> 's \<Rightarrow> bool" where
  "failing_run eval n 0 u = True"
| "failing_run eval n (Suc k) u =
     (\<exists>t w u'. mset t = mset [1..n] \<and> eval t u = Inr (w, u') \<and> w \<ge> DBL_MAX \<and> failing_run eval n k u')"

lemma init_pool_loop_result:
  assumes "init_pool_loop eval pool i bad st s = Some r" "pool_shape pool" "0 \<le> i" "i \<le> pool_size pool"
    "string_length pool < 2 ^ 31" "list_all (good_chromo eval I (string_length pool)) (take (nat i) (pool_data pool))"
    "I st" "\<forall>t u w u'. is_tour (string_length pool) t \<longrightarrow> I u \<longrightarrow> eval t u = Inr (w, u') \<longrightarrow> I u'" "i = 0 \<longrightarrow> bad < 10000"
  shows "case r of
      Inl e \<Rightarrow> (\<exists>t u. is_tour (string_length pool) t \<and> I u \<and> eval t u = Inl e) \<or>
        e = Elog ''geqo failed to make a valid plan'' \<and> i = 0 \<and> failing_run eval (string_length pool) (nat (10000 - bad)) st
    | Inr ((pool', st'), s') \<Rightarrow> pool_shape pool' \<and> pool_size pool' = pool_size pool \<and>
        string_length pool' = string_length pool \<and> I st' \<and>
        list_all (good_chromo eval I (string_length pool)) (pool_data pool')"
  using assms
proof (induction rule: init_pool_loop.raw_induct [rotated, consumes 1, case_names loop])
  case (loop f eval pool i bad st s r)
  show ?case
  proof (cases "i < pool_size pool")
    case False
    then have "nat i = length (pool_data pool)" using loop(3-6) by (simp add: pool_shape_def)
    then show ?thesis using loop(2-8) False by auto
  next
    case True
    let ?n = "string_length pool"
    let ?m = "rnd_bind (rnd_res (aget (pool_data pool) i)) (\<lambda>c.
      rnd_bind (init_tour (gene_string c) ?n) (\<lambda>tour.
      rnd_bind (rnd_res (eval (take (nat ?n) tour) st)) (\<lambda>(w, st').
      rnd_bind (rnd_res (aset (pool_data pool) i \<lparr>gene_string = tour, worth = w\<rparr>)) (\<lambda>d.
      rnd_return (d, w, st')))))"
    obtain x where x: "?m s = Some x" using loop(2) True by (cases "?m s") auto
    obtain t s' where t: "length t = nat ?n + 1" "is_tour ?n (take (nat ?n) t)"
        "case eval (take (nat ?n) t) st of Inl e \<Rightarrow> x = Inl e
         | Inr (w, st') \<Rightarrow> x = Inr (((pool_data pool)[nat i := \<lparr>gene_string = t, worth = w\<rparr>], w, st'), s')"
      using init_pool_step [where eval = eval and st = st, OF loop(3,4) True loop(6) x] by blast
    show ?thesis
    proof (cases "eval (take (nat ?n) t) st")
      case (Inl e)
      then have "r = Inl e" using t(3) loop(2) True x by auto
      then show ?thesis using Inl t(2) loop(8) by auto
    next
      case (Inr y)
      obtain w st' where y: "y = (w, st')" by (cases y)
      let ?c = "\<lparr>gene_string = t, worth = w\<rparr>"
      let ?pool = "pool\<lparr>pool_data := (pool_data pool)[nat i := ?c]\<rparr>"
      have xe: "x = Inr (((pool_data pool)[nat i := ?c], w, st'), s')" using t(3) Inr y by simp
      have shape: "pool_shape ?pool" using pool_shape_update [OF loop(3,4) True, of ?c] t(1) by simp
      have I': "I st'" using loop(9) t(2) loop(8) Inr y by blast
      have ilen: "nat i < length (pool_data pool)" using loop(3,4) True by (simp add: pool_shape_def nat_less_iff)
      have same: "take (nat i) ((pool_data pool)[nat i := ?c]) = take (nat i) (pool_data pool)" by simp
      have next_i: "take (nat (i + 1)) ((pool_data pool)[nat i := ?c]) = take (nat i) (pool_data pool) @ [?c]"
        using ilen loop(4) by (simp add: nat_add_distrib take_Suc_conv_app_nth)
      have step: "(r = Inl (Elog ''geqo failed to make a valid plan'') \<and> w \<ge> DBL_MAX \<and> i = 0 \<and> bad + 1 \<ge> 10000) \<or>
          (w < DBL_MAX \<and> f eval ?pool (i + 1) bad st' s' = Some r) \<or>
          (w \<ge> DBL_MAX \<and> (i = 0 \<longrightarrow> bad + 1 < 10000) \<and> f eval ?pool i (bad + 1) st' s' = Some r)"
        using loop(2) True x xe by (auto split: if_splits)
      have fails: "failing_run eval ?n (nat (10000 - bad)) st"
        if "w \<ge> DBL_MAX" "bad < 10000" "failing_run eval ?n (nat (10000 - (bad + 1))) st'"
      proof -
        have "nat (10000 - bad) = Suc (nat (10000 - (bad + 1)))" using that(2) by linarith
        then show ?thesis using that Inr y t(2) by (auto simp: is_tour_def)
      qed
      from step consider "r = Inl (Elog ''geqo failed to make a valid plan'')" "w \<ge> DBL_MAX" "i = 0" "bad + 1 \<ge> 10000"
        | "w < DBL_MAX" "f eval ?pool (i + 1) bad st' s' = Some r"
        | "w \<ge> DBL_MAX" "i = 0 \<longrightarrow> bad + 1 < 10000" "f eval ?pool i (bad + 1) st' s' = Some r"
        by blast
      then show ?thesis
      proof cases
        case 1
        then show ?thesis using fails loop(10) by simp
      next
        case 2
        have "good_chromo eval I ?n ?c" using t(2) 2(1) loop(8) Inr y by (auto simp: good_chromo_def)
        then have "list_all (good_chromo eval I ?n) (take (nat (i + 1)) (pool_data ?pool))"
          using loop(7) next_i by simp
        then show ?thesis using loop(1) [OF 2(2) shape _ _ _ _ I'] loop(3-6,9) True by (simp split: sum.splits prod.splits)
      next
        case 3
        then show ?thesis using loop(1) [OF 3(3) shape _ _ _ _ I'] loop(3-7,9,10) True same fails
          by (auto split: sum.splits prod.splits)
      qed
    qed
  qed
qed

lemma pool_of_alloc: "0 \<le> sz \<Longrightarrow> 0 \<le> n \<Longrightarrow> pool_shape (alloc_pool junk sz n)"
  by (auto simp: pool_shape_def alloc_pool_def alloc_chromo_def nat_add_distrib)

lemma aget_last: "xs \<noteq> [] \<Longrightarrow> aget xs (int (length xs) - 1) = Inr (last xs)"
proof -
  assume "xs \<noteq> []"
  moreover have "nat (int (length xs) - 1) = length xs - 1" by simp
  ultimately show ?thesis by (simp add: aget_def last_conv_nth)
qed

text \<open>A state whose first draws are small, small, large.\<close>

definition some_state :: pg_prng_state where
  "some_state = \<lparr>s0 = 0, s1 = 1\<rparr>"

lemma some_draws:
  "xoroshiro128ss some_state = (0, \<lparr>s0 = 65537, s1 = 0x2000000000\<rparr>)"
  "xoroshiro128ss \<lparr>s0 = 65537, s1 = 0x2000000000\<rparr> = (377493120, \<lparr>s0 = 9008440517066753, s1 = 9007336693695488\<rparr>)"
  "xoroshiro128ss \<lparr>s0 = 9008440517066753, s1 = 9007336693695488\<rparr> =
     (14995129230885394048, \<lparr>s0 = 2305843013575844864, s1 = 2305983884141010976\<rparr>)"
  by (simp_all add: xoroshiro128ss_def rotl_def some_state_def Let_def)

lemma pos64_small: "pg_leftmost_one_pos64 1 = 0" "pg_leftmost_one_pos64 2 = 1"
  by code_simp+

lemma some_ints:
  "geqo_randint 1 0 some_state = Some (Inr (0, \<lparr>s0 = 65537, s1 = 0x2000000000\<rparr>))"
  "geqo_randint 1 0 \<lparr>s0 = 65537, s1 = 0x2000000000\<rparr> =
     Some (Inr (0, \<lparr>s0 = 9008440517066753, s1 = 9007336693695488\<rparr>))"
  "geqo_randint 2 0 \<lparr>s0 = 65537, s1 = 0x2000000000\<rparr> =
     Some (Inr (0, \<lparr>s0 = 9008440517066753, s1 = 9007336693695488\<rparr>))"
  by (simp_all add: geqo_randint_def pg_prng_uint64_range_def range_loop_step some_draws pos64_small)

section \<open>Properties\<close>

text \<open>
  C22. \<^verbatim>\<open>init_tour\<close> raises no error and touches nothing outside its array: what it returns is a
  permutation of the numbers from 1 to the number of genes in the first places of the tour, with
  the rest of the array as it was in length.
\<close>

theorem init_tour_permutation:
  assumes "0 \<le> n" "n \<le> int (length t)" "n < 2 ^ 31" "init_tour t n s = Some r"
  shows "\<exists>t' s'. r = Inr (t', s') \<and> length t' = length t \<and> mset (take (nat n) t') = mset [1..n]"
  using runs_some [OF any_source.init_tour_run [OF assms(1-3)] _ assms(4)] by (auto simp: is_tour_def)

theorem init_tour_permutation_witness:
  "\<exists>t' s'. init_tour [0, 0, 0, 0] 3 some_state = Some (Inr (t', s')) \<and> length t' = 4 \<and>
     mset (take 3 t') = mset [1..3]"
proof -
  have "init_tour [0, 0, 0, 0] 3 some_state = Some (Inr ([3, 1, 2, 0], \<lparr>s0 = 9008440517066753, s1 = 9007336693695488\<rparr>))"
    by (simp add: init_tour_def upto_rec1 rnd_bind_def rnd_res_def rnd_return_def aset_def aget_def some_ints)
  from init_tour_permutation [OF _ _ _ this] show ?thesis
    unfolding \<open>init_tour _ _ _ = _\<close> by simp
qed

text \<open>
  C5. \<^verbatim>\<open>spread_chromo\<close> always returns and keeps the pool well formed and sorted by worth. A chromosome
  worse than the worst one changes nothing; any other takes the place of the worst, so the pool's
  individuals afterwards are the former ones without the worst and with the new one.
\<close>

theorem spread_chromo_keeps_pool:
  assumes "pool_shape pool" "pool_data pool \<noteq> []" "sorted (map worth (pool_data pool))"
    "string_length pool \<le> int (length (gene_string c))"
  shows "\<exists>pool'. spread_chromo c pool = Some (Inr pool') \<and> pool_shape pool' \<and>
    sorted (map worth (pool_data pool')) \<and>
    pool_size pool' = pool_size pool \<and> string_length pool' = string_length pool \<and>
    mset (map (individual (string_length pool)) (pool_data pool')) =
      (if worth c > worth (last (pool_data pool))
       then mset (map (individual (string_length pool)) (pool_data pool))
       else add_mset (individual (string_length pool) c)
         (mset (map (individual (string_length pool)) (butlast (pool_data pool)))))"
proof (cases "worth c > worth (last (pool_data pool))")
  case True
  have "spread_chromo c pool = Some (Inr pool)"
    using assms(1,2) True by (simp add: spread_chromo_def aget_last pool_shape_def)
  then show ?thesis using assms True by simp
next
  case False
  then obtain k new where k: "spread_chromo c pool =
        Some (Inr (pool\<lparr>pool_data := take k (pool_data pool) @ new # butlast (drop k (pool_data pool))\<rparr>))"
      "place_ok (worth c) (pool_data pool) k"
      "individual (string_length pool) new = individual (string_length pool) c"
      "length (gene_string new) = nat (string_length pool) + 1"
    using spread_chromo_insert [of pool c] assms by (auto simp: worths_def)
  have kl: "k < length (pool_data pool)" using k(2) by (simp add: place_ok_def)
  have "worth new = worth c" using k(3) by (simp add: individual_def)
  then have "sorted (map worth (take k (pool_data pool) @ new # butlast (drop k (pool_data pool))))"
    using insert_sorted [of "pool_data pool" new k] assms(3) k(2) by (simp add: worths_def)
  moreover have "pool_shape (pool\<lparr>pool_data := take k (pool_data pool) @ new # butlast (drop k (pool_data pool))\<rparr>)"
    using assms(1) k(4) kl by (auto simp: pool_shape_def dest!: in_set_takeD in_set_butlastD in_set_dropD)
  moreover have "mset (map (individual (string_length pool))
        (take k (pool_data pool) @ new # butlast (drop k (pool_data pool)))) =
      add_mset (individual (string_length pool) c)
        (mset (map (individual (string_length pool)) (butlast (pool_data pool))))"
    using arg_cong [OF mset_spread [OF kl, of new], of "image_mset (individual (string_length pool))"] k(3)
    by simp
  ultimately show ?thesis using False k(1) by simp
qed

theorem spread_chromo_keeps_pool_witness:
  "\<exists>pool'. spread_chromo \<lparr>gene_string = [2, 1, 0], worth = 4\<rparr>
       \<lparr>pool_data = [\<lparr>gene_string = [1, 2, 0], worth = 3\<rparr>, \<lparr>gene_string = [1, 2, 9], worth = 7\<rparr>],
        pool_size = 2, string_length = 2\<rparr> = Some (Inr pool') \<and>
     sorted (map worth (pool_data pool')) \<and>
     mset (map (individual 2) (pool_data pool')) = {#([2, 1], 4), ([1, 2], 3)#}"
  using spread_chromo_keeps_pool [of "\<lparr>pool_data = [\<lparr>gene_string = [1, 2, 0], worth = 3\<rparr>,
      \<lparr>gene_string = [1, 2, 9], worth = 7\<rparr>], pool_size = 2, string_length = 2\<rparr>"
    "\<lparr>gene_string = [2, 1, 0], worth = 4\<rparr>"]
  by (auto simp: pool_shape_def individual_def)

text \<open>
  C21. \<^verbatim>\<open>random_init_pool\<close> on an allocated pool ends, if the draws end, in one of three ways: with an error
  that an evaluation raised; with its own error, and then the first 10000 evaluations, from the start
  on, all gave a worth of at least \<^verbatim>\<open>DBL_MAX\<close>; or with a pool of the same shape in which every chromosome is a
  permutation of the genes whose worth is its evaluation and lies below \<^verbatim>\<open>DBL_MAX\<close>. An invariant of the
  planner state that the evaluation of permutations keeps holds at every evaluation and at the end.
\<close>

theorem random_init_pool_valid:
  assumes "0 \<le> sz" "0 \<le> n" "n < 2 ^ 31" "random_init_pool eval (alloc_pool junk sz n) st s = Some r"
    "I st" "\<And>t u w u'. mset t = mset [1..n] \<Longrightarrow> I u \<Longrightarrow> eval t u = Inr (w, u') \<Longrightarrow> I u'"
  shows "case r of
      Inl e \<Rightarrow> (\<exists>t u. mset t = mset [1..n] \<and> I u \<and> eval t u = Inl e) \<or>
        e = Elog ''geqo failed to make a valid plan'' \<and> failing_run eval n 10000 st
    | Inr ((pool, st'), s') \<Rightarrow> pool_shape pool \<and> pool_size pool = sz \<and> string_length pool = n \<and> I st' \<and>
        list_all (\<lambda>c. mset (take (nat n) (gene_string c)) = mset [1..n] \<and>
          (\<exists>u u'. I u \<and> eval (take (nat n) (gene_string c)) u = Inr (worth c, u')) \<and> worth c < DBL_MAX) (pool_data pool)"
proof -
  let ?pool = "alloc_pool junk sz n"
  have shape: "pool_shape ?pool" using assms(1,2) by (simp add: pool_of_alloc)
  have size: "pool_size ?pool = sz" "string_length ?pool = n" by (simp_all add: alloc_pool_def)
  have step: "\<forall>t u w u'. is_tour n t \<longrightarrow> I u \<longrightarrow> eval t u = Inr (w, u') \<longrightarrow> I u'"
    using assms(6) unfolding is_tour_def by blast
  have start: "list_all (good_chromo eval I n) (take (nat 0) (pool_data ?pool))" by simp
  note result = init_pool_loop_result [where I = I, OF assms(4) [unfolded random_init_pool_def] shape, unfolded size,
    OF order_refl assms(1,3) start assms(5) step]
  show ?thesis using result unfolding good_chromo_def [abs_def] is_tour_def by (simp split: sum.splits prod.splits)
qed

definition sample_fitness :: "Gene list \<Rightarrow> nat \<Rightarrow> (real \<times> nat) res" where
  "sample_fitness t u = Inr (real (length t), u + 1)"

theorem random_init_pool_valid_witness:
  "\<exists>pool s'. random_init_pool sample_fitness (alloc_pool 0 2 2) 0 some_state = Some (Inr ((pool, 2), s')) \<and>
     pool_shape pool \<and> pool_size pool = 2 \<and> string_length pool = 2 \<and>
     list_all (\<lambda>c. mset (take 2 (gene_string c)) = mset [1..2] \<and> worth c < DBL_MAX) (pool_data pool)"
proof -
  have pool: "alloc_pool 0 2 2 = \<lparr>pool_data = [\<lparr>gene_string = [0, 0, 0], worth = 0\<rparr>,
      \<lparr>gene_string = [0, 0, 0], worth = 0\<rparr>], pool_size = 2, string_length = 2\<rparr>"
    by (simp add: alloc_pool_def alloc_chromo_def numeral_eq_Suc)
  have "(2::real) < DBL_MAX" by (simp add: DBL_MAX_def)
  moreover have "init_tour [0, 0, 0] 2 some_state = Some (Inr ([2, 1, 0], \<lparr>s0 = 65537, s1 = 0x2000000000\<rparr>))"
      "init_tour [0, 0, 0] 2 \<lparr>s0 = 65537, s1 = 0x2000000000\<rparr> =
         Some (Inr ([2, 1, 0], \<lparr>s0 = 9008440517066753, s1 = 9007336693695488\<rparr>))"
    by (simp_all add: init_tour_def rnd_bind_def rnd_res_def rnd_return_def aset_def aget_def some_ints)
  ultimately have "\<exists>pool s'. random_init_pool sample_fitness (alloc_pool 0 2 2) 0 some_state =
      Some (Inr ((pool, 2), s'))"
    by (simp add: random_init_pool_def pool init_pool_loop.simps rnd_bind_def rnd_res_def rnd_return_def
      aset_def aget_def sample_fitness_def)
  then obtain pool s' where run: "random_init_pool sample_fitness (alloc_pool 0 2 2) 0 some_state =
      Some (Inr ((pool, 2), s'))" by blast
  from random_init_pool_valid [OF _ _ _ run, of "\<lambda>_. True"] show ?thesis unfolding run
    by (auto simp: list_all_iff)
qed

text \<open>
  C24. \<^verbatim>\<open>linear_rand\<close> samples from the documented density \<^verbatim>\<open>f(x) = bias - 2(bias - 1)x\<close>. However the double
  operations round, an index it returns lies within the pool. In exact arithmetic, for a bias above 1
  and at most 2, it takes the first random number and returns the slot in which the distribution
  function to that density passes this number.
\<close>

theorem linear_rand_samples:
  assumes "1 < bias" "bias \<le> 2" "0 < sz"
  shows "(\<forall>fl r. 0 < fl (bias - 1) \<longrightarrow> linear_rand fl sz bias s = Some r \<longrightarrow> (\<exists>i s'. r = Inr (i, s') \<and> 0 \<le> i \<and> i < sz)) \<and>
    (\<exists>i. linear_rand (\<lambda>x. x) sz bias s = Some (Inr (i, snd (pg_prng_double s))) \<and> 0 \<le> i \<and> i < sz \<and>
      linear_cdf bias (of_int i / of_int sz) \<le> fst (pg_prng_double s) \<and>
      fst (pg_prng_double s) < linear_cdf bias ((of_int i + 1) / of_int sz))"
proof -
  let ?r = "fst (pg_prng_double s)" and ?s = "real_of_int sz"
  have r: "0 \<le> ?r" "?r < 1" using pg_prng_double_range by simp_all
  obtain x where x: "linear_index (\<lambda>x. x) sz bias ?r = ?s * x" "0 \<le> x" "x < 1" "linear_cdf bias x = ?r"
    using linear_index_inverts [OF assms(1,2) r assms(3)] by blast
  define i where "i = \<lfloor>?s * x\<rfloor>"
  have run: "linear_rand (\<lambda>x. x) sz bias s = Some (Inr (i, snd (pg_prng_double s)))"
    using x(1,2) assms(3) by (simp add: linear_rand_eq [OF assms] trunc_to_int_def i_def pg_prng_double_def case_prod_beta)
  have i: "0 \<le> i" "i < sz" using linear_rand_result [OF run] by simp_all
  have "of_int i \<le> ?s * x" "?s * x < of_int i + 1" by (simp_all add: i_def)
  then have lo: "of_int i / ?s \<le> x" and hi: "x < (of_int i + 1) / ?s"
    using assms(3) by (simp_all add: divide_le_eq less_divide_eq mult.commute)
  have "linear_cdf bias (of_int i / ?s) \<le> ?r"
    using linear_cdf_mono [OF assms(1,2), of "of_int i / ?s" x] lo x(3,4) by (cases "of_int i / ?s = x") auto
  moreover have "(of_int i + 1) / ?s \<le> 1" using i assms(3) by (simp add: divide_le_eq)
  then have "?r < linear_cdf bias ((of_int i + 1) / ?s)"
    using linear_cdf_mono [OF assms(1,2) hi] x(4) by simp
  ultimately show ?thesis using run i linear_rand_result by blast
qed

theorem linear_rand_samples_witness:
  "\<exists>i. linear_rand (\<lambda>x. x) 5 (3 / 2) some_state = Some (Inr (i, snd (pg_prng_double some_state))) \<and>
     linear_cdf (3 / 2) (of_int i / 5) \<le> 0 \<and> 0 < linear_cdf (3 / 2) ((of_int i + 1) / 5)"
proof -
  have "(1::real) < 3 / 2" "(3 / 2 :: real) \<le> 2" "(0::int) < 5" by simp_all
  from linear_rand_samples [OF this, of some_state] show ?thesis by (auto simp: pg_prng_double_def some_draws)
qed

text \<open>
  C23. \<^verbatim>\<open>geqo_selection\<close>, whenever it returns, has copied two individuals of the pool into its two
  arguments, at two different places of the pool if it has more than one, however the double
  operations of the draws round.
\<close>

theorem geqo_selection_members:
  assumes "pool_shape pool" "0 < fl (bias - 1)" "0 < pool_size pool"
    "length (gene_string momma) = nat (string_length pool) + 1"
    "length (gene_string daddy) = nat (string_length pool) + 1"
    "geqo_selection fl momma daddy pool bias s = Some r"
  shows "\<exists>m d s' i j. r = Inr ((m, d), s') \<and> i < length (pool_data pool) \<and> j < length (pool_data pool) \<and>
    (if 1 < pool_size pool then i \<noteq> j else True) \<and>
    individual (string_length pool) m = individual (string_length pool) (pool_data pool ! i) \<and>
    individual (string_length pool) d = individual (string_length pool) (pool_data pool ! j)"
proof -
  from runs_some [OF geqo_selection_run [OF assms(1,4,5)] _ assms(6)] obtain m d s' i j where
    "r = Inr ((m, d), s')" "i < length (pool_data pool)" "j < length (pool_data pool)"
    "1 < pool_size pool \<longrightarrow> i \<noteq> j"
    "individual (string_length pool) m = individual (string_length pool) (pool_data pool ! i)"
    "individual (string_length pool) d = individual (string_length pool) (pool_data pool ! j)" by auto
  then show ?thesis by (intro exI [of _ m] exI [of _ d] exI [of _ s'] exI [of _ i] exI [of _ j]) simp
qed

lemma linear_index_two:
  assumes "0 \<le> r" "r < 1"
  shows "trunc_to_int (linear_index (\<lambda>x. x) 2 2 r) = (if r < 3 / 4 then 0 else 1)"
proof -
  have idx: "linear_index (\<lambda>x. x) 2 2 r = 2 - 2 * sqrt (1 - r)"
  proof -
    have "sqrt (4 - 4 * r) = sqrt (4 * (1 - r))" by simp
    also have "\<dots> = 2 * sqrt (1 - r)" unfolding real_sqrt_mult by simp
    finally show ?thesis using assms by (simp add: linear_index_def)
  qed
  have half: "sqrt (1 - r) > 1 / 2 \<longleftrightarrow> r < 3 / 4"
    using real_sqrt_less_iff [of "1 / 4" "1 - r"] by (simp add: real_sqrt_divide)
  have "0 < sqrt (1 - r)" "sqrt (1 - r) \<le> 1" using assms by simp_all
  then show ?thesis using half unfolding idx trunc_to_int_def by (auto simp: floor_eq_iff not_less)
qed

theorem geqo_selection_members_witness:
  "\<exists>m d s' i j. geqo_selection (\<lambda>x. x) \<lparr>gene_string = [0, 0, 0], worth = 0\<rparr> \<lparr>gene_string = [0, 0, 0], worth = 0\<rparr>
       \<lparr>pool_data = [\<lparr>gene_string = [1, 2, 0], worth = 3\<rparr>, \<lparr>gene_string = [2, 1, 9], worth = 7\<rparr>],
        pool_size = 2, string_length = 2\<rparr> 2 some_state = Some (Inr ((m, d), s')) \<and>
     i < 2 \<and> j < 2 \<and> i \<noteq> j \<and>
     individual 2 m = [([1, 2], 3), ([2, 1], 7)] ! i \<and> individual 2 d = [([1, 2], 3), ([2, 1], 7)] ! j"
proof -
  let ?pool = "\<lparr>pool_data = [\<lparr>gene_string = [1, 2, 0], worth = 3\<rparr>, \<lparr>gene_string = [2, 1, 9], worth = 7\<rparr>],
    pool_size = 2, string_length = 2\<rparr>" and ?c = "\<lparr>gene_string = [0, 0, 0 :: int], worth = 0\<rparr>"
  have "linear_rand (\<lambda>x. x) 2 2 some_state = Some (Inr (0, \<lparr>s0 = 65537, s1 = 0x2000000000\<rparr>))"
      "linear_rand (\<lambda>x. x) 2 2 \<lparr>s0 = 65537, s1 = 0x2000000000\<rparr> =
         Some (Inr (0, \<lparr>s0 = 9008440517066753, s1 = 9007336693695488\<rparr>))"
      "linear_rand (\<lambda>x. x) 2 2 \<lparr>s0 = 9008440517066753, s1 = 9007336693695488\<rparr> =
         Some (Inr (1, \<lparr>s0 = 2305843013575844864, s1 = 2305983884141010976\<rparr>))"
    by (simp_all add: linear_rand_eq some_draws pg_prng_double_def linear_index_two)
  then have "\<exists>m d s'. geqo_selection (\<lambda>x. x) ?c ?c ?pool 2 some_state = Some (Inr ((m, d), s'))"
    by (simp add: geqo_selection_def rnd_bind_def rnd_res_def rnd_return_def other_rand.simps
      aget_def geqo_copy_def aset_def upto_rec1)
  then obtain m d s' where run: "geqo_selection (\<lambda>x. x) ?c ?c ?pool 2 some_state = Some (Inr ((m, d), s'))" by blast
  from geqo_selection_members [OF _ _ _ _ _ run] obtain i j where ij: "i < Suc (Suc 0)" "j < Suc (Suc 0)" "i \<noteq> j"
      "individual 2 m = individual 2 (pool_data ?pool ! i)" "individual 2 d = individual 2 (pool_data ?pool ! j)"
    by (auto simp: pool_shape_def)
  have "individual 2 (pool_data ?pool ! k) = [([1, 2], 3), ([2, 1], 7)] ! k" if "k < Suc (Suc 0)" for k
    using that by (auto simp: less_Suc_eq individual_def)
  then show ?thesis using run ij by (intro exI [of _ m] exI [of _ d] exI [of _ s'] exI [of _ i] exI [of _ j]) simp
qed

end
