(* ===== verification/Geqoerx.thy ===== *)
theory Geqoerx
  imports Geqopool
begin

text \<open>
  Edge recombination, the crossover that the genetic optimizer is built with:
  \<^verbatim>\<open>src/backend/optimizer/geqo/geqo_erx.c\<close>. The edge table holds for every city its neighbours in the two
  parents, at most four of them, with the ones common to both parents negated.
\<close>

section \<open>The edge table\<close>

record Edge =
  edge_list :: "Gene list"
  total_edges :: int
  unused_edges :: int

definition alloc_edge_table :: "Gene \<Rightarrow> int \<Rightarrow> Edge list" where
  "alloc_edge_table junk num_gene =
     replicate (nat (num_gene + 1))
       \<lparr>edge_list = replicate 4 junk, total_edges = junk, unused_edges = junk\<rparr>"

fun clear_loop :: "int list \<Rightarrow> Edge list \<Rightarrow> Edge list res" where
  "clear_loop [] edge_table = Inr edge_table"
| "clear_loop (i # is) edge_table =
     res_bind (aget edge_table i) (\<lambda>e.
     res_bind (aset edge_table i (e\<lparr>total_edges := 0, unused_edges := 0\<rparr>)) (clear_loop is))"

text \<open>The search for an edge that is already registered.\<close>

fun find_edge :: "int list \<Rightarrow> Gene list \<Rightarrow> Gene \<Rightarrow> int option res" where
  "find_edge [] edges city2 = Inr None"
| "find_edge (i # is) edges city2 =
     res_bind (aget edges i) (\<lambda>g. if \<bar>g\<bar> = city2 then Inr (Some i) else find_edge is edges city2)"

definition gimme_edge :: "Gene \<Rightarrow> Gene \<Rightarrow> Edge list \<Rightarrow> (int \<times> Edge list) res" where
  "gimme_edge city1 city2 edge_table =
     res_bind (aget edge_table city1) (\<lambda>e.
     res_bind (find_edge [0..total_edges e - 1] (edge_list e) city2) (\<lambda>found.
       case found of
         Some i \<Rightarrow>
           res_bind (aset (edge_list e) i (0 - city2)) (\<lambda>l.
           res_bind (aset edge_table city1 (e\<lparr>edge_list := l\<rparr>)) (\<lambda>t. Inr (0, t)))
       | None \<Rightarrow>
           res_bind (aset (edge_list e) (total_edges e) city2) (\<lambda>l.
           res_bind (aset edge_table city1
             (e\<lparr>edge_list := l, total_edges := total_edges e + 1, unused_edges := unused_edges e + 1\<rparr>)) (\<lambda>t.
             Inr (1, t)))))"

fun edge_loop ::
  "int list \<Rightarrow> Gene list \<Rightarrow> Gene list \<Rightarrow> int \<Rightarrow> int \<Rightarrow> Edge list \<Rightarrow> (int \<times> Edge list) res" where
  "edge_loop [] tour1 tour2 num_gene edge_total t = Inr (edge_total, t)"
| "edge_loop (index1 # is) tour1 tour2 num_gene edge_total t =
     (let index2 = (index1 + 1) mod num_gene in
      res_bind (aget tour1 index1) (\<lambda>a1. res_bind (aget tour1 index2) (\<lambda>a2.
      res_bind (gimme_edge a1 a2 t) (\<lambda>(n1, t1).
      res_bind (gimme_edge a2 a1 t1) (\<lambda>(_, t2).
      res_bind (aget tour2 index1) (\<lambda>b1. res_bind (aget tour2 index2) (\<lambda>b2.
      res_bind (gimme_edge b1 b2 t2) (\<lambda>(n2, t3).
      res_bind (gimme_edge b2 b1 t3) (\<lambda>(_, t4).
        edge_loop is tour1 tour2 num_gene (edge_total + n1 + n2) t4)))))))))"

definition gimme_edge_table ::
  "Gene list \<Rightarrow> Gene list \<Rightarrow> int \<Rightarrow> Edge list \<Rightarrow> (real \<times> Edge list) res" where
  "gimme_edge_table tour1 tour2 num_gene edge_table =
     res_bind (clear_loop [1..num_gene] edge_table) (\<lambda>t.
     res_bind (edge_loop [0..num_gene - 1] tour1 tour2 num_gene 0 t) (\<lambda>(edge_total, t').
       Inr (of_int (edge_total * 2) / of_int num_gene, t')))"

section \<open>The new tour\<close>

fun remove_inner :: "int list \<Rightarrow> Gene \<Rightarrow> int \<Rightarrow> int \<Rightarrow> Edge list \<Rightarrow> Edge list res" where
  "remove_inner [] gene possess_edge genes_remaining t = Inr t"
| "remove_inner (j # js) gene possess_edge genes_remaining t =
     res_bind (aget t possess_edge) (\<lambda>e.
     res_bind (aget (edge_list e) j) (\<lambda>g.
       if \<bar>g\<bar> = gene
       then res_bind (aget (edge_list e) (genes_remaining - 1)) (\<lambda>last_g.
            res_bind (aset (edge_list e) j last_g) (\<lambda>l.
              aset t possess_edge (e\<lparr>edge_list := l, unused_edges := unused_edges e - 1\<rparr>)))
       else remove_inner js gene possess_edge genes_remaining t))"

fun remove_loop :: "int list \<Rightarrow> Gene \<Rightarrow> Edge \<Rightarrow> Edge list \<Rightarrow> Edge list res" where
  "remove_loop [] gene edge t = Inr t"
| "remove_loop (i # is) gene edge t =
     res_bind (aget (edge_list edge) i) (\<lambda>g.
     res_bind (aget t \<bar>g\<bar>) (\<lambda>e.
     res_bind (remove_inner [0..unused_edges e - 1] gene \<bar>g\<bar> (unused_edges e) t)
       (remove_loop is gene edge)))"

definition remove_gene :: "Gene \<Rightarrow> Edge \<Rightarrow> Edge list \<Rightarrow> Edge list res" where
  "remove_gene gene edge t = remove_loop [0..unused_edges edge - 1] gene edge t"

text \<open>
  The two loops of \<^verbatim>\<open>gimme_gene\<close>. The first one ends early at a shared edge, or gives the minimum and how
  many candidates have it.
\<close>

fun minimum_loop :: "int list \<Rightarrow> Edge \<Rightarrow> Edge list \<Rightarrow> int \<Rightarrow> int \<Rightarrow> (Gene + int \<times> int) res" where
  "minimum_loop [] edge t minimum_edges minimum_count = Inr (Inr (minimum_edges, minimum_count))"
| "minimum_loop (i # is) edge t minimum_edges minimum_count =
     res_bind (aget (edge_list edge) i) (\<lambda>friend.
       if friend < 0 then Inr (Inl \<bar>friend\<bar>)
       else res_bind (aget t friend) (\<lambda>e.
         if unused_edges e < minimum_edges then minimum_loop is edge t (unused_edges e) 1
         else if minimum_count = - 1 then Inl (Elog ''minimum_count not set'')
         else if unused_edges e = minimum_edges then minimum_loop is edge t minimum_edges (minimum_count + 1)
         else minimum_loop is edge t minimum_edges minimum_count))"

fun choose_loop :: "int list \<Rightarrow> Edge \<Rightarrow> Edge list \<Rightarrow> int \<Rightarrow> int \<Rightarrow> int \<Rightarrow> Gene res" where
  "choose_loop [] edge t minimum_edges minimum_count rand_decision =
     Inl (Elog ''neither shared nor minimum number nor random edge found'')"
| "choose_loop (i # is) edge t minimum_edges minimum_count rand_decision =
     res_bind (aget (edge_list edge) i) (\<lambda>friend.
     res_bind (aget t friend) (\<lambda>e.
       if unused_edges e = minimum_edges
       then (if minimum_count - 1 = rand_decision then Inr friend
             else choose_loop is edge t minimum_edges (minimum_count - 1) rand_decision)
       else choose_loop is edge t minimum_edges minimum_count rand_decision))"

definition gimme_gene :: "Edge \<Rightarrow> Edge list \<Rightarrow> Gene rnd" where
  "gimme_gene edge t =
     rnd_bind (rnd_res (minimum_loop [0..unused_edges edge - 1] edge t 5 (- 1))) (\<lambda>r.
       case r of
         Inl shared \<Rightarrow> rnd_return shared
       | Inr (minimum_edges, minimum_count) \<Rightarrow>
           rnd_bind (geqo_randint (minimum_count - 1) 0) (\<lambda>rand_decision.
             rnd_res (choose_loop [0..unused_edges edge - 1] edge t minimum_edges minimum_count rand_decision)))"

text \<open>\<^verbatim>\<open>edge_failure\<close>: the counting loop, and the loop that finds the drawn city.\<close>

fun remaining_loop :: "int list \<Rightarrow> Gene \<Rightarrow> Edge list \<Rightarrow> int \<Rightarrow> int \<Rightarrow> (int \<times> int) res" where
  "remaining_loop [] fail_gene t remaining_edges four_count = Inr (remaining_edges, four_count)"
| "remaining_loop (i # is) fail_gene t remaining_edges four_count =
     res_bind (aget t i) (\<lambda>e.
       if unused_edges e \<noteq> - 1 \<and> i \<noteq> fail_gene
       then remaining_loop is fail_gene t (remaining_edges + 1)
              (if total_edges e = 4 then four_count + 1 else four_count)
       else remaining_loop is fail_gene t remaining_edges four_count)"

fun drawn_loop :: "int list \<Rightarrow> bool \<Rightarrow> Gene \<Rightarrow> Edge list \<Rightarrow> int \<Rightarrow> int \<Rightarrow> Gene res" where
  "drawn_loop [] fours fail_gene t cnt rand_decision = Inl (Elog ''no edge found'')"
| "drawn_loop (i # is) fours fail_gene t cnt rand_decision =
     res_bind (aget t i) (\<lambda>e.
       if i \<noteq> fail_gene \<and> unused_edges e \<noteq> - 1 \<and> (fours \<longrightarrow> total_edges e = 4)
       then (if rand_decision = cnt - 1 then Inr i
             else drawn_loop is fours fail_gene t (cnt - 1) rand_decision)
       else drawn_loop is fours fail_gene t cnt rand_decision)"

fun last_point_loop :: "int list \<Rightarrow> Edge list \<Rightarrow> Gene res" where
  "last_point_loop [] t = Inl (Elog ''no edge found'')"
| "last_point_loop (i # is) t =
     res_bind (aget t i) (\<lambda>e. if unused_edges e \<ge> 0 then Inr i else last_point_loop is t)"

definition edge_failure :: "Gene list \<Rightarrow> int \<Rightarrow> Edge list \<Rightarrow> int \<Rightarrow> Gene rnd" where
  "edge_failure gene index t num_gene =
     rnd_bind (rnd_res (aget gene index)) (\<lambda>fail_gene.
     rnd_bind (rnd_res (remaining_loop [1..num_gene] fail_gene t 0 0)) (\<lambda>(remaining_edges, four_count).
       if four_count \<noteq> 0
       then rnd_bind (geqo_randint (four_count - 1) 0) (\<lambda>r.
              rnd_res (drawn_loop [1..num_gene] True fail_gene t four_count r))
       else if remaining_edges \<noteq> 0
       then rnd_bind (geqo_randint (remaining_edges - 1) 0) (\<lambda>r.
              rnd_res (drawn_loop [1..num_gene] False fail_gene t remaining_edges r))
       else rnd_res (last_point_loop [1..num_gene] t)))"

fun tour_loop :: "int list \<Rightarrow> Edge list \<Rightarrow> Gene list \<Rightarrow> int \<Rightarrow> int \<Rightarrow> (int \<times> Gene list \<times> Edge list) rnd" where
  "tour_loop [] t new_gene num_gene edge_failures = rnd_return (edge_failures, new_gene, t)"
| "tour_loop (i # is) t new_gene num_gene edge_failures =
     rnd_bind (rnd_res (aget new_gene (i - 1))) (\<lambda>prev.
     rnd_bind (rnd_res (res_bind (aget t prev) (\<lambda>e. remove_gene prev e t))) (\<lambda>t1.
     rnd_bind (rnd_res (aget t1 prev)) (\<lambda>e1.
     rnd_bind (if unused_edges e1 > 0 then gimme_gene e1 t1 else edge_failure new_gene (i - 1) t1 num_gene)
       (\<lambda>g.
     rnd_bind (rnd_res (aset new_gene i g)) (\<lambda>new_gene1.
     rnd_bind (rnd_res (aset t1 prev (e1\<lparr>unused_edges := - 1\<rparr>))) (\<lambda>t2.
       tour_loop is t2 new_gene1 num_gene
         (if unused_edges e1 > 0 then edge_failures else edge_failures + 1)))))))"

definition gimme_tour :: "Edge list \<Rightarrow> Gene list \<Rightarrow> int \<Rightarrow> (int \<times> Gene list \<times> Edge list) rnd" where
  "gimme_tour edge_table new_gene num_gene =
     rnd_bind (geqo_randint num_gene 1) (\<lambda>g.
     rnd_bind (rnd_res (aset new_gene 0 g)) (\<lambda>new_gene1.
       tour_loop [1..num_gene - 1] edge_table new_gene1 num_gene 0))"

section \<open>Edges of tours\<close>

definition tour_edges :: "Gene list \<Rightarrow> int \<Rightarrow> (Gene \<times> Gene) set" where
  "tour_edges t n = (\<Union>i<nat n. {(t ! i, t ! (Suc i mod nat n)), (t ! (Suc i mod nat n), t ! i)})"

text \<open>The neighbours in the edge table that are still there.\<close>

definition nb :: "Edge \<Rightarrow> Gene list" where
  "nb e = map abs (take (nat (unused_edges e)) (edge_list e))"

lemma tour_edges_sym: "(a, b) \<in> tour_edges t n \<longleftrightarrow> (b, a) \<in> tour_edges t n"
  by (auto simp: tour_edges_def)

lemma tour_edges_range:
  assumes "(a, b) \<in> tour_edges t n" "0 < n" "n \<le> int (length t)" "is_tour n (take (nat n) t)"
  shows "a \<in> {1..n}"
proof -
  obtain i where "i < nat n" "a = t ! i"
    using assms(1) by (auto simp: tour_edges_def) (metis assms(2) mod_less_divisor zero_less_nat_eq)
  then have "a \<in> set (take (nat n) t)" using assms(3) by (auto simp: in_set_conv_nth)
  then show ?thesis using assms(4) by (metis is_tour_def set_mset_mset set_upto)
qed

lemma tour_distinct: "is_tour n (take (nat n) t) \<Longrightarrow> distinct (take (nat n) t)"
  unfolding is_tour_def by (metis distinct_upto mset_eq_imp_distinct_iff)

lemma tour_inj:
  assumes "n \<le> int (length t)" "is_tour n (take (nat n) t)" "i < nat n" "j < nat n" "t ! i = t ! j"
  shows "i = j"
proof -
  have "nat n \<le> length t" using assms(1) by simp
  then show ?thesis using nth_eq_iff_index_eq [OF tour_distinct [OF assms(2)], of i j] assms(3-5) by simp
qed

lemma tour_edges_irrefl:
  assumes "1 < n" "n \<le> int (length t)" "is_tour n (take (nat n) t)"
  shows "(a, a) \<notin> tour_edges t n"
proof
  assume "(a, a) \<in> tour_edges t n"
  then obtain i where i: "i < nat n" "t ! i = t ! (Suc i mod nat n)" by (auto simp: tour_edges_def)
  have "Suc i mod nat n < nat n" using assms(1) by simp
  then have "i = Suc i mod nat n"
    using tour_inj [OF assms(2,3) i(1) _ i(2)] by simp
  then show False using assms(1) i(1) by (cases "Suc i = nat n") (auto simp: mod_Suc)
qed

lemma tour_edges_card:
  assumes "0 < n" "n \<le> int (length t)" "is_tour n (take (nat n) t)"
  shows "finite {b. (a, b) \<in> tour_edges t n}" "card {b. (a, b) \<in> tour_edges t n} \<le> 2"
proof -
  have "\<exists>x y. {b. (a, b) \<in> tour_edges t n} \<subseteq> {x, y}"
  proof (cases "\<exists>k<nat n. t ! k = a")
    case True
    then obtain k where k: "k < nat n" "t ! k = a" by blast
    have uniq: "i = k" if "i < nat n" "t ! i = a" for i
      using tour_inj [OF assms(2,3) that(1) k(1)] that(2) k(2) by simp
    have "b \<in> {t ! (Suc k mod nat n), t ! (if k = 0 then nat n - 1 else k - 1)}" if "(a, b) \<in> tour_edges t n" for b
    proof -
      from that consider i where "i < nat n" "a = t ! i" "b = t ! (Suc i mod nat n)"
        | i where "i < nat n" "b = t ! i" "a = t ! (Suc i mod nat n)" by (auto simp: tour_edges_def)
      then show ?thesis
      proof cases
        case 1
        then show ?thesis using uniq by auto
      next
        case 2
        then have "Suc i mod nat n = k" using uniq [of "Suc i mod nat n"] assms(1) by simp
        then have "i = (if k = 0 then nat n - 1 else k - 1)"
          using 2(1) by (cases "Suc i = nat n") auto
        then show ?thesis using 2 by simp
      qed
    qed
    then show ?thesis by blast
  next
    case False
    have "Suc i mod nat n < nat n" for i using assms(1) by simp
    then have "{b. (a, b) \<in> tour_edges t n} = {}" using False by (auto simp: tour_edges_def)
    then show ?thesis by blast
  qed
  then obtain x y where sub: "{b. (a, b) \<in> tour_edges t n} \<subseteq> {x, y}" by blast
  then show "finite {b. (a, b) \<in> tour_edges t n}" by (rule finite_subset) simp
  have "card {b. (a, b) \<in> tour_edges t n} \<le> card {x, y}" using sub by (intro card_mono) auto
  also have "card {x, y} \<le> 2" by (cases "x = y") auto
  finally show "card {b. (a, b) \<in> tour_edges t n} \<le> 2" .
qed

section \<open>Building the table\<close>

text \<open>An edge entry while the table is built, and a table that holds exactly the edges in \<open>E\<close>.\<close>

definition fresh_edge :: "Edge \<Rightarrow> bool" where
  "fresh_edge e \<longleftrightarrow> length (edge_list e) = 4 \<and> total_edges e = unused_edges e \<and> 0 \<le> unused_edges e \<and>
     unused_edges e \<le> 4"

definition holds_edges :: "int \<Rightarrow> Edge list \<Rightarrow> (Gene \<times> Gene) set \<Rightarrow> bool" where
  "holds_edges n t E \<longleftrightarrow> length t = nat n + 1 \<and>
     (\<forall>c\<in>{1..n}. fresh_edge (t ! nat c) \<and> distinct (nb (t ! nat c)) \<and> set (nb (t ! nat c)) = {d. (c, d) \<in> E})"

lemma length_nb: "fresh_edge e \<Longrightarrow> length (nb e) = nat (unused_edges e)"
  by (auto simp: fresh_edge_def nb_def)

lemma nb_mem: "d \<in> set (nb e) \<longleftrightarrow> (\<exists>i<length (edge_list e). i < nat (unused_edges e) \<and> d = \<bar>edge_list e ! i\<bar>)"
  by (auto simp: nb_def set_conv_nth simp del: set_map) force

lemma find_edge_result:
  "\<forall>i\<in>set is. 0 \<le> i \<and> i < int (length l) \<Longrightarrow>
   (\<exists>i\<in>set is. find_edge is l c = Inr (Some i) \<and> \<bar>l ! nat i\<bar> = c) \<or>
   (find_edge is l c = Inr None \<and> (\<forall>i\<in>set is. \<bar>l ! nat i\<bar> \<noteq> c))"
  by (induction "is") (auto simp: aget_ok)

lemma gimme_edge_known:
  assumes "0 \<le> c1" "c1 < int (length t)" "fresh_edge (t ! nat c1)" "c2 \<in> set (nb (t ! nat c1))"
  shows "\<exists>e'. gimme_edge c1 c2 t = Inr (0, t[nat c1 := e']) \<and> fresh_edge e' \<and> nb e' = nb (t ! nat c1)"
proof -
  let ?e = "t ! nat c1" let ?l = "edge_list ?e" and ?k = "total_edges ?e"
  have k: "0 \<le> ?k" "?k \<le> 4" "length ?l = 4" "unused_edges ?e = ?k" using assms(3) by (auto simp: fresh_edge_def)
  obtain i0 where i0: "i0 < nat ?k" "\<bar>?l ! i0\<bar> = c2" "0 \<le> c2"
    using assms(4) k by (auto simp: nb_mem)
  have "int i0 \<in> set [0..?k - 1]" "\<bar>?l ! nat (int i0)\<bar> = c2" using i0 by auto
  then have "\<exists>i\<in>set [0..?k - 1]. find_edge [0..?k - 1] ?l c2 = Inr (Some i) \<and> \<bar>?l ! nat i\<bar> = c2"
    using find_edge_result [of "[0..?k - 1]" ?l c2] k by fastforce
  then obtain i where i: "0 \<le> i" "i < ?k" "find_edge [0..?k - 1] ?l c2 = Inr (Some i)" "\<bar>?l ! nat i\<bar> = c2" by auto
  let ?e' = "?e\<lparr>edge_list := ?l[nat i := - c2]\<rparr>"
  have "gimme_edge c1 c2 t = Inr (0, t[nat c1 := ?e'])"
    using assms(1,2) i k by (simp add: gimme_edge_def aget_ok aset_ok)
  moreover have "fresh_edge ?e'" using assms(3) by (simp add: fresh_edge_def)
  moreover have "nb ?e' = nb ?e"
  proof (rule nth_equalityI)
    fix j assume "j < length (nb ?e')"
    then show "nb ?e' ! j = nb ?e ! j" using i i0(3) k by (cases "j = nat i") (simp_all add: nb_def)
  qed (simp add: nb_def)
  ultimately show ?thesis by blast
qed

lemma gimme_edge_new:
  assumes "0 \<le> c1" "c1 < int (length t)" "fresh_edge (t ! nat c1)" "c2 \<notin> set (nb (t ! nat c1))" "0 \<le> c2"
    "unused_edges (t ! nat c1) < 4"
  shows "\<exists>e'. gimme_edge c1 c2 t = Inr (1, t[nat c1 := e']) \<and> fresh_edge e' \<and> nb e' = nb (t ! nat c1) @ [c2]"
proof -
  let ?e = "t ! nat c1" let ?l = "edge_list ?e" and ?k = "total_edges ?e"
  have k: "0 \<le> ?k" "?k < 4" "length ?l = 4" "unused_edges ?e = ?k" using assms(3,6) by (auto simp: fresh_edge_def)
  have "\<bar>?l ! nat i\<bar> \<noteq> c2" if "0 \<le> i" "i < ?k" for i
  proof
    assume "\<bar>?l ! nat i\<bar> = c2"
    then have "c2 \<in> set (nb ?e)" using that k by (auto simp: nb_mem nat_less_iff intro!: exI [of _ "nat i"])
    then show False using assms(4) by simp
  qed
  then have none: "find_edge [0..?k - 1] ?l c2 = Inr None"
    using find_edge_result [of "[0..?k - 1]" ?l c2] k by auto
  let ?e' = "?e\<lparr>edge_list := ?l[nat ?k := c2], total_edges := ?k + 1, unused_edges := unused_edges ?e + 1\<rparr>"
  have "gimme_edge c1 c2 t = Inr (1, t[nat c1 := ?e'])"
    using none assms(1,2) k by (simp add: gimme_edge_def aget_ok aset_ok)
  moreover have "fresh_edge ?e'" using k by (simp add: fresh_edge_def)
  moreover have "nb ?e' = nb ?e @ [c2]"
    using k assms(5) by (simp add: nb_def nat_add_distrib take_Suc_conv_app_nth)
  ultimately show ?thesis by blast
qed


lemma holds_edges_update:
  assumes "holds_edges n t E" "c1 \<in> {1..n}" "fresh_edge e'" "distinct (nb e')" "set (nb e') = insert c2 {d. (c1, d) \<in> E}"
  shows "holds_edges n (t[nat c1 := e']) (insert (c1, c2) E)"
  unfolding holds_edges_def
proof (intro conjI ballI)
  show "length (t[nat c1 := e']) = nat n + 1" using assms(1) by (simp add: holds_edges_def)
  fix c assume c: "c \<in> {1..n}"
  have "length t = nat n + 1" using assms(1) by (simp add: holds_edges_def)
  then have new: "t[nat c1 := e'] ! nat c = (if c = c1 then e' else t ! nat c)"
    using assms(2) c by (auto simp: nth_list_update)
  show "fresh_edge (t[nat c1 := e'] ! nat c)" "distinct (nb (t[nat c1 := e'] ! nat c))"
    "set (nb (t[nat c1 := e'] ! nat c)) = {d. (c, d) \<in> insert (c1, c2) E}"
    using assms(1,3-5) c unfolding new holds_edges_def by auto
qed

lemma gimme_edge_holds:
  assumes "holds_edges n t E" "c1 \<in> {1..n}" "c2 \<in> {1..n}" "insert (c1, c2) E \<subseteq> R"
    "finite {d. (c1, d) \<in> R}" "card {d. (c1, d) \<in> R} \<le> 4"
  shows "\<exists>t'. gimme_edge c1 c2 t = Inr (if (c1, c2) \<in> E then 0 else 1, t') \<and> holds_edges n t' (insert (c1, c2) E)"
proof -
  let ?e = "t ! nat c1"
  have e: "fresh_edge ?e" "distinct (nb ?e)" "set (nb ?e) = {d. (c1, d) \<in> E}" "0 \<le> c1" "c1 < int (length t)"
    using assms(1,2) by (auto simp: holds_edges_def)
  show ?thesis
  proof (cases "(c1, c2) \<in> E")
    case True
    then obtain e' where "gimme_edge c1 c2 t = Inr (0, t[nat c1 := e'])" "fresh_edge e'" "nb e' = nb ?e"
      using gimme_edge_known [of c1 t c2] e by auto
    then show ?thesis using holds_edges_update [OF assms(1,2), of e' c2] e True by auto
  next
    case False
    have "card (insert c2 (set (nb ?e))) \<le> card {d. (c1, d) \<in> R}"
      using assms(4,5) e(3) by (intro card_mono) auto
    moreover have "c2 \<notin> set (nb ?e)" using False e(3) by simp
    ultimately have "length (nb ?e) < 4" using e(2) assms(6) distinct_card [of "nb ?e"] by simp
    then have "unused_edges ?e < 4" using length_nb [OF e(1)] by simp
    then obtain e' where "gimme_edge c1 c2 t = Inr (1, t[nat c1 := e'])" "fresh_edge e'" "nb e' = nb ?e @ [c2]"
      using gimme_edge_new [of c1 t c2] e False assms(3) by auto
    then show ?thesis using holds_edges_update [OF assms(1,2), of e' c2] e False by auto
  qed
qed

lemma gimme_edge_both:
  assumes "holds_edges n t E" "a \<in> {1..n}" "b \<in> {1..n}" "a \<noteq> b" "(a, b) \<in> R" "(b, a) \<in> R" "E \<subseteq> R" "sym E" "finite E"
    "\<And>c. finite {d. (c, d) \<in> R}" "\<And>c. card {d. (c, d) \<in> R} \<le> 4"
  shows "\<exists>k m t1 t2. gimme_edge a b t = Inr (k, t1) \<and> gimme_edge b a t1 = Inr (m, t2) \<and>
    holds_edges n t2 (E \<union> {(a, b), (b, a)}) \<and> int (card (E \<union> {(a, b), (b, a)})) = int (card E) + 2 * k"
proof -
  from gimme_edge_holds [OF assms(1-3), of R] assms obtain t1 where
    t1: "gimme_edge a b t = Inr (if (a, b) \<in> E then 0 else 1, t1)" "holds_edges n t1 (insert (a, b) E)" by auto
  from gimme_edge_holds [OF t1(2) assms(3,2), of R] assms obtain m t2 where
    t2: "gimme_edge b a t1 = Inr (m, t2)" "holds_edges n t2 (insert (b, a) (insert (a, b) E))" by auto
  have "(b, a) \<in> E \<longleftrightarrow> (a, b) \<in> E" using assms(8) by (auto dest: symD)
  then have "int (card (E \<union> {(a, b), (b, a)})) = int (card E) + 2 * (if (a, b) \<in> E then 0 else 1)"
    using assms(4,9) by (auto simp: insert_absorb)
  moreover have "E \<union> {(a, b), (b, a)} = insert (b, a) (insert (a, b) E)" by auto
  ultimately show ?thesis using t1 t2 by auto
qed

text \<open>The edges that the loop has entered before index \<open>i\<close>.\<close>

definition edges_before :: "Gene list \<Rightarrow> int \<Rightarrow> int \<Rightarrow> (Gene \<times> Gene) set" where
  "edges_before t n i = (\<Union>j<nat i. {(t ! j, t ! (Suc j mod nat n)), (t ! (Suc j mod nat n), t ! j)})"

lemma edges_before_Suc:
  assumes "0 \<le> i" "0 < n"
  shows "edges_before t n (i + 1) = edges_before t n i \<union>
    {(t ! nat i, t ! nat ((i + 1) mod n)), (t ! nat ((i + 1) mod n), t ! nat i)}"
proof -
  have "nat ((i + 1) mod n) = Suc (nat i) mod nat n" using assms by (simp add: nat_mod_distrib nat_add_distrib)
  moreover have "nat (i + 1) = Suc (nat i)" using assms by simp
  ultimately show ?thesis by (auto simp: edges_before_def lessThan_Suc)
qed

lemma edges_before_all: "edges_before t n n = tour_edges t n"
  by (simp add: edges_before_def tour_edges_def)

lemma edges_before_sub: "i \<le> n \<Longrightarrow> edges_before t n i \<subseteq> tour_edges t n"
  unfolding edges_before_def tour_edges_def by (rule UN_mono) auto

lemma edges_before_sym: "sym (edges_before t n i)" and edges_before_finite: "finite (edges_before t n i)"
  by (auto simp: edges_before_def sym_def)

definition is_parent :: "int \<Rightarrow> Gene list \<Rightarrow> bool" where
  "is_parent n t \<longleftrightarrow> n \<le> int (length t) \<and> is_tour n (take (nat n) t)"

definition parent_edges :: "int \<Rightarrow> Gene list \<Rightarrow> Gene list \<Rightarrow> (Gene \<times> Gene) set" where
  "parent_edges n t1 t2 = tour_edges t1 n \<union> tour_edges t2 n"

lemma parent_edges_card:
  assumes "0 < n" "is_parent n t1" "is_parent n t2"
  shows "finite {d. (c, d) \<in> parent_edges n t1 t2} \<and> card {d. (c, d) \<in> parent_edges n t1 t2} \<le> 4"
proof -
  have split: "{d. (c, d) \<in> parent_edges n t1 t2} = {d. (c, d) \<in> tour_edges t1 n} \<union> {d. (c, d) \<in> tour_edges t2 n}"
    by (auto simp: parent_edges_def)
  have "finite {d. (c, d) \<in> tour_edges t n} \<and> card {d. (c, d) \<in> tour_edges t n} \<le> 2" if "is_parent n t" for t
    using tour_edges_card [OF assms(1)] that by (auto simp: is_parent_def)
  from this [OF assms(2)] this [OF assms(3)] show ?thesis
    unfolding split using card_Un_le [of "{d. (c, d) \<in> tour_edges t1 n}" "{d. (c, d) \<in> tour_edges t2 n}"] by auto
qed

lemma parent_nth:
  assumes "is_parent n t" "0 \<le> i" "i < n"
  shows "aget t i = Inr (t ! nat i)" "t ! nat i \<in> {1..n}"
proof -
  show "aget t i = Inr (t ! nat i)" using assms by (simp add: is_parent_def aget_ok)
  have "t ! nat i \<in> set (take (nat n) t)" using assms by (auto simp: is_parent_def in_set_conv_nth intro!: exI [of _ "nat i"])
  then show "t ! nat i \<in> {1..n}" using assms(1) by (metis is_parent_def is_tour_def set_mset_mset set_upto)
qed


lemma edge_step:
  assumes "1 < n" "is_parent n t1" "is_parent n t2" "t = t1 \<or> t = t2" "0 \<le> i" "i < n"
    "holds_edges n tab E" "E \<subseteq> parent_edges n t1 t2" "sym E" "finite E"
  shows "\<exists>k m tab1 tab2. gimme_edge (t ! nat i) (t ! nat ((i + 1) mod n)) tab = Inr (k, tab1) \<and>
    gimme_edge (t ! nat ((i + 1) mod n)) (t ! nat i) tab1 = Inr (m, tab2) \<and>
    holds_edges n tab2 (E \<union> {(t ! nat i, t ! nat ((i + 1) mod n)), (t ! nat ((i + 1) mod n), t ! nat i)}) \<and>
    int (card (E \<union> {(t ! nat i, t ! nat ((i + 1) mod n)), (t ! nat ((i + 1) mod n), t ! nat i)})) =
      int (card E) + 2 * k"
proof -
  let ?a = "t ! nat i" and ?b = "t ! nat ((i + 1) mod n)"
  have par: "is_parent n t" using assms(2-4) by auto
  have "?a \<in> {1..n}" using parent_nth [OF par] assms by simp
  moreover have "?b \<in> {1..n}" using assms(1) by (intro parent_nth(2) [OF par]) simp_all
  moreover have "(?a, ?b) \<in> tour_edges t n"
    using edges_before_sub [of "i + 1" n t] edges_before_Suc [of i n t] assms(1,5,6) by auto
  then have "(?a, ?b) \<in> parent_edges n t1 t2" "(?b, ?a) \<in> parent_edges n t1 t2" "?a \<noteq> ?b"
    using assms(1,4) tour_edges_sym [of ?a ?b] tour_edges_irrefl [of n t ?a] par
    by (auto simp: parent_edges_def is_parent_def)
  ultimately show ?thesis
    using assms parent_edges_card [of n t1 t2] by (intro gimme_edge_both) auto
qed

lemma edge_loop_holds:
  assumes "1 < n" "is_parent n t1" "is_parent n t2" "0 \<le> i" "i \<le> n"
    "holds_edges n tab (edges_before t1 n i \<union> edges_before t2 n i)"
    "2 * tot = int (card (edges_before t1 n i \<union> edges_before t2 n i))"
  shows "\<exists>tot' tab'. edge_loop [i..n - 1] t1 t2 n tot tab = Inr (tot', tab') \<and>
    holds_edges n tab' (parent_edges n t1 t2) \<and> 2 * tot' = int (card (parent_edges n t1 t2))"
  using assms(4-)
proof (induction "nat (n - i)" arbitrary: i tot tab)
  case 0
  then have "i = n" by simp
  then show ?case using 0 by (simp add: edges_before_all parent_edges_def)
next
  case (Suc m)
  then have i: "0 \<le> i" "i < n" by auto
  let ?E = "edges_before t1 n i \<union> edges_before t2 n i"
  let ?e = "\<lambda>t. {(t ! nat i, t ! nat ((i + 1) mod n)), (t ! nat ((i + 1) mod n), t ! nat i)}"
  have sub: "?E \<subseteq> parent_edges n t1 t2" "?e t1 \<subseteq> parent_edges n t1 t2"
    using edges_before_sub [of i n] edges_before_sub [of "i + 1" n] edges_before_Suc [of i n] i
    by (auto simp: parent_edges_def)
  have se: "sym ?E" "finite ?E" "sym (?E \<union> ?e t1)" "finite (?E \<union> ?e t1)"
    using edges_before_sym edges_before_finite by (auto intro!: sym_Un simp: sym_def)
  from edge_step [OF assms(1-3) disjI1 [OF refl] i Suc.prems(3) sub(1) se(1,2)] obtain k1 m1 ta tb where
    a: "gimme_edge (t1 ! nat i) (t1 ! nat ((i + 1) mod n)) tab = Inr (k1, ta)"
      "gimme_edge (t1 ! nat ((i + 1) mod n)) (t1 ! nat i) ta = Inr (m1, tb)"
      "holds_edges n tb (?E \<union> ?e t1)" "int (card (?E \<union> ?e t1)) = int (card ?E) + 2 * k1" by blast
  from edge_step [OF assms(1-3) disjI2 [OF refl] i a(3) _ se(3,4)] sub obtain k2 m2 tc td where
    b: "gimme_edge (t2 ! nat i) (t2 ! nat ((i + 1) mod n)) tb = Inr (k2, tc)"
      "gimme_edge (t2 ! nat ((i + 1) mod n)) (t2 ! nat i) tc = Inr (m2, td)"
      "holds_edges n td (?E \<union> ?e t1 \<union> ?e t2)"
      "int (card (?E \<union> ?e t1 \<union> ?e t2)) = int (card (?E \<union> ?e t1)) + 2 * k2" by blast
  have next_E: "edges_before t1 n (i + 1) \<union> edges_before t2 n (i + 1) = ?E \<union> ?e t1 \<union> ?e t2"
    using edges_before_Suc [of i n] i by auto
  have list: "[i..n - 1] = i # [i + 1..n - 1]" using i by (simp add: upto_rec1)
  have get: "aget t i = Inr (t ! nat i)" "aget t ((i + 1) mod n) = Inr (t ! nat ((i + 1) mod n))"
    if "is_parent n t" for t
    using parent_nth(1) [OF that] i by simp_all
  have "edge_loop [i..n - 1] t1 t2 n tot tab = edge_loop [i + 1..n - 1] t1 t2 n (tot + k1 + k2) td"
    unfolding list by (simp add: get assms(2,3) a(1,2) b(1,2) del: upto.simps)
  moreover have "\<exists>tot' tab'. edge_loop [i + 1..n - 1] t1 t2 n (tot + k1 + k2) td = Inr (tot', tab') \<and>
      holds_edges n tab' (parent_edges n t1 t2) \<and> 2 * tot' = int (card (parent_edges n t1 t2))"
    using Suc.hyps(2) i a(4) b(3,4) Suc.prems(4) unfolding next_E [symmetric]
    by (intro Suc.hyps(1)) auto
  ultimately show ?case by simp
qed

lemma clear_loop_spec:
  "1 \<le> i \<Longrightarrow> i \<le> n + 1 \<Longrightarrow> length t = nat n + 1 \<Longrightarrow>
   \<exists>t'. clear_loop [i..n] t = Inr t' \<and> length t' = length t \<and>
     (\<forall>c<nat i. t' ! c = t ! c) \<and>
     (\<forall>c\<in>{nat i..nat n}. t' ! c = (t ! c)\<lparr>total_edges := 0, unused_edges := 0\<rparr>)"
proof (induction "nat (n + 1 - i)" arbitrary: i t)
  case 0
  then show ?case by (auto simp: upto_empty)
next
  case (Suc m)
  then have i: "1 \<le> i" "i \<le> n" by auto
  let ?t = "t[nat i := (t ! nat i)\<lparr>total_edges := 0, unused_edges := 0\<rparr>]"
  have "m = nat (n + 1 - (i + 1))" using Suc.hyps(2) by linarith
  from Suc.hyps(1) [OF this, of ?t] Suc.prems i obtain t' where t':
    "clear_loop [i + 1..n] ?t = Inr t'" "length t' = length t" "\<forall>c<nat (i + 1). t' ! c = ?t ! c"
    "\<forall>c\<in>{nat (i + 1)..nat n}. t' ! c = (?t ! c)\<lparr>total_edges := 0, unused_edges := 0\<rparr>" by auto
  have "[i..n] = i # [i + 1..n]" using i by (simp add: upto_rec1)
  then have "clear_loop [i..n] t = Inr t'"
    using t'(1) i Suc.prems by (simp add: aget_ok aset_ok)
  moreover have "t' ! c = t ! c" if "c < nat i" for c using t'(3) that i by simp
  moreover have "t' ! c = (t ! c)\<lparr>total_edges := 0, unused_edges := 0\<rparr>" if "c \<in> {nat i..nat n}" for c
    using t'(3,4) that i Suc.prems by (cases "c = nat i") (auto simp: nat_add_distrib)
  ultimately show ?case using t'(2) by blast
qed

text \<open>The table that \<^verbatim>\<open>gimme_edge_table\<close> makes holds exactly the edges of the parents.\<close>

lemma gimme_edge_table_holds:
  assumes "1 < n" "is_parent n t1" "is_parent n t2" "length tab = nat n + 1"
    "\<forall>c\<in>{1..n}. length (edge_list (tab ! nat c)) = 4"
  shows "\<exists>tab'. gimme_edge_table t1 t2 n tab = Inr (real (card (parent_edges n t1 t2)) / of_int n, tab') \<and>
    holds_edges n tab' (parent_edges n t1 t2)"
proof -
  from clear_loop_spec [of 1 n tab] assms(1,4) obtain t0 where t0:
    "clear_loop [1..n] tab = Inr t0" "length t0 = length tab"
    "\<forall>c\<in>{1..nat n}. t0 ! c = (tab ! c)\<lparr>total_edges := 0, unused_edges := 0\<rparr>" by auto
  have entry: "t0 ! nat c = (tab ! nat c)\<lparr>total_edges := 0, unused_edges := 0\<rparr>" if "c \<in> {1..n}" for c
    using t0(3) that by (auto simp: nat_le_iff)
  have "holds_edges n t0 {}"
    using t0(2) assms(4,5) by (auto simp: holds_edges_def entry fresh_edge_def nb_def)
  moreover have "edges_before t n 0 = {}" for t by (simp add: edges_before_def)
  ultimately obtain tot tab' where "edge_loop [0..n - 1] t1 t2 n 0 t0 = Inr (tot, tab')"
      "holds_edges n tab' (parent_edges n t1 t2)" "2 * tot = int (card (parent_edges n t1 t2))"
    using edge_loop_holds [OF assms(1-3), of 0 t0 0] assms(1) by auto
  moreover from this(3) have "of_int (tot * 2) = real (card (parent_edges n t1 t2))"
    by (metis mult.commute of_int_of_nat_eq)
  ultimately show ?thesis by (simp add: gimme_edge_table_def t0(1) del: upto.simps)
qed


section \<open>Removing a city\<close>

lemma remove_swap:
  assumes "j < k" "k \<le> length l"
  shows "mset (take (k - 1) (l[j := l ! (k - 1)])) = mset (take k l) - {#l ! j#}"
proof -
  have split: "take k l = take (k - 1) l @ [l ! (k - 1)]"
    using assms by (metis Suc_pred' diff_less less_le_trans less_nat_zero_code linorder_not_less take_Suc_conv_app_nth zero_less_one)
  show ?thesis
  proof (cases "j = k - 1")
    case True
    then show ?thesis using assms by (simp add: split)
  next
    case False
    then have j: "j < k - 1" using assms(1) by simp
    then have "take (k - 1) (l[j := l ! (k - 1)]) = (take (k - 1) l)[j := l ! (k - 1)]"
      by (simp add: take_update_swap)
    moreover have "l ! j \<in> set (take (k - 1) l)" using j assms by (auto simp: in_set_conv_nth)
    then obtain A where "mset (take (k - 1) l) = add_mset (l ! j) A" by (metis multi_member_split set_mset_mset)
    ultimately show ?thesis using j assms split by (simp add: mset_update)
  qed
qed

lemma remove_inner_found:
  assumes "\<forall>j\<in>set js. 0 \<le> j \<and> j < k" "0 \<le> b" "b < int (length t)" "k \<le> int (length (edge_list (t ! nat b)))"
    "k = unused_edges (t ! nat b)" "\<exists>j\<in>set js. \<bar>edge_list (t ! nat b) ! nat j\<bar> = gene"
  shows "\<exists>j. 0 \<le> j \<and> j < k \<and> \<bar>edge_list (t ! nat b) ! nat j\<bar> = gene \<and>
    remove_inner js gene b k t = Inr (t[nat b := (t ! nat b)
      \<lparr>edge_list := (edge_list (t ! nat b))[nat j := edge_list (t ! nat b) ! nat (k - 1)],
       unused_edges := unused_edges (t ! nat b) - 1\<rparr>])"
  using assms(1,6)
proof (induction js)
  case Nil
  then show ?case by simp
next
  case (Cons j js)
  then have j: "0 \<le> j" "j < k" by auto
  show ?case
  proof (cases "\<bar>edge_list (t ! nat b) ! nat j\<bar> = gene")
    case True
    then show ?thesis using j assms(2-4) by (intro exI [of _ j]) (simp add: aget_ok aset_ok)
  next
    case False
    then have "\<exists>j\<in>set js. \<bar>edge_list (t ! nat b) ! nat j\<bar> = gene" using Cons.prems(2) by auto
    with Cons obtain j' where "0 \<le> j' \<and> j' < k \<and> \<bar>edge_list (t ! nat b) ! nat j'\<bar> = gene \<and>
      remove_inner js gene b k t = Inr (t[nat b := (t ! nat b)
        \<lparr>edge_list := (edge_list (t ! nat b))[nat j' := edge_list (t ! nat b) ! nat (k - 1)],
         unused_edges := unused_edges (t ! nat b) - 1\<rparr>])" by auto
    moreover have "remove_inner (j # js) gene b k t = remove_inner js gene b k t"
      using False j assms(2-4) by (simp add: aget_ok)
    ultimately show ?thesis by auto
  qed
qed

definition open_edge :: "Edge \<Rightarrow> bool" where
  "open_edge e \<longleftrightarrow> length (edge_list e) = 4 \<and> 0 \<le> unused_edges e \<and> unused_edges e \<le> 4 \<and> distinct (nb e)"

lemma remove_inner_spec:
  assumes "0 \<le> b" "b < int (length t)" "open_edge (t ! nat b)" "gene \<in> set (nb (t ! nat b))"
  shows "\<exists>e'. remove_inner [0..unused_edges (t ! nat b) - 1] gene b (unused_edges (t ! nat b)) t = Inr (t[nat b := e']) \<and>
    open_edge e' \<and> set (nb e') = set (nb (t ! nat b)) - {gene} \<and> total_edges e' = total_edges (t ! nat b)"
proof -
  let ?e = "t ! nat b" let ?k = "unused_edges ?e" and ?l = "edge_list ?e"
  have k: "0 \<le> ?k" "?k \<le> 4" "length ?l = 4" using assms(3) by (auto simp: open_edge_def)
  obtain i where "i < nat ?k" "gene = \<bar>?l ! i\<bar>" using assms(4) by (auto simp: nb_mem)
  then have "\<exists>j\<in>set [0..?k - 1]. \<bar>?l ! nat j\<bar> = gene" by (intro bexI [of _ "int i"]) auto
  then obtain j where j: "0 \<le> j" "j < ?k" "\<bar>?l ! nat j\<bar> = gene"
      "remove_inner [0..?k - 1] gene b ?k t = Inr (t[nat b := ?e\<lparr>edge_list := ?l[nat j := ?l ! nat (?k - 1)],
        unused_edges := ?k - 1\<rparr>])"
    using remove_inner_found [of "[0..?k - 1]" ?k b t gene] assms(1,2) k by auto
  let ?e' = "?e\<lparr>edge_list := ?l[nat j := ?l ! nat (?k - 1)], unused_edges := ?k - 1\<rparr>"
  have nk: "nat (?k - 1) = nat ?k - 1" "nat j < nat ?k" "nat ?k \<le> length ?l" using j k by (simp_all add: nat_diff_distrib)
  have "?l ! nat j \<in> set (take (nat ?k) ?l)" unfolding in_set_conv_nth using nk by (intro exI [of _ "nat j"]) simp
  then have sub: "{#?l ! nat j#} \<subseteq># mset (take (nat ?k) ?l)" by simp
  have "mset (nb ?e') = image_mset abs (mset (take (nat ?k) ?l) - {#?l ! nat j#})"
    using remove_swap [OF nk(2,3)] by (simp add: nb_def nk(1))
  also have "\<dots> = mset (nb ?e) - {#gene#}" unfolding image_mset_Diff [OF sub] nb_def using j(3) by simp
  finally have "mset (nb ?e') = mset (nb ?e) - {#gene#}" .
  then have same: "mset (nb ?e') = mset (remove1 gene (nb ?e))" unfolding mset_remove1 .
  have "distinct (nb ?e)" using assms(3) by (simp add: open_edge_def)
  then have "distinct (nb ?e')" "set (nb ?e') = set (nb ?e) - {gene}"
    using mset_eq_imp_distinct_iff [OF same] mset_eq_setD [OF same] by simp_all
  then show ?thesis using j k by (intro exI [of _ ?e']) (simp add: open_edge_def)
qed


text \<open>
  A table in the middle of a tour: the cities in \<open>V\<close> are done, every other one has as neighbours left
  those of its neighbours in \<open>R\<close> that are not done, except that \<open>gene\<close> is already gone from the cities
  in \<open>P\<close>.
\<close>

definition touring :: "int \<Rightarrow> (Gene \<times> Gene) set \<Rightarrow> Gene set \<Rightarrow> Gene \<Rightarrow> Gene set \<Rightarrow> Edge list \<Rightarrow> bool" where
  "touring n R V gene P t \<longleftrightarrow> length t = nat n + 1 \<and>
     (\<forall>c\<in>{1..n}. if c \<in> V then unused_edges (t ! nat c) = - 1 \<and> length (edge_list (t ! nat c)) = 4
       else open_edge (t ! nat c) \<and>
         set (nb (t ! nat c)) = {d. (c, d) \<in> R} - V - (if c \<in> P then {gene} else {}))"

lemma touring_update:
  assumes "touring n R V gene P t" "b \<in> {1..n}" "b \<notin> V" "open_edge e'" "set (nb e') = set (nb (t ! nat b)) - {gene}"
  shows "touring n R V gene (insert b P) (t[nat b := e'])"
  unfolding touring_def
proof (intro conjI ballI)
  have len: "length t = nat n + 1" using assms(1) by (simp add: touring_def)
  then show "length (t[nat b := e']) = nat n + 1" by simp
  fix c assume c: "c \<in> {1..n}"
  have new: "t[nat b := e'] ! nat c = (if c = b then e' else t ! nat c)"
    using len assms(2) c by (auto simp: nth_list_update)
  show "if c \<in> V then unused_edges (t[nat b := e'] ! nat c) = - 1 \<and> length (edge_list (t[nat b := e'] ! nat c)) = 4
    else open_edge (t[nat b := e'] ! nat c) \<and>
      set (nb (t[nat b := e'] ! nat c)) = {d. (c, d) \<in> R} - V - (if c \<in> insert b P then {gene} else {})"
    using assms(1,3-5) c unfolding new touring_def by (auto split: if_splits)
qed

lemma remove_loop_spec:
  assumes f: "\<And>i. f i = \<bar>edge_list edge ! nat i\<bar>"
  shows "distinct (map f is) \<Longrightarrow>
    \<forall>i\<in>set is. 0 \<le> i \<and> i < int (length (edge_list edge)) \<and> f i \<in> {1..n} - V - P \<and> (f i, gene) \<in> R \<Longrightarrow>
    touring n R V gene P t \<Longrightarrow> gene \<notin> V \<Longrightarrow>
    \<exists>t'. remove_loop is gene edge t = Inr t' \<and> touring n R V gene (P \<union> f ` set is) t' \<and>
      (\<forall>c\<in>{1..n}. c \<notin> f ` set is \<longrightarrow> t' ! nat c = t ! nat c)"
proof (induction "is" arbitrary: P t)
  case Nil
  then show ?case by simp
next
  case (Cons i "is")
  let ?b = "f i"
  have i: "0 \<le> i" "i < int (length (edge_list edge))" "?b \<in> {1..n}" "?b \<notin> V" "?b \<notin> P" "(?b, gene) \<in> R"
    using Cons.prems(2) by auto
  have e: "open_edge (t ! nat ?b)" "set (nb (t ! nat ?b)) = {d. (?b, d) \<in> R} - V" "0 \<le> ?b" "?b < int (length t)"
    using Cons.prems(3) i(3-5) by (auto simp: touring_def)
  have "gene \<in> set (nb (t ! nat ?b))" using e(2) i(6) Cons.prems(4) by simp
  from remove_inner_spec [OF e(3,4,1) this] obtain e' where e':
    "remove_inner [0..unused_edges (t ! nat ?b) - 1] gene ?b (unused_edges (t ! nat ?b)) t = Inr (t[nat ?b := e'])"
    "open_edge e'" "set (nb e') = set (nb (t ! nat ?b)) - {gene}" by auto
  have t1: "touring n R V gene (insert ?b P) (t[nat ?b := e'])"
    using touring_update [OF Cons.prems(3) i(3,4) e'(2,3)] .
  have d: "distinct (map f is)" "?b \<notin> f ` set is" using Cons.prems(1) by simp_all
  have "\<forall>j\<in>set is. 0 \<le> j \<and> j < int (length (edge_list edge)) \<and>
      f j \<in> {1..n} - V - insert ?b P \<and> (f j, gene) \<in> R"
  proof
    fix j assume j: "j \<in> set is"
    then have "f j \<noteq> ?b" using d(2) by (metis imageI)
    then show "0 \<le> j \<and> j < int (length (edge_list edge)) \<and> f j \<in> {1..n} - V - insert ?b P \<and> (f j, gene) \<in> R"
      using j Cons.prems(2) by simp
  qed
  from Cons.IH [OF d(1) this t1 Cons.prems(4)] obtain t' where t':
    "remove_loop is gene edge (t[nat ?b := e']) = Inr t'" "touring n R V gene (insert ?b P \<union> f ` set is) t'"
    "\<forall>c\<in>{1..n}. c \<notin> f ` set is \<longrightarrow> t' ! nat c = t[nat ?b := e'] ! nat c" by blast
  have "remove_loop (i # is) gene edge t = Inr t'"
    using i(1,2) e(3,4) e'(1) t'(1) by (simp add: aget_ok f [symmetric] del: upto.simps)
  moreover have "P \<union> f ` set (i # is) = insert ?b P \<union> f ` set is" by auto
  moreover have "t' ! nat c = t ! nat c" if "c \<in> {1..n}" "c \<notin> f ` set (i # is)" for c
  proof -
    have "nat ?b \<noteq> nat c" using that i(3) by auto
    then show ?thesis using t'(3) that by simp
  qed
  ultimately show ?case using t'(2) by auto
qed

lemma remove_gene_spec:
  assumes "touring n R V gene {} t" "gene \<in> {1..n}" "gene \<notin> V" "sym R" "irrefl R" "R \<subseteq> {1..n} \<times> {1..n}"
  shows "\<exists>t'. remove_gene gene (t ! nat gene) t = Inr t' \<and> touring n R V gene {c. (c, gene) \<in> R} t' \<and>
    t' ! nat gene = t ! nat gene"
proof -
  let ?e = "t ! nat gene" let ?is = "[0..unused_edges ?e - 1]"
  define f where "f i = \<bar>edge_list ?e ! nat i\<bar>" for i
  have e: "open_edge ?e" "set (nb ?e) = {d. (gene, d) \<in> R} - V"
    using assms(1-3) by (auto simp: touring_def)
  then have k: "0 \<le> unused_edges ?e" "unused_edges ?e \<le> 4" "length (edge_list ?e) = 4" "distinct (nb ?e)"
    by (auto simp: open_edge_def)
  have nbf: "map f ?is = nb ?e"
    using k by (intro nth_equalityI) (simp_all add: nb_def f_def)
  then have img: "f ` set ?is = {d. (gene, d) \<in> R} - V" using e(2) by (metis set_map)
  have rev: "(d, gene) \<in> R" if "(gene, d) \<in> R" for d using that assms(4) by (auto dest: symD)
  have each: "\<forall>i\<in>set ?is. 0 \<le> i \<and> i < int (length (edge_list ?e)) \<and> f i \<in> {1..n} - V - {} \<and> (f i, gene) \<in> R"
  proof
    fix i assume i: "i \<in> set ?is"
    then have "f i \<in> {d. (gene, d) \<in> R} - V" using img by blast
    then show "0 \<le> i \<and> i < int (length (edge_list ?e)) \<and> f i \<in> {1..n} - V - {} \<and> (f i, gene) \<in> R"
      using i k rev assms(6) by auto
  qed
  have "distinct (map f ?is)" using nbf k(4) by simp
  from remove_loop_spec [OF f_def this each assms(1,3)] obtain t' where t':
    "remove_gene gene ?e t = Inr t'" "touring n R V gene ({d. (gene, d) \<in> R} - V) t'"
    "\<forall>c\<in>{1..n}. c \<notin> {d. (gene, d) \<in> R} - V \<longrightarrow> t' ! nat c = t ! nat c"
    unfolding remove_gene_def img by auto
  have "gene \<notin> {d. (gene, d) \<in> R}" using assms(5) by (auto simp: irrefl_def)
  then have "t' ! nat gene = t ! nat gene" using t'(3) assms(2) by blast
  moreover have "touring n R V gene {c. (c, gene) \<in> R} t'"
    using t'(2) rev assms(4) by (auto simp: touring_def dest: symD)
  ultimately show ?thesis using t'(1) by blast
qed

section \<open>Choosing the next city\<close>

text \<open>
  The candidates of \<^verbatim>\<open>gimme_gene\<close>: the entries still in use, as indexes, and how many edges each of them
  has left.
\<close>

definition edges_left :: "Edge \<Rightarrow> Edge list \<Rightarrow> int \<Rightarrow> int" where
  "edges_left edge t i = unused_edges (t ! nat (edge_list edge ! nat i))"

definition candidate_ok :: "Edge \<Rightarrow> Edge list \<Rightarrow> int \<Rightarrow> bool" where
  "candidate_ok edge t i \<longleftrightarrow> 0 \<le> i \<and> i < int (length (edge_list edge)) \<and>
     nat \<bar>edge_list edge ! nat i\<bar> < length t \<and> unused_edges (t ! nat \<bar>edge_list edge ! nat i\<bar>) \<le> 4"

lemma candidate_get:
  "candidate_ok edge t i \<Longrightarrow> \<not> edge_list edge ! nat i < 0 \<Longrightarrow>
   aget (edge_list edge) i = Inr (edge_list edge ! nat i) \<and>
   aget t (edge_list edge ! nat i) = Inr (t ! nat (edge_list edge ! nat i)) \<and> edges_left edge t i \<le> 4"
  by (auto simp: candidate_ok_def edges_left_def aget_def)

definition count_at :: "Edge \<Rightarrow> Edge list \<Rightarrow> int \<Rightarrow> int list \<Rightarrow> int" where
  "count_at edge t m is = int (length (filter (\<lambda>i. edges_left edge t i = m) is))"

lemma count_at_simps [simp]:
  "count_at edge t m [] = 0"
  "count_at edge t m (is @ js) = count_at edge t m is + count_at edge t m js"
  "count_at edge t m (i # is) = (if edges_left edge t i = m then 1 else 0) + count_at edge t m is"
  by (simp_all add: count_at_def)

lemma count_at_zero: "\<forall>i\<in>set is. m < edges_left edge t i \<Longrightarrow> count_at edge t m is = 0"
  by (induction "is") auto

lemma count_at_nonneg: "0 \<le> count_at edge t m is"
  by (simp add: count_at_def)

text \<open>The first loop, after the entries \<open>done\<close>: none of them shared, \<open>m\<close> their minimum.\<close>

lemma minimum_loop_spec:
  assumes "\<forall>i\<in>set is. candidate_ok edge t i"
    "if ds = [] then m = 5 \<and> cnt = - 1 else 0 < cnt \<and> cnt = count_at edge t m ds"
    "\<forall>i\<in>set ds. \<not> edge_list edge ! nat i < 0 \<and> m \<le> edges_left edge t i"
  shows "(\<exists>i\<in>set is. minimum_loop is edge t m cnt = Inr (Inl \<bar>edge_list edge ! nat i\<bar>)) \<or>
    (\<exists>m' cnt'. minimum_loop is edge t m cnt = Inr (Inr (m', cnt')) \<and>
      (\<forall>i\<in>set (ds @ is). \<not> edge_list edge ! nat i < 0) \<and>
      (if ds @ is = [] then True else 0 < cnt' \<and> cnt' = count_at edge t m' (ds @ is)))"
  using assms
proof (induction "is" arbitrary: ds m cnt)
  case Nil
  then show ?case by (auto split: if_splits)
next
  case (Cons i "is")
  note ok = Cons.prems(1) [THEN bspec, of i, simplified]
  show ?case
  proof (cases "edge_list edge ! nat i < 0")
    case True
    then have "minimum_loop (i # is) edge t m cnt = Inr (Inl \<bar>edge_list edge ! nat i\<bar>)"
      using ok by (simp add: aget_ok candidate_ok_def)
    then show ?thesis by auto
  next
    case False
    note get = candidate_get [OF ok False]
    let ?u = "edges_left edge t i"
    have u: "unused_edges (t ! nat (edge_list edge ! nat i)) = ?u" by (simp add: edges_left_def)
    define m1 where "m1 = (if ?u < m then ?u else m)"
    define c1 where "c1 = (if ?u < m then 1 else if ?u = m then cnt + 1 else cnt)"
    have pos: "ds = [] \<Longrightarrow> ?u < m" using Cons.prems(2) get by simp
    have step: "minimum_loop (i # is) edge t m cnt = minimum_loop is edge t m1 c1"
      using get False pos Cons.prems(2) by (auto simp: u m1_def c1_def split: if_splits)
    have "count_at edge t ?u ds = 0" if "?u < m"
      using Cons.prems(3) that by (intro count_at_zero) force
    then have "0 < c1 \<and> c1 = count_at edge t m1 (ds @ [i])"
      using Cons.prems(2) pos by (auto simp: m1_def c1_def split: if_splits)
    moreover have "\<forall>j\<in>set (ds @ [i]). \<not> edge_list edge ! nat j < 0 \<and> m1 \<le> edges_left edge t j"
      using Cons.prems(3) False by (auto simp: m1_def)
    ultimately show ?thesis
      using Cons.IH [of "ds @ [i]" m1 c1] Cons.prems(1) unfolding step by auto
  qed
qed

lemma choose_loop_spec:
  "\<forall>i\<in>set is. candidate_ok edge t i \<and> \<not> edge_list edge ! nat i < 0 \<Longrightarrow> 0 \<le> r \<Longrightarrow> r < count_at edge t m is \<Longrightarrow>
   \<exists>i\<in>set is. choose_loop is edge t m (count_at edge t m is) r = Inr (edge_list edge ! nat i)"
proof (induction "is")
  case Nil
  then show ?case by simp
next
  case (Cons i "is")
  have get: "aget (edge_list edge) i = Inr (edge_list edge ! nat i)"
      "aget t (edge_list edge ! nat i) = Inr (t ! nat (edge_list edge ! nat i))"
    using candidate_get [of edge t i] Cons.prems(1) by auto
  have u: "unused_edges (t ! nat (edge_list edge ! nat i)) = edges_left edge t i" by (simp add: edges_left_def)
  show ?case
  proof (cases "edges_left edge t i = m \<and> count_at edge t m is = r")
    case True
    then show ?thesis by (simp add: get u)
  next
    case False
    then have "r < count_at edge t m is" using Cons.prems(3) by (auto split: if_splits)
    with Cons obtain j where "j \<in> set is" "choose_loop is edge t m (count_at edge t m is) r = Inr (edge_list edge ! nat j)"
      by auto
    then show ?thesis using False by (auto simp: get u)
  qed
qed

context random_source
begin

lemma gimme_gene_run:
  assumes "0 < unused_edges edge" "unused_edges edge \<le> int (length (edge_list edge))"
    "length (edge_list edge) = 4" "\<forall>i\<in>{0..<unused_edges edge}. candidate_ok edge t i"
  shows "runs live G (gimme_gene edge t) (\<lambda>g. g \<in> set (nb edge))"
proof -
  let ?is = "[0..unused_edges edge - 1]"
  have in_nb: "\<bar>edge_list edge ! nat i\<bar> \<in> set (nb edge)" if "i \<in> set ?is" for i
    unfolding nb_mem using that assms(2) by (intro exI [of _ "nat i"]) auto
  have ok: "\<forall>i\<in>set ?is. candidate_ok edge t i" using assms(4) by auto
  have "?is \<noteq> []" using assms(1) by simp
  from minimum_loop_spec [OF ok, of "[]" 5 "- 1"] consider
      i where "i \<in> set ?is" "minimum_loop ?is edge t 5 (- 1) = Inr (Inl \<bar>edge_list edge ! nat i\<bar>)"
    | m cnt where "minimum_loop ?is edge t 5 (- 1) = Inr (Inr (m, cnt))" "0 < cnt" "cnt = count_at edge t m ?is"
        "\<forall>i\<in>set ?is. \<not> edge_list edge ! nat i < 0"
    using \<open>?is \<noteq> []\<close> by auto
  then show ?thesis
  proof cases
    case 1
    then show ?thesis unfolding gimme_gene_def
      by (intro runs_res_bind [OF 1(2)]) (simp add: runs_return in_nb)
  next
    case 2
    have "cnt \<le> 4"
    proof -
      have "cnt \<le> int (length ?is)" unfolding 2(3) count_at_def by (simp only: of_nat_le_iff length_filter_le)
      then show ?thesis using assms(2,3) by (simp split: if_splits)
    qed
    have found: "\<exists>g. choose_loop ?is edge t m cnt r = Inr g \<and> g \<in> set (nb edge)" if "0 \<le> r" "r \<le> cnt - 1" for r
    proof -
      have "\<forall>i\<in>set ?is. candidate_ok edge t i \<and> \<not> edge_list edge ! nat i < 0" using ok 2(4) by blast
      moreover have "r < count_at edge t m ?is" using that 2(3) by simp
      ultimately obtain i where "i \<in> set ?is" "choose_loop ?is edge t m cnt r = Inr (edge_list edge ! nat i)"
        using choose_loop_spec [of ?is edge t r m] \<open>0 \<le> r\<close> unfolding 2(3) by blast
      then show ?thesis using in_nb [of i] 2(4) by (auto simp: not_less)
    qed
    show ?thesis unfolding gimme_gene_def
    proof (rule runs_res_bind [OF 2(1)], simp only: sum.case prod.case, rule runs_bind)
      show "runs live G (geqo_randint (cnt - 1) 0) (\<lambda>v. 0 \<le> v \<and> v \<le> cnt - 1)"
        using 2(2) \<open>cnt \<le> 4\<close> by (intro randint_run) auto
      fix r assume "0 \<le> r \<and> r \<le> cnt - 1"
      then show "runs live G (rnd_res (choose_loop ?is edge t m cnt r)) (\<lambda>g. g \<in> set (nb edge))"
        using found [of r] by (auto intro: runs_res)
    qed
  qed
qed

end


text \<open>The cities that \<^verbatim>\<open>edge_failure\<close> may draw, all of them or those with four edges.\<close>

definition drawable :: "bool \<Rightarrow> Gene \<Rightarrow> Edge list \<Rightarrow> int \<Rightarrow> bool" where
  "drawable fours fail_gene t i \<longleftrightarrow>
     i \<noteq> fail_gene \<and> unused_edges (t ! nat i) \<noteq> - 1 \<and> (fours \<longrightarrow> total_edges (t ! nat i) = 4)"

lemma remaining_loop_spec:
  "\<forall>i\<in>set is. 0 \<le> i \<and> i < int (length t) \<Longrightarrow>
   remaining_loop is fail_gene t a b =
     Inr (a + int (length (filter (drawable False fail_gene t) is)),
          b + int (length (filter (drawable True fail_gene t) is)))"
proof (induction "is" arbitrary: a b)
  case Nil
  then show ?case by simp
next
  case (Cons i "is")
  have get: "aget t i = Inr (t ! nat i)" using Cons.prems by (simp add: aget_ok)
  have d: "unused_edges (t ! nat i) \<noteq> - 1 \<and> i \<noteq> fail_gene \<longleftrightarrow> drawable False fail_gene t i"
      "drawable True fail_gene t i \<longleftrightarrow> drawable False fail_gene t i \<and> total_edges (t ! nat i) = 4"
    by (auto simp: drawable_def)
  show ?case using Cons by (simp only: remaining_loop.simps get res_bind_simps d) (simp add: d(2))
qed

lemma drawn_loop_spec:
  "\<forall>i\<in>set is. 0 \<le> i \<and> i < int (length t) \<Longrightarrow> 0 \<le> r \<Longrightarrow>
   r < int (length (filter (drawable fours fail_gene t) is)) \<Longrightarrow>
   \<exists>i\<in>set is. drawn_loop is fours fail_gene t (int (length (filter (drawable fours fail_gene t) is))) r = Inr i \<and>
     drawable fours fail_gene t i"
proof (induction "is")
  case Nil
  then show ?case by simp
next
  case (Cons i "is")
  let ?c = "int (length (filter (drawable fours fail_gene t) is))"
  have get: "aget t i = Inr (t ! nat i)" using Cons.prems(1) by (simp add: aget_ok)
  have step: "drawn_loop (i # is) fours fail_gene t c x =
      (if drawable fours fail_gene t i
       then (if x = c - 1 then Inr i else drawn_loop is fours fail_gene t (c - 1) x)
       else drawn_loop is fours fail_gene t c x)" for c x
    by (simp add: get drawable_def)
  show ?case
  proof (cases "drawable fours fail_gene t i \<and> r = ?c")
    case True
    then show ?thesis by (simp add: step del: drawn_loop.simps)
  next
    case False
    then have "r < ?c" using Cons.prems(3) by (auto split: if_splits)
    with Cons obtain j where j: "j \<in> set is" "drawn_loop is fours fail_gene t ?c r = Inr j" "drawable fours fail_gene t j"
      by auto
    have "drawn_loop (i # is) fours fail_gene t (int (length (filter (drawable fours fail_gene t) (i # is)))) r =
        drawn_loop is fours fail_gene t ?c r"
      using False by (auto simp: step simp del: drawn_loop.simps)
    then show ?thesis using j by auto
  qed
qed

context random_source
begin

lemma edge_failure_run:
  assumes "0 \<le> index" "index < int (length gene)" "gene ! nat index = f" "length t = nat n + 1" "n < 2 ^ 31"
    "\<exists>i\<in>{1..n}. drawable False f t i"
  shows "runs live G (edge_failure gene index t n) (\<lambda>g. g \<in> {1..n} \<and> drawable False f t g)"
proof -
  let ?is = "[1..n]"
  have range: "\<forall>i\<in>set ?is. 0 \<le> i \<and> i < int (length t)" using assms(4) by auto
  define cnt where "cnt fours = int (length (filter (drawable fours f t) ?is))" for fours
  have rem: "remaining_loop ?is f t 0 0 = Inr (cnt False, cnt True)"
    using remaining_loop_spec [OF range] by (simp add: cnt_def del: upto.simps)
  have "filter (drawable False f t) ?is \<noteq> []" using assms(6) by (auto simp: filter_empty_conv)
  then have some: "cnt False \<noteq> 0" by (simp add: cnt_def del: upto.simps)
  have small: "cnt fours < 2 ^ 31" for fours
  proof -
    have "cnt fours \<le> int (length ?is)" unfolding cnt_def by (simp only: of_nat_le_iff length_filter_le)
    then show ?thesis using assms(5) by (simp split: if_splits)
  qed
  have nonneg: "0 \<le> cnt fours" for fours by (simp add: cnt_def del: upto.simps)
  have draw: "runs live G (rnd_bind (geqo_randint (cnt fours - 1) 0) (\<lambda>r.
      rnd_res (drawn_loop ?is fours f t (cnt fours) r))) (\<lambda>g. g \<in> {1..n} \<and> drawable False f t g)"
    if "cnt fours \<noteq> 0" for fours
  proof (rule runs_bind)
    show "runs live G (geqo_randint (cnt fours - 1) 0) (\<lambda>v. 0 \<le> v \<and> v \<le> cnt fours - 1)"
      using that nonneg [of fours] small [of fours] by (intro randint_run) auto
    fix r assume "0 \<le> r \<and> r \<le> cnt fours - 1"
    then obtain i where "i \<in> set ?is" "drawn_loop ?is fours f t (cnt fours) r = Inr i" "drawable fours f t i"
      using drawn_loop_spec [OF range, of r fours f] unfolding cnt_def by auto
    then show "runs live G (rnd_res (drawn_loop ?is fours f t (cnt fours) r)) (\<lambda>g. g \<in> {1..n} \<and> drawable False f t g)"
      by (auto intro!: runs_res simp: drawable_def)
  qed
  show ?thesis unfolding edge_failure_def
  proof (rule runs_res_bind)
    show "aget gene index = Inr f" using assms(1-3) by (simp add: aget_ok)
    show "runs live G (rnd_bind (rnd_res (remaining_loop ?is f t 0 0)) (\<lambda>(remaining_edges, four_count).
       if four_count \<noteq> 0 then rnd_bind (geqo_randint (four_count - 1) 0) (\<lambda>r.
              rnd_res (drawn_loop ?is True f t four_count r))
       else if remaining_edges \<noteq> 0 then rnd_bind (geqo_randint (remaining_edges - 1) 0) (\<lambda>r.
              rnd_res (drawn_loop ?is False f t remaining_edges r))
       else rnd_res (last_point_loop ?is t))) (\<lambda>g. g \<in> {1..n} \<and> drawable False f t g)"
      by (rule runs_res_bind [OF rem]) (use draw some in \<open>simp del: upto.simps\<close>)
  qed
qed

end


section \<open>The whole tour\<close>

text \<open>The steps of a tour that are no edges of a parent.\<close>

definition strange_steps :: "(Gene \<times> Gene) set \<Rightarrow> Gene list \<Rightarrow> (Gene \<times> Gene) list" where
  "strange_steps R xs = filter (\<lambda>p. p \<notin> R) (zip xs (tl xs))"

lemma zip_tl_snoc: "xs \<noteq> [] \<Longrightarrow> zip (xs @ [x]) (tl (xs @ [x])) = zip xs (tl xs) @ [(last xs, x)]"
  by (induction xs rule: list_nonempty_induct) (auto simp: neq_Nil_conv)

lemma strange_steps_snoc:
  "xs \<noteq> [] \<Longrightarrow> strange_steps R (xs @ [x]) = strange_steps R xs @ (if (last xs, x) \<in> R then [] else [(last xs, x)])"
  unfolding strange_steps_def zip_tl_snoc by simp

lemma touring_done:
  assumes "touring n R V gene {c. (c, gene) \<in> R} t" "gene \<in> {1..n}" "gene \<notin> V"
  shows "touring n R (insert gene V) g {} (t[nat gene := (t ! nat gene)\<lparr>unused_edges := - 1\<rparr>])"
  unfolding touring_def
proof (intro conjI ballI)
  have len: "length t = nat n + 1" using assms(1) by (simp add: touring_def)
  then show "length (t[nat gene := (t ! nat gene)\<lparr>unused_edges := - 1\<rparr>]) = nat n + 1" by simp
  fix c assume c: "c \<in> {1..n}"
  have new: "t[nat gene := (t ! nat gene)\<lparr>unused_edges := - 1\<rparr>] ! nat c =
      (if c = gene then (t ! nat gene)\<lparr>unused_edges := - 1\<rparr> else t ! nat c)"
    using len assms(2) c by (auto simp: nth_list_update)
  have "open_edge (t ! nat gene)" using assms by (simp add: touring_def)
  then have gl: "length (edge_list (t ! nat gene)) = 4" by (simp add: open_edge_def)
  have old: "if c \<in> V then unused_edges (t ! nat c) = - 1 \<and> length (edge_list (t ! nat c)) = 4
    else open_edge (t ! nat c) \<and> set (nb (t ! nat c)) = {d. (c, d) \<in> R} - V - (if (c, gene) \<in> R then {gene} else {})"
    using assms(1) c by (simp add: touring_def)
  show "if c \<in> insert gene V
    then unused_edges (t[nat gene := (t ! nat gene)\<lparr>unused_edges := - 1\<rparr>] ! nat c) = - 1 \<and>
      length (edge_list (t[nat gene := (t ! nat gene)\<lparr>unused_edges := - 1\<rparr>] ! nat c)) = 4
    else open_edge (t[nat gene := (t ! nat gene)\<lparr>unused_edges := - 1\<rparr>] ! nat c) \<and>
      set (nb (t[nat gene := (t ! nat gene)\<lparr>unused_edges := - 1\<rparr>] ! nat c)) =
        {d. (c, d) \<in> R} - insert gene V - (if c \<in> {} then {g} else {})"
    using old gl unfolding new by (cases "c = gene"; cases "c \<in> V"; cases "(c, gene) \<in> R") auto
qed

text \<open>A table with room for four neighbours of each city.\<close>

definition table_shape :: "int \<Rightarrow> Edge list \<Rightarrow> bool" where
  "table_shape n t \<longleftrightarrow> length t = nat n + 1 \<and> (\<forall>c\<in>{1..n}. length (edge_list (t ! nat c)) = 4)"

lemma touring_shape: "touring n R V g P t \<Longrightarrow> table_shape n t"
  unfolding touring_def table_shape_def open_edge_def by (auto split: if_splits)

text \<open>The parent edges as the loop uses them.\<close>

definition edge_relation :: "int \<Rightarrow> (Gene \<times> Gene) set \<Rightarrow> bool" where
  "edge_relation n R \<longleftrightarrow> sym R \<and> irrefl R \<and> R \<subseteq> {1..n} \<times> {1..n}"

context random_source
begin

lemma next_city_run:
  assumes "edge_relation n R" "touring n R V p {c. (c, p) \<in> R} t" "p \<in> {1..n}" "p \<notin> V" "n < 2 ^ 31"
    "0 \<le> index" "index < int (length gene)" "gene ! nat index = p" "\<exists>c\<in>{1..n}. c \<notin> V \<and> c \<noteq> p"
  shows "runs live G (if unused_edges (t ! nat p) > 0 then gimme_gene (t ! nat p) t else edge_failure gene index t n)
    (\<lambda>g. g \<in> {1..n} \<and> g \<notin> V \<and> g \<noteq> p \<and> ((p, g) \<in> R \<longleftrightarrow> unused_edges (t ! nat p) > 0))"
proof -
  let ?e = "t ! nat p"
  have irr: "(p, p) \<notin> R" and rng: "R \<subseteq> {1..n} \<times> {1..n}" using assms(1) by (auto simp: edge_relation_def irrefl_def)
  have e: "open_edge ?e" "set (nb ?e) = {d. (p, d) \<in> R} - V"
    using assms(2-4) irr by (auto simp: touring_def)
  have len: "length t = nat n + 1" using assms(2) by (simp add: touring_def)
  have open_city: "open_edge (t ! nat c)" if "c \<in> {1..n}" "c \<notin> V" for c
    using assms(2) that by (simp add: touring_def)
  show ?thesis
  proof (cases "unused_edges ?e > 0")
    case True
    have "candidate_ok ?e t i" if "i \<in> {0..<unused_edges ?e}" for i
    proof -
      have "\<bar>edge_list ?e ! nat i\<bar> \<in> set (nb ?e)"
        unfolding nb_mem using that e(1) by (intro exI [of _ "nat i"]) (auto simp: open_edge_def nat_less_iff)
      then have "\<bar>edge_list ?e ! nat i\<bar> \<in> {1..n}" "\<bar>edge_list ?e ! nat i\<bar> \<notin> V" using e(2) rng by auto
      then show ?thesis using open_city that e(1) len by (simp add: candidate_ok_def open_edge_def nat_less_iff)
    qed
    then have "runs live G (gimme_gene ?e t) (\<lambda>g. g \<in> set (nb ?e))"
      using True e(1) by (intro gimme_gene_run) (auto simp: open_edge_def)
    then show ?thesis using True e(2) rng irr by (auto elim!: runs_mono)
  next
    case False
    then have "unused_edges ?e = 0" using e(1) by (simp add: open_edge_def)
    then have "nb ?e = []" by (simp add: nb_def)
    then have none: "(p, g) \<notin> R" if "g \<notin> V" for g using e(2) that by auto
    have drawable: "drawable False p t c \<longleftrightarrow> c \<noteq> p \<and> c \<notin> V" if "c \<in> {1..n}" for c
    proof (cases "c \<in> V")
      case True
      then have "unused_edges (t ! nat c) = - 1" using assms(2) that by (simp add: touring_def)
      then show ?thesis using True by (simp add: drawable_def)
    next
      case False
      then have "0 \<le> unused_edges (t ! nat c)" using open_city [OF that] by (simp add: open_edge_def)
      then show ?thesis using False by (simp add: drawable_def)
    qed
    have "runs live G (edge_failure gene index t n) (\<lambda>g. g \<in> {1..n} \<and> drawable False p t g)"
      using assms(5-9) len drawable by (intro edge_failure_run) auto
    then show ?thesis using False none drawable by (auto elim!: runs_mono)
  qed
qed


lemma tour_loop_run:
  assumes "edge_relation n R" "1 \<le> n" "n < 2 ^ 31"
  shows "1 \<le> i \<Longrightarrow> i \<le> n \<Longrightarrow> n \<le> int (length ng) \<Longrightarrow> distinct (take (nat i) ng) \<Longrightarrow>
    set (take (nat i) ng) \<subseteq> {1..n} \<Longrightarrow>
    touring n R (set (take (nat (i - 1)) ng)) (ng ! nat (i - 1)) {} t \<Longrightarrow>
    fails = int (length (strange_steps R (take (nat i) ng))) \<Longrightarrow>
    runs live G (tour_loop [i..n - 1] t ng n fails)
      (\<lambda>(k, ng', t'). length ng' = length ng \<and> distinct (take (nat n) ng') \<and> set (take (nat n) ng') \<subseteq> {1..n} \<and>
        k = int (length (strange_steps R (take (nat n) ng'))) \<and> table_shape n t')"
proof (induction "nat (n - i)" arbitrary: i ng t fails)
  case 0
  then have "i = n" by simp
  then show ?case using 0 touring_shape by (auto intro!: runs_return)
next
  case (Suc m)
  then have i: "1 \<le> i" "i < n" by auto
  define p where "p = ng ! nat (i - 1)"
  define V where "V = set (take (nat (i - 1)) ng)"
  have ni: "nat i = Suc (nat (i - 1))" "nat (i - 1) < length ng" using i Suc.prems(3) by auto
  have split: "take (nat i) ng = take (nat (i - 1)) ng @ [p]"
    using ni by (simp add: take_Suc_conv_app_nth p_def)
  have p: "p \<in> {1..n}" "p \<notin> V" using Suc.prems(4,5) unfolding split V_def by auto
  have tour: "touring n R V p {} t" using Suc.prems(6) by (simp add: V_def p_def)
  have er: "sym R" "irrefl R" "R \<subseteq> {1..n} \<times> {1..n}" using assms(1) by (auto simp: edge_relation_def)
  have lent: "length t = nat n + 1" using tour by (simp add: touring_def)
  from remove_gene_spec [OF tour p er] obtain t1 where
    t1: "remove_gene p (t ! nat p) t = Inr t1" "touring n R V p {c. (c, p) \<in> R} t1" by blast
  have len1: "length t1 = nat n + 1" using t1(2) by (simp add: touring_def)
  have get: "aget ng (i - 1) = Inr p" "aget t p = Inr (t ! nat p)" "aget t1 p = Inr (t1 ! nat p)"
    using ni i p lent len1 by (auto simp: aget_def p_def)
  have "\<exists>c\<in>{1..n}. c \<notin> V \<and> c \<noteq> p"
  proof (rule ccontr)
    assume "\<not> ?thesis"
    then have "{1..n} \<subseteq> set (take (nat i) ng)" unfolding split V_def by auto
    then have "card {1..n} \<le> card (set (take (nat i) ng))" by (intro card_mono) auto
    also have "\<dots> \<le> nat i" using card_length [of "take (nat i) ng"] by simp
    finally show False using i by simp
  qed
  note city = next_city_run [OF assms(1) t1(2) p assms(3), of "i - 1" ng, OF _ _ _ this]
  have list: "[i..n - 1] = i # [i + 1..n - 1]" using i by (simp add: upto_rec1)
  show ?case unfolding list tour_loop.simps
  proof (rule runs_res_bind [OF get(1)], rule runs_res_bind, simp only: get(2) res_bind_simps, rule t1(1),
      rule runs_res_bind [OF get(3)], rule runs_bind)
    show "runs live G (if unused_edges (t1 ! nat p) > 0 then gimme_gene (t1 ! nat p) t1 else edge_failure ng (i - 1) t1 n)
        (\<lambda>g. g \<in> {1..n} \<and> g \<notin> V \<and> g \<noteq> p \<and> ((p, g) \<in> R \<longleftrightarrow> unused_edges (t1 ! nat p) > 0))"
      using i ni by (intro city) (auto simp: p_def)
    fix g assume g: "g \<in> {1..n} \<and> g \<notin> V \<and> g \<noteq> p \<and> ((p, g) \<in> R \<longleftrightarrow> unused_edges (t1 ! nat p) > 0)"
    let ?ng = "ng[nat i := g]" and ?t = "t1[nat p := (t1 ! nat p)\<lparr>unused_edges := - 1\<rparr>]"
    let ?fails = "if unused_edges (t1 ! nat p) > 0 then fails else fails + 1"
    have set_i: "aset ng i g = Inr ?ng" "aset t1 p ((t1 ! nat p)\<lparr>unused_edges := - 1\<rparr>) = Inr ?t"
      using i Suc.prems(3) p len1 by (auto simp: aset_def)
    have take_i: "take (nat i) ?ng = take (nat i) ng" by simp
    have take_next: "take (nat (i + 1)) ?ng = take (nat i) ng @ [g]"
      using i Suc.prems(3) by (simp add: nat_add_distrib take_Suc_conv_app_nth)
    have V_next: "set (take (nat i) ng) = insert p V" unfolding split V_def by auto
    have "touring n R (insert p V) g {} ?t" by (rule touring_done [OF t1(2) p])
    then have "touring n R (set (take (nat (i + 1 - 1)) ?ng)) (?ng ! nat (i + 1 - 1)) {} ?t"
      using i Suc.prems(3) by (simp add: V_next)
    moreover have "distinct (take (nat (i + 1)) ?ng)" "set (take (nat (i + 1)) ?ng) \<subseteq> {1..n}"
      using Suc.prems(4,5) g unfolding take_next by (auto simp: V_next)
    moreover have "last (take (nat i) ng) = p" "take (nat i) ng \<noteq> []" unfolding split by simp_all
    then have "?fails = int (length (strange_steps R (take (nat (i + 1)) ?ng)))"
      using g Suc.prems(7) unfolding take_next by (simp add: strange_steps_snoc)
    ultimately have "runs live G (tour_loop [i + 1..n - 1] ?t ?ng n ?fails)
      (\<lambda>(k, ng', t'). length ng' = length ?ng \<and> distinct (take (nat n) ng') \<and> set (take (nat n) ng') \<subseteq> {1..n} \<and>
        k = int (length (strange_steps R (take (nat n) ng'))) \<and> table_shape n t')"
      using Suc.hyps(2) Suc.prems(3) i by (intro Suc.hyps(1)) auto
    then show "runs live G (rnd_bind (rnd_res (aset ng i g)) (\<lambda>new_gene1.
        rnd_bind (rnd_res (aset t1 p ((t1 ! nat p)\<lparr>unused_edges := - 1\<rparr>))) (\<lambda>t2.
          tour_loop [i + 1..n - 1] t2 new_gene1 n ?fails)))
      (\<lambda>(k, ng', t'). length ng' = length ng \<and> distinct (take (nat n) ng') \<and> set (take (nat n) ng') \<subseteq> {1..n} \<and>
        k = int (length (strange_steps R (take (nat n) ng'))) \<and> table_shape n t')"
      by (intro runs_res_bind [OF set_i(1)] runs_res_bind [OF set_i(2)]) simp
  qed
qed

end


lemma touring_start: "holds_edges n t R \<Longrightarrow> touring n R {} g {} t"
  by (auto simp: holds_edges_def touring_def fresh_edge_def open_edge_def)

lemma parent_relation:
  assumes "1 < n" "is_parent n t1" "is_parent n t2"
  shows "edge_relation n (parent_edges n t1 t2)"
  unfolding edge_relation_def
proof (intro conjI)
  show "sym (parent_edges n t1 t2)" using tour_edges_sym by (auto simp: sym_def parent_edges_def)
  show "irrefl (parent_edges n t1 t2)"
    using tour_edges_irrefl [of n] assms by (auto simp: irrefl_def parent_edges_def is_parent_def)
  have "a \<in> {1..n} \<and> b \<in> {1..n}" if "(a, b) \<in> tour_edges t n" "is_parent n t" for a b t
    using tour_edges_range [of a b t n] tour_edges_range [of b a t n] tour_edges_sym [of a b t n] that assms(1)
    by (auto simp: is_parent_def)
  then show "parent_edges n t1 t2 \<subseteq> {1..n} \<times> {1..n}" using assms(2,3) by (auto simp: parent_edges_def)
qed

lemma tour_of_distinct:
  assumes "distinct xs" "set xs \<subseteq> {1..n}" "length xs = nat n"
  shows "mset xs = mset [1..n]"
proof -
  have "set xs = {1..n}" using assms distinct_card [OF assms(1)] by (intro card_subset_eq) auto
  then show ?thesis using assms(1) by (intro set_eq_iff_mset_eq_distinct [THEN iffD1]) auto
qed

context random_source
begin

lemma gimme_tour_run:
  assumes "1 < n" "n < 2 ^ 31" "is_parent n t1" "is_parent n t2" "n \<le> int (length ng)"
    "holds_edges n t (parent_edges n t1 t2)"
  shows "runs live G (gimme_tour t ng n) (\<lambda>(k, ng', t'). length ng' = length ng \<and>
    mset (take (nat n) ng') = mset [1..n] \<and> k = int (length (strange_steps (parent_edges n t1 t2) (take (nat n) ng'))) \<and>
    table_shape n t')"
  unfolding gimme_tour_def
proof (rule runs_bind)
  show "runs live G (geqo_randint n 1) (\<lambda>g. 1 \<le> g \<and> g \<le> n)" using assms by (intro randint_run) auto
  fix g assume g: "1 \<le> g \<and> g \<le> n"
  let ?R = "parent_edges n t1 t2"
  have set0: "aset ng 0 g = Inr (ng[0 := g])" using assms by (auto simp: aset_def)
  have take1: "take (nat 1) (ng[0 := g]) = [g]" using assms(1,5) by (cases ng) auto
  have "runs live G (tour_loop [1..n - 1] t (ng[0 := g]) n 0)
      (\<lambda>(k, ng', t'). length ng' = length (ng[0 := g]) \<and> distinct (take (nat n) ng') \<and> set (take (nat n) ng') \<subseteq> {1..n} \<and>
        k = int (length (strange_steps ?R (take (nat n) ng'))) \<and> table_shape n t')"
    using assms g parent_relation [OF assms(1,3,4)] touring_start [OF assms(6)]
    by (intro tour_loop_run) (auto simp: take1 [simplified] strange_steps_def)
  then have "runs live G (tour_loop [1..n - 1] t (ng[0 := g]) n 0) (\<lambda>(k, ng', t'). length ng' = length ng \<and>
      mset (take (nat n) ng') = mset [1..n] \<and> k = int (length (strange_steps ?R (take (nat n) ng'))) \<and> table_shape n t')"
    by (rule runs_mono) (use assms(1,5) in \<open>auto intro!: tour_of_distinct\<close>)
  then show "runs live G (rnd_bind (rnd_res (aset ng 0 g)) (\<lambda>new_gene1. tour_loop [1..n - 1] t new_gene1 n 0))
      (\<lambda>(k, ng', t'). length ng' = length ng \<and>
        mset (take (nat n) ng') = mset [1..n] \<and> k = int (length (strange_steps ?R (take (nat n) ng'))) \<and> table_shape n t')"
    by (rule runs_res_bind [OF set0])
qed

end

section \<open>Properties\<close>

text \<open>
  C25. \<^verbatim>\<open>gimme_edge_table\<close> never writes outside the four entries of a city: for two tours it ends without
  error, with each city's list holding exactly its neighbours in the two tours, each once, and returns
  the average number of neighbours.
\<close>

theorem gimme_edge_table_correct:
  assumes "1 < n" "is_parent n tour1" "is_parent n tour2"
  shows "\<exists>avg t. gimme_edge_table tour1 tour2 n (alloc_edge_table junk n) = Inr (avg, t) \<and>
    list_all (\<lambda>c. length (edge_list (t ! nat c)) = 4 \<and> total_edges (t ! nat c) = unused_edges (t ! nat c) \<and>
      distinct (nb (t ! nat c)) \<and>
      set (nb (t ! nat c)) = {d. (c, d) \<in> tour_edges tour1 n \<union> tour_edges tour2 n}) [1..n] \<and>
    avg = real (card (tour_edges tour1 n \<union> tour_edges tour2 n)) / of_int n"
proof -
  have "length (alloc_edge_table junk n) = nat n + 1" "\<forall>c\<in>{1..n}. length (edge_list (alloc_edge_table junk n ! nat c)) = 4"
    using assms(1) by (auto simp: alloc_edge_table_def nat_add_distrib)
  from gimme_edge_table_holds [OF assms this] show ?thesis
    by (auto simp: holds_edges_def fresh_edge_def parent_edges_def list_all_iff)
qed

theorem gimme_edge_table_correct_witness:
  "\<exists>avg t. gimme_edge_table [1, 2, 3] [3, 2, 1] 3 (alloc_edge_table 0 3) = Inr (avg, t) \<and>
    list_all (\<lambda>c. length (edge_list (t ! nat c)) = 4 \<and> total_edges (t ! nat c) = unused_edges (t ! nat c) \<and>
      distinct (nb (t ! nat c)) \<and>
      set (nb (t ! nat c)) = {d. (c, d) \<in> tour_edges [1, 2, 3] 3 \<union> tour_edges [3, 2, 1] 3}) [1..3] \<and>
    avg = real (card (tour_edges [1, 2, 3] 3 \<union> tour_edges [3, 2, 1] 3)) / of_int 3"
proof -
  have "is_parent 3 [1, 2, 3]" "is_parent 3 [3, 2, 1]"
    by (simp_all add: is_parent_def is_tour_def upto_rec1 add_mset_commute)
  then show ?thesis by (intro gimme_edge_table_correct) simp_all
qed

text \<open>
  C10. Edge recombination of two tours makes a tour: whenever the draws of \<^verbatim>\<open>gimme_tour\<close> return, no error
  branch has been reached, the offspring is a permutation of the cities, and the number of edge failures
  it reports is the number of its steps that are edges of neither parent.
\<close>

theorem erx_offspring_is_tour:
  assumes "1 < n" "n < 2 ^ 31" "is_parent n tour1" "is_parent n tour2" "n \<le> int (length new_gene)"
    "gimme_edge_table tour1 tour2 n (alloc_edge_table junk n) = Inr (avg, t)"
    "gimme_tour t new_gene n s = Some r"
  shows "\<exists>k tour t' s'. r = Inr ((k, tour, t'), s') \<and> length tour = length new_gene \<and>
    mset (take (nat n) tour) = mset [1..n] \<and>
    k = int (length (filter (\<lambda>p. p \<notin> tour_edges tour1 n \<union> tour_edges tour2 n)
      (zip (take (nat n) tour) (tl (take (nat n) tour)))))"
proof -
  have "length (alloc_edge_table junk n) = nat n + 1" "\<forall>c\<in>{1..n}. length (edge_list (alloc_edge_table junk n ! nat c)) = 4"
    using assms(1) by (auto simp: alloc_edge_table_def nat_add_distrib)
  from gimme_edge_table_holds [OF assms(1,3,4) this] have "holds_edges n t (parent_edges n tour1 tour2)"
    using assms(6) by auto
  from runs_some [OF any_source.gimme_tour_run [OF assms(1-5) this] _ assms(7)] show ?thesis
    by (auto simp: strange_steps_def parent_edges_def)
qed

lemma some_first_city:
  "geqo_randint 3 1 some_state = Some (Inr (1, \<lparr>s0 = 65537, s1 = 0x2000000000\<rparr>))"
  by (simp add: geqo_randint_def pg_prng_uint64_range_def range_loop_step some_draws pos64_small)

definition small_table :: "Edge list" where
  "small_table =
     [\<lparr>edge_list = [0, 0, 0, 0], total_edges = 0, unused_edges = 0\<rparr>,
      \<lparr>edge_list = [- 2, - 3, 0, 0], total_edges = 2, unused_edges = 2\<rparr>,
      \<lparr>edge_list = [- 1, - 3, 0, 0], total_edges = 2, unused_edges = 2\<rparr>,
      \<lparr>edge_list = [- 2, - 1, 0, 0], total_edges = 2, unused_edges = 2\<rparr>]"

theorem erx_offspring_is_tour_witness:
  "gimme_edge_table [1, 2, 3] [2, 3, 1] 3 (alloc_edge_table 0 3) = Inr (2, small_table) \<and>
   (\<exists>k tour t' s'. gimme_tour small_table [0, 0, 0, 0] 3 some_state = Some (Inr ((k, tour, t'), s')) \<and>
    mset (take 3 tour) = mset [1..3] \<and>
    k = int (length (filter (\<lambda>p. p \<notin> tour_edges [1, 2, 3] 3 \<union> tour_edges [2, 3, 1] 3)
      (zip (take 3 tour) (tl (take 3 tour))))))"
proof -
  have par: "is_parent 3 [1, 2, 3]" "is_parent 3 [2, 3, 1]"
    by (simp_all add: is_parent_def is_tour_def upto_rec1 add_mset_commute)
  have tab: "gimme_edge_table [1, 2, 3] [2, 3, 1] 3 (alloc_edge_table 0 3) = Inr (2, small_table)" by code_simp
  have "\<exists>r. gimme_tour small_table [0, 0, 0, 0] 3 some_state = Some r"
    by (simp add: small_table_def gimme_tour_def rnd_bind_def rnd_res_def rnd_return_def some_first_city
      aset_def aget_def upto_rec1 remove_gene_def gimme_gene_def)
  then obtain r where run: "gimme_tour small_table [0, 0, 0, 0] 3 some_state = Some r" by blast
  from erx_offspring_is_tour [OF _ _ par _ tab run] show ?thesis using tab run by auto
qed


text \<open>The comment on the returned average gives the range from 2 to 4; two cities have one neighbour each.\<close>

lemma two_city_average: "map_sum id fst (gimme_edge_table [1, 2] [1, 2] 2 (alloc_edge_table 0 2)) = Inr 1"
  by code_simp

end
