(* ===== verification/Spec2Isabelle.thy ===== *)
theory Spec2Isabelle
  imports Joinsearch Lero Geqoerx
begin

text \<open>
  A verification of the planner core of Athena, a fork of PostgreSQL 16 whose optimizer can record the
  join orders it considers (Athena proper) and can be steered by scaled cardinalities (Lero). File names
  are relative to the repository.

  \<^bold>\<open>The program's parts and how they interact.\<close> The planner represents each set of relations by a bitmap
  set (\<^verbatim>\<open>src/backend/nodes/bitmapset.c\<close>, on the bit primitives of \<^verbatim>\<open>pg_bitutils\<close>). For every relation
  and join it collects \<^emph>\<open>paths\<close>, each with costs, a row estimate, an ordering (path keys, \<^verbatim>\<open>pathkeys.c\<close>) and
  the outer relations it needs. Each new path goes through a tournament against the ones at hand
  (\<^verbatim>\<open>add_path\<close>, \<^verbatim>\<open>add_partial_path\<close> in \<^verbatim>\<open>pathnode.c\<close>), after which the cheapest ones are picked
  (\<^verbatim>\<open>set_cheapest\<close>). Join relations are built level by level (\<^verbatim>\<open>standard_join_search\<close> in \<^verbatim>\<open>allpaths.c\<close>,
  \<^verbatim>\<open>join_search_one_level\<close> and \<^verbatim>\<open>make_join_rel\<close> in \<^verbatim>\<open>joinrels.c\<close>, \<^verbatim>\<open>build_join_rel\<close> in \<^verbatim>\<open>relnode.c\<close>), each pair of
  relations after a test that outer joins and lateral references allow it, and get their paths from
  \<^verbatim>\<open>add_paths_to_joinrel\<close> in \<^verbatim>\<open>joinpath.c\<close>. Join sizes come from \<^verbatim>\<open>set_joinrel_size_estimates\<close> in \<^verbatim>\<open>costsize.c\<close>, which hands them to
  Lero (\<^verbatim>\<open>src/backend/lero\<close>) when that is enabled; the planner entry point then plans every query twice.
  Athena keeps every path of the topmost join instead of the undominated ones (\<^verbatim>\<open>joinpath.c\<close>, \<^verbatim>\<open>add_path\<close>)
  and writes one line per path with its join order (\<^verbatim>\<open>src/backend/optimizer/jop\<close>). Queries with many
  relations are planned by a genetic search (\<^verbatim>\<open>src/backend/optimizer/geqo\<close>) driven by the generator of
  \<^verbatim>\<open>src/common/pg_prng.c\<close>.

  \<^bold>\<open>Theories.\<close>
  \<^item> \<open>Prelude\<close>: results of fallible code, the named collections, generic lemmas on lists, options and
    words, and the contract of a three-way comparison (locale \<open>comparator\<close>).
  \<^item> \<open>Bitutils\<close>: \<^verbatim>\<open>src/include/port/pg_bitutils.h\<close>, \<^verbatim>\<open>src/port/pg_bitutils.c\<close>. Both the branch that uses
    compiler builtins and the table-driven one are modelled; the two agree. Locale \<open>bit_scan\<close> is what a
    client relies on.
  \<^item> \<open>Bitmapset\<close>: every operation of \<^verbatim>\<open>bitmapset.c\<close> but \<^verbatim>\<open>bms_free\<close>, on lists of 64-bit words with
    \<open>None\<close> for the null pointer. The operations refine those of finite sets, keep the representation
    invariant, and reject negative members; positions are C integers that wrap, and iteration visits each
    member once for sets below the largest integer; \<^verbatim>\<open>bms_compare\<close> is a linear order; equal sets have equal
    hashes. Locale \<open>relid_sets\<close> is the interface the planner theories use.
  \<^item> \<open>Pathdata\<close>: the planner's structs (\<^verbatim>\<open>pathnodes.h\<close>) with the fields that the modelled code reads or
    writes. Paths are trees; their common part is the record \<open>path_info\<close>.
  \<^item> \<open>Pathkeys\<close>: canonical path keys, comparison of orderings, merge clause selection and truncation of
    useless orderings. Equivalence classes live in a store indexed by pointers, so that pointer equality
    and merged classes are as in the code.
  \<^item> \<open>Pathnode\<close>: cost comparisons, \<^verbatim>\<open>set_cheapest\<close> and the searches of path lists.
  \<^item> \<open>Addpath\<close>: the tournaments and their prechecks, in normal and in collecting mode. The loop shared by
    the two tournaments is studied once in locale \<open>path_tournament\<close>.
  \<^item> \<open>Joinorder\<close>: Athena's recorder \<^verbatim>\<open>jop_extension.c\<close>: the string builder with its capacity and
    allocation, \<^verbatim>\<open>catch_join_order\<close>, \<^verbatim>\<open>save_join_order_plans\<close> over the stream that \<^verbatim>\<open>fopen\<close> returned.
  \<^item> \<open>Joinpath\<close>: \<^verbatim>\<open>add_paths_to_joinrel\<close> with Athena's test for the topmost relation and its separate path
    lists. The routines it calls are fields of the record \<open>path_services\<close>.
  \<^item> \<open>Joinlegal\<close>: which pairs may be joined (\<^verbatim>\<open>join_is_legal\<close> with its closure loop, the order restrictions),
    \<^verbatim>\<open>have_relevant_joinclause\<close>, and the clause lists and least parameterization of a join relation.
  \<^item> \<open>Joinrels\<close>: the table of join relations as list and as hash table, \<^verbatim>\<open>build_join_rel\<close>, empty relations,
    \<^verbatim>\<open>populate_joinrel_with_paths\<close>, \<^verbatim>\<open>make_join_rel\<close>, one level of the search and \<^verbatim>\<open>standard_join_search\<close>.
    Relations live in a heap indexed by pointers. What is called and not modelled is a field of the
    record \<open>join_services\<close>.
  \<^item> \<open>Joinsearch\<close>: the invariant of that search and its result.
  \<^item> \<open>Lero\<close>: the join size formula and \<^verbatim>\<open>lero_extension.c\<close> whole. The standard planner appears as a
    process that asks for estimates and finally gives a plan, so that both runs of the Lero planner are
    runs of the same process. A computed size may be no number (\<open>NaN\<close>).
  \<^item> \<open>Prng\<close>: \<^verbatim>\<open>pg_prng.c\<close> whole, on 64-bit words.
  \<^item> \<open>Geqopool\<close>: the genetic optimizer's tours, pool and selection, as computations over the generator's
    state. Locale \<open>random_source\<close> collects what they need of the draws. The double operations of the
    biased selection go through a rounding function, an argument.
  \<^item> \<open>Geqoerx\<close>: edge recombination, \<^verbatim>\<open>geqo_erx.c\<close>: the edge table of two tours and the tour made from it.

  \<^bold>\<open>Modelling choices.\<close> An \<^verbatim>\<open>elog(ERROR)\<close>, a failed assertion and an access outside an allocation are values
  of \<open>pg_error\<close>. Costs, row counts and other doubles are reals, so rounding is not modelled but in two
  places: \<^verbatim>\<open>rint\<close> in \<^verbatim>\<open>clamp_row_est\<close> is written out, and the selection of the genetic optimizer takes any
  rounding of its operations. Unsigned words wrap, and so do the positions in bitmap sets. Loops that
  need not end are partial functions with \<open>None\<close> for a run that does not return; there is no fuel.
  Rejection sampling ends with every generator state that has an acceptable output ahead of it, so
  results on drawn values are stated for runs that return. Memory contexts and the release of storage are
  left out. Fresh memory has unknown contents, given as an argument.

  \<^bold>\<open>What the properties show.\<close> In normal mode a path list in which no path dominates another one stays so,
  with a stand-in for every path that is dropped; path lists stay sorted by total cost, and the
  prechecks refuse only what the tournament would not accept, if rows and parallel safety do not speak
  for the new path; in collecting mode nothing is dropped, and the paths of the topmost join are those
  of its pairs of inputs one after the other. Whether two relations may be joined does not depend on
  their order, every clause goes to the right list of the new relation, and for queries without special
  joins and lateral references the search ends in one relation that joins all others and has a cheapest
  path. The recorded line of a path is its join tree, and the recorder stays inside its buffer. The
  Lero planner replays the recorded estimates with those of the chosen size scaled, is the standard
  planner for a neutral factor, and stays inside its arrays. Merge clauses chosen for an outer order
  give an inner order. Ranges are drawn without bias. Random tours and recombined tours are
  permutations, the pool stays sorted and of its size, and selection takes two members of it.

  \<^bold>\<open>Not modelled.\<close> The path generators, cost formulas and selectivity estimates work on catalog data and
  statistics; where the modelled code calls them they are arguments. Plan creation, preprocessing of
  queries, parser, executor, storage, access methods, replication and the client programs are
  untouched by the fork or are I/O and concurrency. Target lists and partitionwise joins are left out of
  join relations. The remaining crossovers of the genetic optimizer, its evaluation by building join
  relations and its main loop are not modelled.
\<close>

end
